(* ===== verification/Prelude.thy ===== *)
theory Prelude imports Main "HOL-Library.Word" "HOL-Library.List_Lexorder" begin

text \<open>
  Shared vocabulary of the development: the machine integers and byte strings of the Rust
  code, the outcome of an operation (value, error, panic), Rust's checked arithmetic, and
  the generic facts on words and maps that the component theories use.

  \<^item> \<open>u64\<close> (sequence numbers) is a 64-bit word; \<open>seq + 1\<close> is \<open>checked_inc\<close>.
  \<^item> \<open>usize\<close> (counts and byte totals) is a natural number with the bound of a 64-bit target
    written out in \<open>checked_add\<close>, \<open>checked_sub\<close> and \<open>saturating_add\<close>.
  \<^item> Arithmetic that overflows gives \<open>None\<close>: the panic of a build with overflow checks. A run
    without such a panic is the same in a build that wraps.
\<close>

section \<open>Types\<close>

type_synonym byte = "8 word"
type_synonym u64 = "64 word"
type_synonym usize = nat
type_synonym key = "byte list"
type_synonym val = "byte list"

datatype ('e, 'a) outcome = Ok 'a | Err 'e | Panic

fun map_err :: "('e \<Rightarrow> 'f) \<Rightarrow> ('e, 'a) outcome \<Rightarrow> ('f, 'a) outcome" where
  "map_err f (Ok a) = Ok a"
| "map_err f (Err e) = Err (f e)"
| "map_err f Panic = Panic"

section \<open>Collections of facts\<close>

named_theorems word_facts \<open>bounds and successors of words\<close>
named_theorems store_laws \<open>what a lawful store promises\<close>

section \<open>Checked arithmetic\<close>

abbreviation usize_max :: usize where
  "usize_max \<equiv> 18446744073709551615"

definition checked_inc :: "u64 \<Rightarrow> u64 option" where
  "checked_inc n = (if n = - 1 then None else Some (n + 1))"

definition checked_add :: "usize \<Rightarrow> usize \<Rightarrow> usize option" where
  "checked_add a b = (if a + b \<le> usize_max then Some (a + b) else None)"

definition checked_sub :: "usize \<Rightarrow> usize \<Rightarrow> usize option" where
  "checked_sub a b = (if b \<le> a then Some (a - b) else None)"

definition saturating_add :: "usize \<Rightarrow> usize \<Rightarrow> usize" where
  "saturating_add a b = min (a + b) usize_max"

lemma checked_inc_eq_Some [simp]: "checked_inc n = Some m \<longleftrightarrow> n \<noteq> - 1 \<and> m = n + 1"
  by (auto simp: checked_inc_def)

lemma checked_inc_eq_None [simp]: "checked_inc n = None \<longleftrightarrow> n = - 1"
  by (simp add: checked_inc_def)

lemma checked_add_eq_Some [simp]: "checked_add a b = Some c \<longleftrightarrow> a + b \<le> usize_max \<and> c = a + b"
  by (auto simp: checked_add_def)

lemma checked_sub_eq_Some [simp]: "checked_sub a b = Some c \<longleftrightarrow> b \<le> a \<and> c = a - b"
  by (auto simp: checked_sub_def)

lemma checked_sub_eq_None [simp]: "checked_sub a b = None \<longleftrightarrow> a < b"
  by (auto simp: checked_sub_def)

section \<open>Words\<close>

lemma unat_inc [word_facts]:
  fixes n :: "'a::len word"
  assumes "n \<noteq> - 1"
  shows "unat (n + 1) = Suc (unat n)"
proof -
  have "n + 1 \<noteq> 0"
    using assms by (metis add.commute add_eq_0_iff)
  then show ?thesis
    by (metis Suc_eq_plus1 add.commute unatSuc)
qed

lemma less_inc_iff [word_facts]:
  fixes n :: "'a::len word"
  assumes "n \<noteq> - 1"
  shows "x < n + 1 \<longleftrightarrow> x \<le> n"
  using unat_inc [OF assms] by (simp add: word_less_nat_alt word_le_nat_alt less_Suc_eq_le)

lemma inc_le_iff [word_facts]:
  fixes n :: "'a::len word"
  assumes "n \<noteq> - 1"
  shows "n + 1 \<le> x \<longleftrightarrow> n < x"
  using less_inc_iff [OF assms] by (meson leD leI)

lemma less_not_max [word_facts]:
  fixes n :: "'a::len word"
  shows "n < m \<Longrightarrow> n \<noteq> - 1"
  by auto

lemma byte_bound [word_facts]: "unat (b :: byte) < 256"
  using unsigned_less [of b] by simp

lemma finite_words [simp]: "finite (A :: 'a::len word set)"
  by (rule finite_subset [OF subset_UNIV]) simp

section \<open>Outcomes\<close>

lemma map_err_eq_Ok [simp]: "map_err f r = Ok a \<longleftrightarrow> r = Ok a"
  by (cases r) auto

lemma map_err_eq_Err: "map_err f r = Err e \<longleftrightarrow> (\<exists>x. r = Err x \<and> e = f x)"
  by (cases r) auto

lemma map_err_eq_Panic [simp]: "map_err f r = Panic \<longleftrightarrow> r = Panic"
  by (cases r) auto

end
