(* ===== verification/Keys.thy ===== *)
theory Keys imports Prelude begin

text \<open>
  The key layout of the store (\<open>src/src/queue.rs\<close>, lines 10--17 and 490--505): the meta
  record at \<open>0x00\<close> and one entry per sequence number at \<open>0x01\<close> followed by the number as
  eight big-endian bytes. The lemmas give the two facts the queue rests on: \<open>seq_of\<close> inverts
  \<open>entry_key\<close>, and the lexicographic order of the keys is the numeric order of the numbers.
\<close>

section \<open>Constants and operations\<close>

definition META_KEY :: key where
  "META_KEY = [0]"

definition ENTRY_PREFIX :: byte where
  "ENTRY_PREFIX = 1"

definition ENTRY_LOW :: key where
  "ENTRY_LOW = [ENTRY_PREFIX]"

definition ENTRY_HIGH :: key where
  "ENTRY_HIGH = [ENTRY_PREFIX, 0xff, 0xff, 0xff, 0xff, 0xff, 0xff, 0xff, 0xff]"

definition FORMAT_VERSION :: byte where
  "FORMAT_VERSION = 1"

text \<open>
  \<open>be_digits k n\<close> is the number \<open>n\<close> in \<open>k\<close> bytes, most significant first; Rust's
  \<open>u64::to_be_bytes\<close> and \<open>u64::from_be_bytes\<close> are the case of eight bytes.
\<close>

fun be_digits :: "nat \<Rightarrow> nat \<Rightarrow> byte list" where
  "be_digits 0 n = []"
| "be_digits (Suc k) n = word_of_nat (n div 256 ^ k) # be_digits k (n mod 256 ^ k)"

fun be_value :: "nat \<Rightarrow> byte list \<Rightarrow> nat" where
  "be_value acc [] = acc"
| "be_value acc (b # bs) = be_value (256 * acc + unat b) bs"

definition to_be_bytes :: "u64 \<Rightarrow> byte list" where
  "to_be_bytes n = be_digits 8 (unat n)"

definition from_be_bytes :: "byte list \<Rightarrow> u64" where
  "from_be_bytes bs = word_of_nat (be_value 0 bs)"

definition entry_key :: "u64 \<Rightarrow> key" where
  "entry_key seq = ENTRY_PREFIX # to_be_bytes seq"

text \<open>\<open>key[1..9]\<close> panics on a key shorter than nine bytes.\<close>

definition seq_of :: "key \<Rightarrow> u64 option" where
  "seq_of key = (if length key < 9 then None else Some (from_be_bytes (take 8 (drop 1 key))))"

definition is_entry :: "key \<Rightarrow> bool" where
  "is_entry key \<longleftrightarrow> length key = 9 \<and> key ! 0 = ENTRY_PREFIX"

section \<open>Big-endian digits\<close>

lemma length_be_digits [simp]: "length (be_digits k n) = k"
  by (induction k arbitrary: n) auto

lemma length_to_be_bytes [simp]: "length (to_be_bytes n) = 8"
  by (simp add: to_be_bytes_def)

lemma unat_top_digit: "n < 256 ^ Suc k \<Longrightarrow> unat (word_of_nat (n div 256 ^ k) :: byte) = n div 256 ^ k"
  by (simp add: unat_of_nat less_mult_imp_div_less mult.commute)

lemma be_value_digits: "n < 256 ^ k \<Longrightarrow> be_value acc (be_digits k n) = acc * 256 ^ k + n"
proof (induction k arbitrary: acc n)
  case 0
  then show ?case by simp
next
  case (Suc k)
  have "be_value acc (be_digits (Suc k) n) = (256 * acc + n div 256 ^ k) * 256 ^ k + n mod 256 ^ k"
    using Suc unat_top_digit [of n k] by simp
  also have "\<dots> = acc * 256 ^ Suc k + n"
    by (simp add: algebra_simps)
  finally show ?case .
qed

lemma div_mod_less_iff:
  "m < n \<longleftrightarrow> m div p < n div p \<or> m div p = n div p \<and> m mod p < n mod p" for m n p :: nat
proof -
  consider "m div p < n div p" | "m div p = n div p" | "n div p < m div p" by linarith
  then show ?thesis
  proof cases
    case 1
    then have "\<not> n \<le> m" using div_le_mono [of n m p] by linarith
    with 1 show ?thesis by simp
  next
    case 2
    have "m = p * (n div p) + m mod p" "n = p * (n div p) + n mod p"
      using 2 mult_div_mod_eq [of p m] by simp_all
    then have "m < n \<longleftrightarrow> m mod p < n mod p"
      by linarith
    with 2 show ?thesis by simp
  next
    case 3
    then have "\<not> m \<le> n" using div_le_mono [of m n p] by linarith
    with 3 show ?thesis by simp
  qed
qed

lemma be_digits_less_iff:
  "m < 256 ^ k \<Longrightarrow> n < 256 ^ k \<Longrightarrow> be_digits k m < be_digits k n \<longleftrightarrow> m < n"
proof (induction k arbitrary: m n)
  case 0
  then show ?case by simp
next
  case (Suc k)
  let ?p = "256 ^ k :: nat"
  have top: "(word_of_nat (m div ?p) :: byte) < word_of_nat (n div ?p) \<longleftrightarrow> m div ?p < n div ?p"
    "(word_of_nat (m div ?p) :: byte) = word_of_nat (n div ?p) \<longleftrightarrow> m div ?p = n div ?p"
    using Suc.prems unat_top_digit [of m k] unat_top_digit [of n k]
    by (simp_all add: word_less_nat_alt word_unat_eq_iff)
  have split: "m < n \<longleftrightarrow> m div ?p < n div ?p \<or> m div ?p = n div ?p \<and> m mod ?p < n mod ?p"
    by (rule div_mod_less_iff)
  show ?case
    using Suc.IH [of "m mod ?p" "n mod ?p"] by (simp add: top split)
qed

lemma be_value_mono_bound: "be_value acc bs < (acc + 1) * 256 ^ length bs"
proof (induction bs arbitrary: acc)
  case Nil
  then show ?case by simp
next
  case (Cons b bs)
  have "unat b < 256"
    by (rule byte_bound)
  then have "(256 * acc + unat b + 1) * 256 ^ length bs \<le> (256 * acc + 256) * 256 ^ length bs"
    by (intro mult_right_mono) simp_all
  also have "\<dots> = (acc + 1) * 256 ^ length (b # bs)"
    by (simp add: algebra_simps)
  finally show ?case
    using Cons [of "256 * acc + unat b"] by simp
qed

lemma be_digits_value:
  "be_digits (length bs) (be_value 0 bs) = bs"
proof (induction bs rule: rev_induct)
  case Nil
  then show ?case by simp
next
  case (snoc b bs)
  have app: "be_value acc (xs @ [b]) = 256 * be_value acc xs + unat b" for acc xs
    by (induction xs arbitrary: acc) auto
  have low: "be_digits (Suc k) (256 * n + unat b) = be_digits k n @ [b]" if "n < 256 ^ k" for k n
    using that
  proof (induction k arbitrary: n)
    case 0
    then show ?case by simp
  next
    case (Suc k)
    let ?p = "256 ^ k :: nat"
    have b: "unat b < 256"
      by (rule byte_bound)
    then have "(256 * n + unat b) div (256 * ?p) = n div ?p"
      by (simp add: div_mult2_eq)
    moreover have "(256 * n + unat b) mod (256 * ?p) = 256 * (n mod ?p) + unat b"
      using b by (simp add: mod_mult2_eq)
    moreover have "n mod ?p < 256 ^ k" by simp
    ultimately show ?case
      using Suc.IH [of "n mod ?p"] by simp
  qed
  have "be_value 0 bs < 256 ^ length bs"
    using be_value_mono_bound [of 0 bs] by simp
  with low [of "be_value 0 bs" "length bs"] snoc show ?case
    by (simp add: app)
qed

section \<open>Keys and sequence numbers\<close>

lemma u64_bound: "unat (n :: u64) < 256 ^ 8"
  using unsigned_less [of n] by simp

lemma from_to_be_bytes [simp]: "from_be_bytes (to_be_bytes n) = n"
  using be_value_digits [OF u64_bound [of n], of 0]
  by (simp add: from_be_bytes_def to_be_bytes_def)

lemma to_from_be_bytes: "length bs = 8 \<Longrightarrow> to_be_bytes (from_be_bytes bs) = bs"
  using be_value_mono_bound [of 0 bs] be_digits_value [of bs]
  by (simp add: to_be_bytes_def from_be_bytes_def unat_of_nat)

lemma to_be_bytes_less_iff: "to_be_bytes m < to_be_bytes n \<longleftrightarrow> m < n"
  using be_digits_less_iff [OF u64_bound [of m] u64_bound [of n]]
  by (simp add: to_be_bytes_def word_less_nat_alt)

lemma length_entry_key [simp]: "length (entry_key seq) = 9"
  by (simp add: entry_key_def)

lemma is_entry_entry_key [simp]: "is_entry (entry_key seq)"
  by (simp add: is_entry_def entry_key_def)

lemma seq_of_entry_key [simp]: "seq_of (entry_key seq) = Some seq"
  by (simp add: seq_of_def entry_key_def)

lemma entry_key_inject [simp]: "entry_key a = entry_key b \<longleftrightarrow> a = b"
  by (metis option.inject seq_of_entry_key)

lemma entry_key_less_iff [simp]: "entry_key a < entry_key b \<longleftrightarrow> a < b"
  by (simp add: entry_key_def to_be_bytes_less_iff)

lemma entry_key_le_iff [simp]: "entry_key a \<le> entry_key b \<longleftrightarrow> a \<le> b"
  by (simp add: linorder_not_less [symmetric])

text \<open>Every entry key is the key of exactly one sequence number.\<close>

lemma is_entry_cases:
  assumes "is_entry k"
  obtains seq where "k = entry_key seq" and "seq_of k = Some seq"
proof -
  obtain bs where k: "k = ENTRY_PREFIX # bs" and bs: "length bs = 8"
    using assms by (cases k) (auto simp: is_entry_def)
  then have "k = entry_key (from_be_bytes bs)"
    by (simp add: entry_key_def to_from_be_bytes)
  then show thesis
    by (rule that) (simp add: k seq_of_def bs)
qed

lemma is_entry_iff: "is_entry k \<longleftrightarrow> (\<exists>seq. k = entry_key seq)"
  by (auto elim: is_entry_cases)

lemma is_entry_seq_of: "is_entry k \<Longrightarrow> seq_of k = Some seq \<longleftrightarrow> k = entry_key seq"
  by (auto elim: is_entry_cases)

lemma meta_not_entry [simp]: "\<not> is_entry META_KEY" "META_KEY \<noteq> entry_key seq" "entry_key seq \<noteq> META_KEY"
  by (auto simp: is_entry_def META_KEY_def entry_key_def ENTRY_PREFIX_def)

lemma meta_below_low [simp]: "META_KEY < ENTRY_LOW"
  by (simp add: META_KEY_def ENTRY_LOW_def ENTRY_PREFIX_def)

lemma entry_low_below [simp]: "ENTRY_LOW < entry_key seq"
  using length_to_be_bytes [of seq]
  by (cases "to_be_bytes seq") (simp_all add: ENTRY_LOW_def entry_key_def)

lemma entry_high_eq: "ENTRY_HIGH = entry_key (- 1)"
proof -
  let ?ff = "[0xff, 0xff, 0xff, 0xff, 0xff, 0xff, 0xff, 0xff] :: byte list"
  have "from_be_bytes ?ff = - 1"
    by (simp add: from_be_bytes_def)
  with to_from_be_bytes [of ?ff] show ?thesis
    by (simp add: ENTRY_HIGH_def entry_key_def)
qed

lemma entry_below_high [simp]: "entry_key seq \<le> ENTRY_HIGH"
  by (simp add: entry_high_eq)

section \<open>Property\<close>

text \<open>C40. The key encoding. \<open>seq_of\<close> inverts \<open>entry_key\<close>; the store's lexicographic order of the keys
  is the order of the sequence numbers, at every width of the number; the keys \<open>is_entry\<close> accepts
  are exactly the entry keys; and they all lie between \<open>ENTRY_LOW\<close> and \<open>ENTRY_HIGH\<close>, above the
  key of the format version.\<close>

theorem entry_keys_in_order:
  "seq_of (entry_key a) = Some a \<and> (entry_key a < entry_key b \<longleftrightarrow> a < b) \<and>
    (is_entry k \<longleftrightarrow> (\<exists>q. k = entry_key q)) \<and>
    META_KEY < ENTRY_LOW \<and> ENTRY_LOW < entry_key a \<and> entry_key a \<le> ENTRY_HIGH"
  by (simp add: is_entry_iff)

end
