(* ===== verification/Store.thy ===== *)
theory Store imports Keys begin

text \<open>
  The \<open>Store\<close> trait (\<open>src/src/store.rs\<close>, lines 5--36). A backend is a record of its four
  operations; an operation takes the backend's state and returns its result and the new state.
  What the trait's documentation promises is the locale \<open>store_contract\<close>, stated over the
  finite map \<open>view\<close> that a state holds; \<open>atomic_store\<close> and \<open>durable_store\<close> are the two
  stronger contracts some theorems need, and \<open>retention\<close> is what the queue's no-loss argument
  needs of either.
\<close>

section \<open>The interface\<close>

datatype Op = Put key val | Delete key

type_synonym KeyValue = "key \<times> val"

record ('s, 'e) Store =
  get :: "'s \<Rightarrow> key \<Rightarrow> ('e + val option) \<times> 's"
  seek :: "'s \<Rightarrow> key \<Rightarrow> ('e + KeyValue option) \<times> 's"
  seek_back :: "'s \<Rightarrow> key \<Rightarrow> ('e + KeyValue option) \<times> 's"
  commit :: "'s \<Rightarrow> Op list \<Rightarrow> bool \<Rightarrow> ('e + unit) \<times> 's"

section \<open>Specification vocabulary\<close>

fun op_key :: "Op \<Rightarrow> key" where
  "op_key (Put k v) = k"
| "op_key (Delete k) = k"

fun apply_op :: "(key \<rightharpoonup> val) \<Rightarrow> Op \<Rightarrow> (key \<rightharpoonup> val)" where
  "apply_op m (Put k v) = m(k \<mapsto> v)"
| "apply_op m (Delete k) = m(k := None)"

abbreviation apply_ops :: "(key \<rightharpoonup> val) \<Rightarrow> Op list \<Rightarrow> (key \<rightharpoonup> val)" where
  "apply_ops \<equiv> foldl apply_op"

text \<open>\<open>r\<close> is the smallest entry at or after \<open>from\<close>; the greatest one at or before \<open>limit\<close>.\<close>

definition least_from :: "(key \<rightharpoonup> val) \<Rightarrow> key \<Rightarrow> KeyValue option \<Rightarrow> bool" where
  "least_from m from r = (case r of
     None \<Rightarrow> \<forall>k \<in> dom m. k < from
   | Some (k, v) \<Rightarrow> m k = Some v \<and> from \<le> k \<and> (\<forall>k' \<in> dom m. from \<le> k' \<longrightarrow> k \<le> k'))"

definition greatest_upto :: "(key \<rightharpoonup> val) \<Rightarrow> key \<Rightarrow> KeyValue option \<Rightarrow> bool" where
  "greatest_upto m limit r = (case r of
     None \<Rightarrow> \<forall>k \<in> dom m. limit < k
   | Some (k, v) \<Rightarrow> m k = Some v \<and> k \<le> limit \<and> (\<forall>k' \<in> dom m. k' \<le> limit \<longrightarrow> k' \<le> k))"

lemma apply_op_other: "k \<noteq> op_key x \<Longrightarrow> apply_op m x k = m k"
  by (cases x) auto

lemma apply_ops_other: "k \<notin> op_key ` set ops \<Longrightarrow> apply_ops m ops k = m k"
  by (induction ops arbitrary: m) (auto simp: apply_op_other)

lemma apply_ops_same_put:
  "\<forall>x \<in> set ops. op_key x = k \<longrightarrow> x = Put k v \<Longrightarrow> m k = Some v \<Longrightarrow> apply_ops m ops k = Some v"
proof (induction ops arbitrary: m)
  case Nil
  then show ?case by simp
next
  case (Cons x ops)
  have "apply_op m x k = Some v"
    using Cons.prems by (cases "op_key x = k") (auto simp: apply_op_other)
  with Cons show ?case by simp
qed

lemma apply_ops_put:
  "\<forall>x \<in> set ops. op_key x = k \<longrightarrow> x = Put k v \<Longrightarrow> Put k v \<in> set ops \<Longrightarrow> apply_ops m ops k = Some v"
proof (induction ops arbitrary: m)
  case Nil
  then show ?case by simp
next
  case (Cons x ops)
  have rest: "\<forall>y \<in> set ops. op_key y = k \<longrightarrow> y = Put k v"
    using Cons.prems(1) by simp
  show ?case
  proof (cases "x = Put k v")
    case True
    then show ?thesis
      using apply_ops_same_put [OF rest, of "apply_op m x"] by simp
  next
    case False
    then show ?thesis
      using Cons.IH [OF rest] Cons.prems(2) by auto
  qed
qed

section \<open>The trait's contract\<close>

locale store_contract =
  fixes S :: "('s, 'e) Store"
    and sinv :: "'s \<Rightarrow> bool"
    and view :: "'s \<Rightarrow> key \<rightharpoonup> val"
  assumes get_keeps: "sinv st \<Longrightarrow> get S st k = (g, st') \<Longrightarrow> sinv st' \<and> view st' = view st"
    and get_reads: "sinv st \<Longrightarrow> get S st k = (Inr r, st') \<Longrightarrow> r = view st k"
    and seek_keeps: "sinv st \<Longrightarrow> seek S st k = (q, st') \<Longrightarrow> sinv st' \<and> view st' = view st"
    and seek_reads: "sinv st \<Longrightarrow> seek S st k = (Inr kv, st') \<Longrightarrow> least_from (view st) k kv"
    and seek_back_keeps: "sinv st \<Longrightarrow> seek_back S st k = (q, st') \<Longrightarrow> sinv st' \<and> view st' = view st"
    and seek_back_reads: "sinv st \<Longrightarrow> seek_back S st k = (Inr kv, st') \<Longrightarrow> greatest_upto (view st) k kv"
    and commit_keeps: "sinv st \<Longrightarrow> commit S st ops d = (c, st') \<Longrightarrow> sinv st'"
    and commit_ok: "sinv st \<Longrightarrow> commit S st ops d = (Inr (), st') \<Longrightarrow> view st' = apply_ops (view st) ops"
    and commit_err: "sinv st \<Longrightarrow> commit S st ops d = (Inl e, st') \<Longrightarrow>
      \<exists>n. view st' k = apply_ops (view st) (take n ops) k"

text \<open>
  A failed commit of this contract may have applied any prefix of the batch to a key. A store
  that leaves its contents alone when it fails is \<open>atomic_store\<close>.
\<close>

locale atomic_store = store_contract +
  assumes commit_err_unchanged: "sinv st \<Longrightarrow> commit S st ops d = (Inl e, st') \<Longrightarrow> view st' = view st"

text \<open>
  A store that survives crashes: \<open>stable\<close> is what is on disk and \<open>crash\<close> the state after a
  restart. A background flush may move a key's stable value to its live one at any time; a
  successful durable commit has made its keys stable when it returns.
\<close>

locale durable_store = store_contract +
  fixes stable :: "'s \<Rightarrow> key \<rightharpoonup> val"
    and crash :: "'s \<Rightarrow> 's"
  assumes crash_sinv: "sinv st \<Longrightarrow> sinv (crash st)"
    and crash_view: "sinv st \<Longrightarrow> view (crash st) = stable st"
    and get_stable: "sinv st \<Longrightarrow> get S st k = (r, st') \<Longrightarrow> stable st' j \<in> {stable st j, view st j}"
    and seek_stable: "sinv st \<Longrightarrow> seek S st k = (q, st') \<Longrightarrow> stable st' j \<in> {stable st j, view st j}"
    and seek_back_stable: "sinv st \<Longrightarrow> seek_back S st k = (q, st') \<Longrightarrow> stable st' j \<in> {stable st j, view st j}"
    and commit_stable: "sinv st \<Longrightarrow> commit S st ops d = (c, st') \<Longrightarrow>
      stable st' j \<in> {stable st j, view st j, view st' j}"
    and commit_durable: "sinv st \<Longrightarrow> commit S st ops True = (Inr (), st') \<Longrightarrow> j \<in> op_key ` set ops \<Longrightarrow>
      stable st' j = view st' j"

text \<open>
  What keeps an item: \<open>safe st k v\<close> says that \<open>st\<close> holds \<open>v\<close> at \<open>k\<close> for good. A successful
  commit that writes the key makes it safe (if \<open>dur\<close>, only a durable one), and nothing but a
  write of something else to the key ends it.
\<close>

locale retention = store_contract +
  fixes dur :: bool
    and safe :: "'s \<Rightarrow> key \<Rightarrow> val \<Rightarrow> bool"
  assumes safe_view: "safe st k v \<Longrightarrow> view st k = Some v"
    and safe_get: "sinv st \<Longrightarrow> get S st j = (r, st') \<Longrightarrow> safe st k v \<Longrightarrow> safe st' k v"
    and safe_seek: "sinv st \<Longrightarrow> seek S st j = (q, st') \<Longrightarrow> safe st k v \<Longrightarrow> safe st' k v"
    and safe_seek_back: "sinv st \<Longrightarrow> seek_back S st j = (q, st') \<Longrightarrow> safe st k v \<Longrightarrow> safe st' k v"
    and safe_keep: "sinv st \<Longrightarrow> commit S st ops d = (c, st') \<Longrightarrow> safe st k v \<Longrightarrow>
      \<forall>x \<in> set ops. op_key x = k \<longrightarrow> x = Put k v \<Longrightarrow> safe st' k v"
    and safe_commit: "sinv st \<Longrightarrow> commit S st ops d = (Inr (), st') \<Longrightarrow> dur \<longrightarrow> d \<Longrightarrow>
      k \<in> op_key ` set ops \<Longrightarrow> apply_ops (view st) ops k = Some v \<Longrightarrow> safe st' k v"

context store_contract begin

lemma commit_prefix:
  assumes "sinv st" and "commit S st ops d = (c, st')"
  shows "\<exists>n. view st' k = apply_ops (view st) (take n ops) k"
proof (cases c)
  case (Inl e)
  with commit_err assms show ?thesis by blast
next
  case (Inr u)
  with commit_ok assms have "view st' k = apply_ops (view st) (take (length ops) ops) k"
    by simp
  then show ?thesis by blast
qed

lemma commit_other:
  assumes "sinv st" and "commit S st ops d = (c, st')" and "k \<notin> op_key ` set ops"
  shows "view st' k = view st k"
proof -
  obtain n where "view st' k = apply_ops (view st) (take n ops) k"
    using commit_prefix assms by blast
  moreover have "k \<notin> op_key ` set (take n ops)"
    using assms(3) by (auto dest: in_set_takeD)
  ultimately show ?thesis
    by (simp add: apply_ops_other)
qed

lemma commit_keep_put:
  assumes "sinv st" and "commit S st ops d = (c, st')" and "view st k = Some v"
    and "\<forall>x \<in> set ops. op_key x = k \<longrightarrow> x = Put k v"
  shows "view st' k = Some v"
proof -
  obtain n where n: "view st' k = apply_ops (view st) (take n ops) k"
    using commit_prefix assms by blast
  have "\<forall>x \<in> set (take n ops). op_key x = k \<longrightarrow> x = Put k v"
    using assms(4) by (auto dest: in_set_takeD)
  with n assms(3) show ?thesis
    by (simp add: apply_ops_same_put)
qed

end

text \<open>Both contracts give retention: of the live contents, or of what survives a crash.\<close>

sublocale store_contract \<subseteq> live: retention S sinv view False "\<lambda>st k v. view st k = Some v"
proof unfold_locales
  fix st ops d c st' k v
  assume "sinv st" "commit S st ops d = (c, st')" "view st k = Some v"
    "\<forall>x \<in> set ops. op_key x = k \<longrightarrow> x = Put k v"
  then show "view st' k = Some v" by (rule commit_keep_put)
qed (auto dest: get_keeps seek_keeps seek_back_keeps commit_ok)

sublocale durable_store \<subseteq> disk: retention S sinv view True
  "\<lambda>st k v. view st k = Some v \<and> stable st k = Some v"
proof unfold_locales
  fix st ops d c st' k v
  assume a: "sinv st" "commit S st ops d = (c, st')" "view st k = Some v \<and> stable st k = Some v"
    "\<forall>x \<in> set ops. op_key x = k \<longrightarrow> x = Put k v"
  then have "view st' k = Some v" by (auto intro: commit_keep_put)
  with a commit_stable [of st ops d c st' k] show "view st' k = Some v \<and> stable st' k = Some v"
    by auto
next
  fix st ops d st' k v
  assume "sinv st" "commit S st ops d = (Inr (), st')" "True \<longrightarrow> d" "k \<in> op_key ` set ops"
    "apply_ops (view st) ops k = Some v"
  then show "view st' k = Some v \<and> stable st' k = Some v"
    using commit_durable [of st ops st' k] commit_ok [of st ops d st'] by auto
next
  fix st j r st' k v
  assume "sinv st" "get S st j = (r, st')" "view st k = Some v \<and> stable st k = Some v"
  then show "view st' k = Some v \<and> stable st' k = Some v"
    using get_keeps [of st j r st'] get_stable [of st j r st' k] by auto
next
  fix st j r st' k v
  assume "sinv st" "seek S st j = (r, st')" "view st k = Some v \<and> stable st k = Some v"
  then show "view st' k = Some v \<and> stable st' k = Some v"
    using seek_keeps [of st j r st'] seek_stable [of st j r st' k] by auto
next
  fix st j r st' k v
  assume "sinv st" "seek_back S st j = (r, st')" "view st k = Some v \<and> stable st k = Some v"
  then show "view st' k = Some v \<and> stable st' k = Some v"
    using seek_back_keeps [of st j r st'] seek_back_stable [of st j r st' k] by auto
qed auto

end
