(* ===== verification/QueueState.thy ===== *)
theory QueueState imports Store begin

text \<open>
  The in-memory state of a queue and the code that runs under one lock acquisition
  (\<open>src/src/queue.rs\<close>). \<open>Inner\<close>, \<open>GroupState\<close> and \<open>Shared\<close> are the structs; the condition
  variables hold no data and appear only in the thread machine (\<open>Machine\<close>). Each critical
  section is one function, used both by the sequential operations (\<open>Queue\<close>) and by the
  machine: admission and claim of a sequence number, giving a slot back, the reserved check,
  the end of an ack, release, close, and the steps of group commit. A section that overflows
  or underflows gives \<open>None\<close> (\<open>Overflow\<close> for an admission): the thread panics.
\<close>

section \<open>Durability policy\<close>

datatype Durability = Sync | Group | NoSync

fun durability_durable :: "Durability \<Rightarrow> bool" where
  "durability_durable Sync = True"
| "durability_durable Group = True"
| "durability_durable NoSync = False"

fun durability_group :: "Durability \<Rightarrow> bool" where
  "durability_group Group = True"
| "durability_group _ = False"

section \<open>State\<close>

record Inner =
  tail :: u64
  head :: u64
  acked_above :: "u64 set"
  len :: usize
  bytes :: usize
  reserved :: "u64 set"
  closed :: bool

record GroupState =
  pending :: "(u64 \<times> val) list"
  flushing :: bool
  done_map :: "u64 \<rightharpoonup> bool"

record 's Shared =
  store :: 's
  capacity :: usize
  max_bytes :: usize
  durable :: bool
  ack_durable :: bool
  group :: bool
  inner :: Inner
  group_state :: GroupState

definition group_default :: GroupState where
  "group_default = \<lparr>pending = [], flushing = False, done_map = Map.empty\<rparr>"

section \<open>Admission\<close>

definition admits :: "'s Shared \<Rightarrow> usize \<Rightarrow> usize \<Rightarrow> usize \<Rightarrow> bool" where
  "admits sh n b v \<longleftrightarrow> n < capacity sh \<and> (n = 0 \<or> saturating_add b v \<le> max_bytes sh)"

definition claim :: "Inner \<Rightarrow> usize \<Rightarrow> (u64 \<times> Inner) option" where
  "claim i v =
     (case (checked_inc (tail i), checked_add (len i) 1, checked_add (bytes i) v) of
        (Some t, Some l, Some b) \<Rightarrow> Some (tail i, i\<lparr>tail := t, len := l, bytes := b\<rparr>)
      | _ \<Rightarrow> None)"

datatype admission = Rejected | NoRoom | Overflow | Admitted u64 Inner

definition enter :: "'s Shared \<Rightarrow> usize \<Rightarrow> admission" where
  "enter sh v =
     (if closed (inner sh) then Rejected
      else if \<not> admits sh (len (inner sh)) (bytes (inner sh)) v then NoRoom
      else (case claim (inner sh) v of
              None \<Rightarrow> Overflow
            | Some (seq, i) \<Rightarrow> Admitted seq i))"

definition give_back :: "Inner \<Rightarrow> usize \<Rightarrow> Inner option" where
  "give_back i v =
     (case (checked_sub (len i) 1, checked_sub (bytes i) v) of
        (Some l, Some b) \<Rightarrow> Some (i\<lparr>len := l, bytes := b\<rparr>)
      | _ \<Rightarrow> None)"

definition close_inner :: "Inner \<Rightarrow> Inner" where
  "close_inner i = i\<lparr>closed := True\<rparr>"

section \<open>Reserve, release, ack\<close>

definition reserve_check :: "Inner \<Rightarrow> u64 \<Rightarrow> Inner option" where
  "reserve_check i seq =
     (if seq \<in> reserved i then None else Some (i\<lparr>reserved := insert seq (reserved i)\<rparr>))"

definition release_inner :: "Inner \<Rightarrow> u64 \<Rightarrow> Inner" where
  "release_inner i seq = i\<lparr>reserved := reserved i - {seq}\<rparr>"

text \<open>\<open>while inner.acked_above.remove(&next) { next += 1; }\<close>\<close>

function jump :: "u64 \<Rightarrow> u64 set \<Rightarrow> (u64 \<times> u64 set) option" where
  "jump n acked =
     (if n \<in> acked
      then (case checked_inc n of None \<Rightarrow> None | Some m \<Rightarrow> jump m (acked - {n}))
      else Some (n, acked))"
  by pat_completeness auto
termination
  by (relation "measure (\<lambda>(n, acked). card acked)") (auto intro!: diff_less simp: card_gt_0_iff)

declare jump.simps [simp del]

definition ack_finish :: "Inner \<Rightarrow> u64 \<Rightarrow> usize \<Rightarrow> Inner option" where
  "ack_finish i seq v =
     (case (checked_sub (len i) 1, checked_sub (bytes i) v) of
        (Some l, Some b) \<Rightarrow>
          (let i = i\<lparr>reserved := reserved i - {seq}, len := l, bytes := b\<rparr>
           in if seq = head i
              then (case checked_inc (head i) of
                      None \<Rightarrow> None
                    | Some n \<Rightarrow>
                        (case jump n (acked_above i) of
                           None \<Rightarrow> None
                         | Some (h, acked) \<Rightarrow> Some (i\<lparr>head := h, acked_above := acked\<rparr>)))
              else Some (i\<lparr>acked_above := insert seq (acked_above i)\<rparr>))
      | _ \<Rightarrow> None)"

section \<open>Group commit\<close>

definition group_enqueue :: "GroupState \<Rightarrow> u64 \<Rightarrow> val \<Rightarrow> GroupState" where
  "group_enqueue g seq v = g\<lparr>pending := pending g @ [(seq, v)]\<rparr>"

definition group_take :: "GroupState \<Rightarrow> (u64 \<times> val) list \<times> GroupState" where
  "group_take g = (pending g, g\<lparr>pending := []\<rparr>)"

definition batch_ops :: "(u64 \<times> val) list \<Rightarrow> Op list" where
  "batch_ops batch = map (\<lambda>(s, v). Put (entry_key s) v) batch"

definition group_record :: "GroupState \<Rightarrow> (u64 \<times> val) list \<Rightarrow> bool \<Rightarrow> GroupState" where
  "group_record g batch ok =
     g\<lparr>done_map := foldl (\<lambda>m (s, v). m(s \<mapsto> ok)) (done_map g) batch\<rparr>"

definition group_outcome :: "GroupState \<Rightarrow> u64 \<Rightarrow> bool option \<times> GroupState" where
  "group_outcome g seq = (done_map g seq, g\<lparr>done_map := (done_map g)(seq := None)\<rparr>)"

section \<open>What the sections do\<close>

lemma claim_eq_Some [simp]:
  "claim i v = Some (seq, i') \<longleftrightarrow>
     tail i \<noteq> - 1 \<and> len i + 1 \<le> usize_max \<and> bytes i + v \<le> usize_max \<and> seq = tail i \<and>
     i' = i\<lparr>tail := tail i + 1, len := len i + 1, bytes := bytes i + v\<rparr>"
  by (auto simp: claim_def checked_inc_def checked_add_def)

lemma claim_eq_None:
  "claim i v = None \<longleftrightarrow> tail i = - 1 \<or> usize_max < len i + 1 \<or> usize_max < bytes i + v"
  by (auto simp: claim_def checked_inc_def checked_add_def)

lemma enter_eq_Admitted [simp]:
  "enter sh v = Admitted seq i \<longleftrightarrow>
     \<not> closed (inner sh) \<and> admits sh (len (inner sh)) (bytes (inner sh)) v \<and>
     claim (inner sh) v = Some (seq, i)"
  by (auto simp: enter_def simp del: claim_eq_Some split: option.split)

lemma enter_eq_NoRoom [simp]:
  "enter sh v = NoRoom \<longleftrightarrow>
     \<not> closed (inner sh) \<and> \<not> admits sh (len (inner sh)) (bytes (inner sh)) v"
  by (auto simp: enter_def simp del: claim_eq_Some split: option.split)

lemma enter_eq_Rejected [simp]: "enter sh v = Rejected \<longleftrightarrow> closed (inner sh)"
  by (auto simp: enter_def simp del: claim_eq_Some split: option.split)

lemma give_back_eq_Some [simp]:
  "give_back i v = Some i' \<longleftrightarrow>
     1 \<le> len i \<and> v \<le> bytes i \<and> i' = i\<lparr>len := len i - 1, bytes := bytes i - v\<rparr>"
  by (auto simp: give_back_def checked_sub_def)

lemma give_back_eq_None: "give_back i v = None \<longleftrightarrow> len i < 1 \<or> bytes i < v"
  by (auto simp: give_back_def checked_sub_def)

lemma reserve_check_eq_Some [simp]:
  "reserve_check i seq = Some i' \<longleftrightarrow>
     seq \<notin> reserved i \<and> i' = i\<lparr>reserved := insert seq (reserved i)\<rparr>"
  by (auto simp: reserve_check_def)

lemma reserve_check_eq_None [simp]: "reserve_check i seq = None \<longleftrightarrow> seq \<in> reserved i"
  by (simp add: reserve_check_def)

lemma jump_Some:
  "jump n acked = Some (h, rest) \<Longrightarrow>
     n \<le> h \<and> {n..<h} \<subseteq> acked \<and> h \<notin> acked \<and> rest = acked - {n..<h}"
proof (induction n acked rule: jump.induct)
  case (1 n acked)
  show ?case
  proof (cases "n \<in> acked")
    case True
    with "1.prems" have nm: "n \<noteq> - 1" and j: "jump (n + 1) (acked - {n}) = Some (h, rest)"
      by (auto simp: jump.simps [of n acked] split: option.splits)
    from "1.IH" [OF True _ j] nm
    have IH: "n + 1 \<le> h" "{n + 1..<h} \<subseteq> acked - {n}" "h \<notin> acked - {n}"
      "rest = acked - {n} - {n + 1..<h}"
      by auto
    have "n < h" using IH(1) nm by (simp add: word_facts)
    have "{n..<h} = insert n {n + 1..<h}"
      using \<open>n < h\<close> nm by (auto simp: word_facts)
    with IH True \<open>n < h\<close> show ?thesis by auto
  next
    case False
    with "1.prems" show ?thesis by (simp add: jump.simps [of n acked])
  qed
qed

text \<open>The jump stays below any bound that the acknowledged numbers stay below.\<close>

lemma jump_total:
  "n \<le> t \<Longrightarrow> acked \<subseteq> {..<t} \<Longrightarrow> \<exists>h rest. jump n acked = Some (h, rest) \<and> h \<le> t"
proof (induction n acked rule: jump.induct)
  case (1 n acked)
  show ?case
  proof (cases "n \<in> acked")
    case True
    with "1.prems" have "n < t" by auto
    then have nm: "n \<noteq> - 1" and "n + 1 \<le> t" by (auto simp: word_facts)
    with "1.IH" [OF True] "1.prems" True show ?thesis
      by (auto simp: jump.simps [of n acked] checked_inc_def)
  next
    case False
    with "1.prems" show ?thesis by (simp add: jump.simps [of n acked])
  qed
qed

lemma ack_finish_eq_Some:
  "ack_finish i seq v = Some i' \<longleftrightarrow>
     1 \<le> len i \<and> v \<le> bytes i \<and>
     (let j = i\<lparr>reserved := reserved i - {seq}, len := len i - 1, bytes := bytes i - v\<rparr>
      in if seq = head i
         then head i \<noteq> - 1 \<and> (\<exists>h acked. jump (head i + 1) (acked_above i) = Some (h, acked) \<and>
           i' = j\<lparr>head := h, acked_above := acked\<rparr>)
         else i' = j\<lparr>acked_above := insert seq (acked_above i)\<rparr>)"
  by (auto simp: ack_finish_def checked_sub_def checked_inc_def Let_def split: option.splits)

lemma ack_finish_fields:
  assumes "ack_finish i seq v = Some i'"
  shows "tail i' = tail i" "len i = len i' + 1" "bytes i = bytes i' + v" "closed i' = closed i"
    "reserved i' = reserved i - {seq}" "head i \<le> head i'"
    "{..<head i'} \<union> acked_above i' = insert seq ({..<head i} \<union> acked_above i)"
proof -
  show "tail i' = tail i" "len i = len i' + 1" "bytes i = bytes i' + v" "closed i' = closed i"
    "reserved i' = reserved i - {seq}"
    using assms by (auto simp: ack_finish_eq_Some Let_def split: if_splits)
  have "head i \<le> head i' \<and>
    {..<head i'} \<union> acked_above i' = insert seq ({..<head i} \<union> acked_above i)"
  proof (cases "seq = head i")
    case True
    with assms obtain h acked where nm: "head i \<noteq> - 1" and
      j: "jump (head i + 1) (acked_above i) = Some (h, acked)" and
      i': "head i' = h" "acked_above i' = acked"
      by (auto simp: ack_finish_eq_Some Let_def)
    note jump = jump_Some [OF j]
    have "head i < h" using jump nm by (simp add: word_facts)
    moreover have "{..<h} = insert (head i) ({..<head i} \<union> {head i + 1..<h})"
      using \<open>head i < h\<close> nm by (auto simp: word_facts)
    ultimately show ?thesis
      using jump True by (auto simp: i')
  next
    case False
    with assms show ?thesis
      by (auto simp: ack_finish_eq_Some Let_def)
  qed
  then show "head i \<le> head i'"
    "{..<head i'} \<union> acked_above i' = insert seq ({..<head i} \<union> acked_above i)"
    by auto
qed

text \<open>An ack of a number below \<open>tail\<close> never panics when the counters cover it.\<close>

lemma ack_finish_total:
  assumes "1 \<le> len i" "v \<le> bytes i" "seq < tail i" "acked_above i \<subseteq> {..<tail i}" "head i \<le> tail i"
  obtains i' where "ack_finish i seq v = Some i'"
    "head i' \<le> tail i'" "acked_above i' \<subseteq> {..<tail i'}"
proof -
  have "\<exists>i'. ack_finish i seq v = Some i' \<and> head i' \<le> tail i"
  proof (cases "seq = head i")
    case True
    with assms have nm: "head i \<noteq> - 1" and "head i + 1 \<le> tail i"
      by (auto simp: word_facts)
    with jump_total [of "head i + 1" "tail i" "acked_above i"] assms True show ?thesis
      by (auto simp: ack_finish_def checked_sub_def checked_inc_def Let_def)
  next
    case False
    with assms show ?thesis
      by (auto simp: ack_finish_def checked_sub_def Let_def)
  qed
  then obtain i' where i': "ack_finish i seq v = Some i'" "head i' \<le> tail i" by blast
  note f = ack_finish_fields [OF i'(1)]
  have "acked_above i' \<subseteq> insert seq ({..<head i} \<union> acked_above i)"
    using f(7) by blast
  then have "acked_above i' \<subseteq> {..<tail i'}"
    using assms f(1) by auto
  moreover have "head i' \<le> tail i'" using i'(2) f(1) by simp
  ultimately show thesis using i'(1) that by blast
qed

section \<open>Group commit: what is recorded\<close>

lemma group_record_done:
  "done_map (group_record g batch ok) s =
     (if s \<in> fst ` set batch then Some ok else done_map g s)"
proof -
  have "foldl (\<lambda>m (s, v). m(s \<mapsto> ok)) m batch s = (if s \<in> fst ` set batch then Some ok else m s)" for m
    by (induction batch arbitrary: m) (auto split: prod.splits)
  then show ?thesis by (simp add: group_record_def)
qed

lemma group_take_eq: "group_take g = (b, g') \<longleftrightarrow> b = pending g \<and> g' = g\<lparr>pending := []\<rparr>"
  by (auto simp: group_take_def)

lemma group_outcome_eq:
  "group_outcome g q = (r, g') \<longleftrightarrow> r = done_map g q \<and> g' = g\<lparr>done_map := (done_map g)(q := None)\<rparr>"
  by (auto simp: group_outcome_def)

lemma group_record_sel [simp]:
  "pending (group_record g batch ok) = pending g" "flushing (group_record g batch ok) = flushing g"
  by (simp_all add: group_record_def)

lemma op_key_batch: "op_key ` set (batch_ops batch) = entry_key ` fst ` set batch"
  by (force simp: batch_ops_def)

lemma in_batch_ops [simp]: "Put k v \<in> set (batch_ops batch) \<longleftrightarrow> (\<exists>s. k = entry_key s \<and> (s, v) \<in> set batch)"
  by (force simp: batch_ops_def)

lemma delete_not_in_batch [simp]: "Delete k \<notin> set (batch_ops batch)"
  by (auto simp: batch_ops_def)

end
