(* ===== verification/Errors.thy ===== *)
theory Errors imports Prelude begin

text \<open>
  The error types (\<open>src/src/error.rs\<close>): what opening, pushing and trying to push can fail with,
  their messages (\<open>Display\<close>) and their underlying cause (\<open>Error::source\<close>). The backend's error
  type is a parameter, and so is how it prints. A number prints in decimal.
\<close>

datatype 'e OpenError = Open_Store 'e | UnsupportedVersion byte
datatype 'e PushError = Push_Closed | Push_Store 'e
datatype 'e TryPushError = Try_Full | Try_Closed | Try_Store 'e

fun decimal :: "nat \<Rightarrow> string" where
  "decimal n =
     (if n < 10 then [char_of (48 + n)] else decimal (n div 10) @ [char_of (48 + n mod 10)])"

declare decimal.simps [simp del]

fun open_error_display :: "('e \<Rightarrow> string) \<Rightarrow> 'e OpenError \<Rightarrow> string" where
  "open_error_display disp (Open_Store e) = ''store error: '' @ disp e"
| "open_error_display disp (UnsupportedVersion v) =
     ''unsupported on-disk format version: '' @ decimal (unat v)"

fun push_error_display :: "('e \<Rightarrow> string) \<Rightarrow> 'e PushError \<Rightarrow> string" where
  "push_error_display disp Push_Closed = ''queue is closed''"
| "push_error_display disp (Push_Store e) = ''store error: '' @ disp e"

fun try_push_error_display :: "('e \<Rightarrow> string) \<Rightarrow> 'e TryPushError \<Rightarrow> string" where
  "try_push_error_display disp Try_Full = ''queue is full''"
| "try_push_error_display disp Try_Closed = ''queue is closed''"
| "try_push_error_display disp (Try_Store e) = ''store error: '' @ disp e"

fun open_error_source :: "'e OpenError \<Rightarrow> 'e option" where
  "open_error_source (Open_Store e) = Some e"
| "open_error_source (UnsupportedVersion v) = None"

fun push_error_source :: "'e PushError \<Rightarrow> 'e option" where
  "push_error_source (Push_Store e) = Some e"
| "push_error_source Push_Closed = None"

fun try_push_error_source :: "'e TryPushError \<Rightarrow> 'e option" where
  "try_push_error_source (Try_Store e) = Some e"
| "try_push_error_source _ = None"

end
