(* ===== verification/Queue.thy ===== *)
theory Queue imports QueueState Errors begin

text \<open>
  The producer and consumer operations of \<open>src/src/queue.rs\<close> as a single thread runs them:
  \<open>push\<close>, \<open>try_push\<close>, \<open>close\<close>, \<open>len\<close>, \<open>reserve\<close> and the \<open>Reserved\<close> guard's \<open>ack\<close>,
  \<open>nack\<close> and drop. The result is \<open>None\<close> where the thread would wait for another one (a full
  queue in \<open>push\<close>, another leader in group commit) or a loop would not end, and otherwise the
  new shared state and the outcome. \<open>Machine\<close> interleaves the same sections of many threads.
\<close>

section \<open>Committing an entry\<close>

definition commit_to :: "('s, 'e) Store \<Rightarrow> 's Shared \<Rightarrow> Op list \<Rightarrow> bool \<Rightarrow> ('e + unit) \<times> 's Shared" where
  "commit_to S sh ops d = (case commit S (store sh) ops d of (r, st) \<Rightarrow> (r, sh\<lparr>store := st\<rparr>))"

text \<open>The leader's loop: take the pending batch, commit it, record its outcome, until none is left.\<close>

partial_function (option) group_lead :: "('s, 'e) Store \<Rightarrow> 's Shared \<Rightarrow> 's Shared option" where
  "group_lead S sh =
     (let (batch, g) = group_take (group_state sh) in
      if batch = [] then Some (sh\<lparr>group_state := g\<lparr>flushing := False\<rparr>\<rparr>)
      else
        (let (r, sh1) = commit_to S (sh\<lparr>group_state := g\<rparr>) (batch_ops batch) True;
             g1 = group_record (group_state sh1) batch (r = Inr ())
         in if pending g1 = [] then Some (sh1\<lparr>group_state := g1\<lparr>flushing := False\<rparr>\<rparr>)
            else group_lead S (sh1\<lparr>group_state := g1\<rparr>)))"

definition group_commit ::
  "('s, 'e) Store \<Rightarrow> 's Shared \<Rightarrow> u64 \<Rightarrow> val \<Rightarrow> (('e + unit) \<times> 's Shared) option" where
  "group_commit S sh seq v =
     (let g = group_enqueue (group_state sh) seq v in
      if flushing g then None
      else
        (case group_lead S (sh\<lparr>group_state := g\<lparr>flushing := True\<rparr>\<rparr>) of
           None \<Rightarrow> None
         | Some sh1 \<Rightarrow>
             (let (outcome, g1) = group_outcome (group_state sh1) seq;
                  sh2 = sh1\<lparr>group_state := g1\<rparr>
              in Some (if outcome = Some True then (Inr (), sh2)
                       else commit_to S sh2 [Put (entry_key seq) v] True))))"

definition write_entry ::
  "('s, 'e) Store \<Rightarrow> 's Shared \<Rightarrow> u64 \<Rightarrow> val \<Rightarrow> (('e, unit) outcome \<times> 's Shared) option" where
  "write_entry S sh seq v =
     map_option (\<lambda>(r, sh1). (case r of
         Inr _ \<Rightarrow> (Ok (), sh1)
       | Inl e \<Rightarrow> (case give_back (inner sh1) (length v) of
                    None \<Rightarrow> (Panic, sh1)
                  | Some i \<Rightarrow> (Err e, sh1\<lparr>inner := i\<rparr>))))
       (if group sh then group_commit S sh seq v
        else Some (commit_to S sh [Put (entry_key seq) v] (durable sh)))"

section \<open>Producer\<close>

definition push ::
  "('s, 'e) Store \<Rightarrow> 's Shared \<Rightarrow> val \<Rightarrow> (('e PushError, unit) outcome \<times> 's Shared) option" where
  "push S sh v =
     (case enter sh (length v) of
        Rejected \<Rightarrow> Some (Err Push_Closed, sh)
      | NoRoom \<Rightarrow> None
      | Overflow \<Rightarrow> Some (Panic, sh)
      | Admitted seq i \<Rightarrow>
          map_option (\<lambda>(r, sh1). (map_err Push_Store r, sh1)) (write_entry S (sh\<lparr>inner := i\<rparr>) seq v))"

definition try_push ::
  "('s, 'e) Store \<Rightarrow> 's Shared \<Rightarrow> val \<Rightarrow> (('e TryPushError, unit) outcome \<times> 's Shared) option" where
  "try_push S sh v =
     (case enter sh (length v) of
        Rejected \<Rightarrow> Some (Err Try_Closed, sh)
      | NoRoom \<Rightarrow> Some (Err Try_Full, sh)
      | Overflow \<Rightarrow> Some (Panic, sh)
      | Admitted seq i \<Rightarrow>
          map_option (\<lambda>(r, sh1). (map_err Try_Store r, sh1)) (write_entry S (sh\<lparr>inner := i\<rparr>) seq v))"

definition close :: "'s Shared \<Rightarrow> 's Shared" where
  "close sh = sh\<lparr>inner := close_inner (inner sh)\<rparr>"

definition queue_len :: "'s Shared \<Rightarrow> usize" where
  "queue_len sh = len (inner sh)"

definition is_empty :: "'s Shared \<Rightarrow> bool" where
  "is_empty sh \<longleftrightarrow> queue_len sh = 0"

section \<open>Consumer\<close>

record Reserved =
  res_seq :: u64
  res_value :: val
  res_done :: bool

partial_function (option) reserve_loop ::
  "('s, 'e) Store \<Rightarrow> 's Shared \<Rightarrow> key \<Rightarrow> (('e, Reserved option) outcome \<times> 's Shared) option" where
  "reserve_loop S sh cursor =
     (case seek S (store sh) cursor of (r, st) \<Rightarrow>
        (case r of
           Inl e \<Rightarrow> Some (Err e, sh\<lparr>store := st\<rparr>)
         | Inr None \<Rightarrow> Some (Ok None, sh\<lparr>store := st\<rparr>)
         | Inr (Some (key, value)) \<Rightarrow>
             if is_entry key then
               (case seq_of key of
                  None \<Rightarrow> Some (Panic, sh\<lparr>store := st\<rparr>)
                | Some seq \<Rightarrow>
                    (case reserve_check (inner sh) seq of
                       Some i \<Rightarrow> Some (Ok (Some \<lparr>res_seq = seq, res_value = value, res_done = False\<rparr>),
                                       sh\<lparr>store := st, inner := i\<rparr>)
                     | None \<Rightarrow>
                         (case checked_inc seq of
                            None \<Rightarrow> Some (Panic, sh\<lparr>store := st\<rparr>)
                          | Some next \<Rightarrow> reserve_loop S (sh\<lparr>store := st\<rparr>) (entry_key next))))
             else Some (Ok None, sh\<lparr>store := st\<rparr>)))"

definition reserve ::
  "('s, 'e) Store \<Rightarrow> 's Shared \<Rightarrow> (('e, Reserved option) outcome \<times> 's Shared) option" where
  "reserve S sh = reserve_loop S sh (entry_key (head (inner sh)))"

definition is_drained :: "'s Shared \<Rightarrow> bool" where
  "is_drained sh \<longleftrightarrow> closed (inner sh) \<and> len (inner sh) = 0"

section \<open>The reserved guard\<close>

definition release :: "'s Shared \<Rightarrow> Reserved \<Rightarrow> 's Shared" where
  "release sh r = sh\<lparr>inner := release_inner (inner sh) (res_seq r)\<rparr>"

definition drop_reserved :: "'s Shared \<Rightarrow> Reserved \<Rightarrow> 's Shared" where
  "drop_reserved sh r = (if res_done r then sh else release sh r)"

definition reserved_seq :: "Reserved \<Rightarrow> u64" where
  "reserved_seq r = res_seq r"

definition reserved_deref :: "Reserved \<Rightarrow> val" where
  "reserved_deref r = res_value r"

declare reserved_seq_def [simp] reserved_deref_def [simp]

text \<open>
  \<open>ack\<close> consumes the guard: an error returns before \<open>done\<close> is set, so the drop at the end of
  the function releases the item.
\<close>

definition ack :: "('s, 'e) Store \<Rightarrow> 's Shared \<Rightarrow> Reserved \<Rightarrow> ('e, unit) outcome \<times> 's Shared" where
  "ack S sh r =
     (case commit_to S sh [Delete (entry_key (res_seq r))] (ack_durable sh) of
        (Inl e, sh1) \<Rightarrow> (Err e, drop_reserved sh1 r)
      | (Inr _, sh1) \<Rightarrow>
          (case ack_finish (inner sh1) (res_seq r) (length (res_value r)) of
             None \<Rightarrow> (Panic, sh1)
           | Some i \<Rightarrow> (Ok (), drop_reserved (sh1\<lparr>inner := i\<rparr>) (r\<lparr>res_done := True\<rparr>))))"

definition nack :: "'s Shared \<Rightarrow> Reserved \<Rightarrow> 's Shared" where
  "nack sh r = drop_reserved (release sh r) (r\<lparr>res_done := True\<rparr>)"

end
