(* ===== verification/Entries.thy ===== *)
theory Entries imports Store begin

text \<open>
  What a store's contents mean to the queue: \<open>items_of\<close> reads the map of sequence numbers to
  items out of the key/value map, and the seek results of the contract are restated over it.
  \<open>weight w\<close> weighs a map of items; with weight one it is the item count, with \<open>length\<close> the byte
  count.
\<close>

definition items_of :: "(key \<rightharpoonup> val) \<Rightarrow> u64 \<rightharpoonup> val" where
  "items_of m seq = m (entry_key seq)"

definition only_queue_keys :: "(key \<rightharpoonup> val) \<Rightarrow> bool" where
  "only_queue_keys m \<longleftrightarrow> (\<forall>k \<in> dom m. k = META_KEY \<or> is_entry k)"

definition weight :: "(val \<Rightarrow> nat) \<Rightarrow> (u64 \<rightharpoonup> val) \<Rightarrow> nat" where
  "weight w m = (\<Sum>q \<in> dom m. w (the (m q)))"

section \<open>Items under store updates\<close>

lemma entry_key_in_dom: "q \<in> dom (items_of m) \<Longrightarrow> entry_key q \<in> dom m"
  by (auto simp: items_of_def)

lemma items_of_empty [simp]: "items_of Map.empty = Map.empty"
  by (simp add: items_of_def fun_eq_iff)

lemma items_of_upd [simp]: "items_of (m(entry_key q := x)) = (items_of m)(q := x)"
  by (auto simp: items_of_def fun_eq_iff)

lemma items_of_upd_meta [simp]: "items_of (m(META_KEY := x)) = items_of m"
  by (auto simp: items_of_def fun_eq_iff)

lemma only_queue_keys_upd [simp]:
  "only_queue_keys m \<Longrightarrow> only_queue_keys (m(entry_key q := x))"
  "only_queue_keys m \<Longrightarrow> only_queue_keys (m(META_KEY := x))"
  by (auto simp: only_queue_keys_def split: if_splits)

lemma only_queue_keys_empty [simp]: "only_queue_keys Map.empty"
  by (simp add: only_queue_keys_def)

lemma only_queue_keysD:
  assumes "only_queue_keys m" and "m k = Some v" and "META_KEY < k"
  shows "is_entry k"
proof -
  have "k \<in> dom m" using assms(2) by blast
  with assms(1) have "k = META_KEY \<or> is_entry k" unfolding only_queue_keys_def by (rule bspec)
  then show ?thesis using assms(3) by auto
qed

section \<open>Weights\<close>

lemma weight_empty [simp]: "weight w Map.empty = 0"
  by (simp add: weight_def)

lemma weight_fresh: "q \<notin> dom m \<Longrightarrow> weight w (m(q \<mapsto> v)) = w v + weight w m"
proof -
  assume "q \<notin> dom m"
  then have "(\<Sum>x \<in> dom m. w (the ((m(q \<mapsto> v)) x))) = weight w m"
    unfolding weight_def by (intro sum.cong) auto
  with \<open>q \<notin> dom m\<close> show ?thesis
    by (simp add: weight_def)
qed

lemma weight_remove: "m q = Some v \<Longrightarrow> weight w m = w v + weight w (m(q := None))"
proof -
  assume q: "m q = Some v"
  then have "(m(q := None))(q \<mapsto> v) = m"
    by (auto simp: fun_eq_iff)
  with weight_fresh [of q "m(q := None)" w v] show ?thesis by simp
qed

lemma card_dom_remove:
  fixes m :: "u64 \<rightharpoonup> val"
  assumes "m q = Some v"
  shows "card (dom m) = Suc (card (dom (m(q := None))))"
proof -
  have "q \<in> dom m" using assms by auto
  from card.remove [OF finite_words this] show ?thesis by simp
qed

lemma weight_one: "weight (\<lambda>_. 1) m = card (dom m)"
  by (simp add: weight_def)

section \<open>Seeking entries\<close>

definition entry_from :: "(u64 \<rightharpoonup> val) \<Rightarrow> key \<Rightarrow> (u64 \<times> val) option \<Rightarrow> bool" where
  "entry_from m cursor r = (case r of
     None \<Rightarrow> \<forall>q \<in> dom m. entry_key q < cursor
   | Some (q, v) \<Rightarrow> m q = Some v \<and> cursor \<le> entry_key q \<and>
       (\<forall>q' \<in> dom m. cursor \<le> entry_key q' \<longrightarrow> q \<le> q'))"

text \<open>From any cursor above the meta record, a seek finds an entry or nothing.\<close>

lemma least_from_entry:
  assumes "least_from m cursor r" and "only_queue_keys m" and "META_KEY < cursor"
  obtains "r = None" and "entry_from (items_of m) cursor None"
  | q v where "r = Some (entry_key q, v)" and "entry_from (items_of m) cursor (Some (q, v))"
proof (cases r)
  case None
  have "entry_key q < cursor" if "q \<in> dom (items_of m)" for q
    using assms(1) that by (force simp: least_from_def None items_of_def)
  then show thesis
    using that(1) None by (simp add: entry_from_def)
next
  case (Some kv)
  obtain k v where kv: "kv = (k, v)" by (cases kv)
  have k: "m k = Some v" "cursor \<le> k" and least: "\<And>k'. k' \<in> dom m \<Longrightarrow> cursor \<le> k' \<Longrightarrow> k \<le> k'"
    using assms(1) by (auto simp: least_from_def Some kv)
  have "META_KEY < k" using k(2) assms(3) by simp
  then have "is_entry k" using assms(2) k(1) by (rule only_queue_keysD [rotated 2])
  then obtain q where q: "k = entry_key q" by (auto elim: is_entry_cases)
  have "q \<le> q'" if "q' \<in> dom (items_of m)" "cursor \<le> entry_key q'" for q'
    using least [OF entry_key_in_dom [OF that(1)] that(2)] by (simp add: q)
  then show thesis
    using that(2) [of q v] k by (auto simp: Some kv q entry_from_def items_of_def)
qed

lemma meta_below_entry [simp]: "META_KEY < entry_key q"
  using meta_below_low entry_low_below by (rule order.strict_trans)

text \<open>The meta record is below every entry.\<close>

lemma meta_order:
  "META_KEY < entry_key q" "META_KEY \<le> entry_key q" "\<not> entry_key q < META_KEY" "\<not> entry_key q \<le> META_KEY"
  "\<not> ENTRY_LOW \<le> META_KEY" "META_KEY < ENTRY_HIGH" "META_KEY \<le> ENTRY_HIGH" "\<not> ENTRY_HIGH < META_KEY"
  "\<not> ENTRY_LOW < META_KEY" "ENTRY_LOW \<le> entry_key q" "\<not> entry_key q < ENTRY_LOW" "\<not> ENTRY_HIGH < entry_key q"
proof -
  show m: "META_KEY < entry_key q" by (rule less_trans [OF meta_below_low entry_low_below])
  then show h: "META_KEY < ENTRY_HIGH" using entry_below_high [of q] by (rule less_le_trans)
  from m h meta_below_low entry_low_below [of q] entry_below_high [of q]
  show "META_KEY \<le> entry_key q" "\<not> entry_key q < META_KEY" "\<not> entry_key q \<le> META_KEY"
    "\<not> ENTRY_LOW \<le> META_KEY" "META_KEY \<le> ENTRY_HIGH" "\<not> ENTRY_HIGH < META_KEY"
    "\<not> ENTRY_LOW < META_KEY" "ENTRY_LOW \<le> entry_key q" "\<not> entry_key q < ENTRY_LOW" "\<not> ENTRY_HIGH < entry_key q"
    by (auto simp: not_le not_less intro: less_imp_le)
qed

lemma greatest_upto_entry:
  assumes "greatest_upto m ENTRY_HIGH r" and "only_queue_keys m"
  obtains q v where "r = Some (entry_key q, v)" and "items_of m q = Some v"
      and "\<forall>q' \<in> dom (items_of m). q' \<le> q"
  | "dom (items_of m) = {}" and "\<forall>k v. r = Some (k, v) \<longrightarrow> \<not> is_entry k"
proof (cases "\<exists>k v. r = Some (k, v) \<and> is_entry k")
  case True
  then obtain q v where r: "r = Some (entry_key q, v)" by (auto elim: is_entry_cases)
  have "items_of m q = Some v"
    using assms(1) by (simp add: greatest_upto_def r items_of_def)
  moreover have "q' \<le> q" if "q' \<in> dom (items_of m)" for q'
  proof -
    have "\<forall>k' \<in> dom m. k' \<le> ENTRY_HIGH \<longrightarrow> k' \<le> entry_key q"
      using assms(1) by (simp add: greatest_upto_def r)
    then have "entry_key q' \<le> entry_key q"
      using entry_key_in_dom [OF that] entry_below_high by blast
    then show ?thesis by simp
  qed
  ultimately show thesis using that(1) r by blast
next
  case False
  have "items_of m q = None" for q
  proof (rule ccontr)
    assume "items_of m q \<noteq> None"
    then have dom: "entry_key q \<in> dom m" by (auto simp: items_of_def)
    have "r \<noteq> None"
    proof
      assume "r = None"
      then have "ENTRY_HIGH < entry_key q"
        using assms(1) dom by (simp add: greatest_upto_def)
      then show False using entry_below_high [of q] by (meson leD)
    qed
    then obtain k v where r: "r = Some (k, v)" by (cases r) auto
    then have k: "m k = Some v" "entry_key q \<le> k"
      using assms(1) dom entry_below_high [of q] by (auto simp: greatest_upto_def)
    have "META_KEY < k" by (rule less_le_trans [OF meta_below_entry k(2)])
    then have "is_entry k" using assms(2) k(1) by (rule only_queue_keysD [rotated 2])
    with False r show False by blast
  qed
  then show thesis using that(2) False by (auto simp: dom_def)
qed

text \<open>The items at or after a cursor, and what is left when the first of them is passed.\<close>

definition items_from :: "(u64 \<rightharpoonup> val) \<Rightarrow> key \<Rightarrow> u64 \<rightharpoonup> val" where
  "items_from m cursor q = (if cursor \<le> entry_key q then m q else None)"

lemma items_from_None: "entry_from m cursor None \<Longrightarrow> items_from m cursor = Map.empty"
  by (force simp: entry_from_def items_from_def fun_eq_iff)

lemma items_from_next:
  assumes "entry_from m cursor (Some (q, v))" and "q \<noteq> - 1"
  shows "items_from m (entry_key (q + 1)) = (items_from m cursor)(q := None)"
    and "items_from m cursor q = Some v"
proof -
  have "items_from m (entry_key (q + 1)) x = ((items_from m cursor)(q := None)) x" for x
  proof (cases "m x")
    case None
    then show ?thesis by (auto simp: items_from_def)
  next
    case (Some u)
    have "q < x \<longleftrightarrow> cursor \<le> entry_key x \<and> x \<noteq> q"
    proof
      assume "q < x"
      then have "entry_key q \<le> entry_key x" by simp
      with assms(1) \<open>q < x\<close> show "cursor \<le> entry_key x \<and> x \<noteq> q"
        by (auto simp: entry_from_def intro: order.trans)
    next
      assume "cursor \<le> entry_key x \<and> x \<noteq> q"
      with assms(1) Some show "q < x" by (auto simp: entry_from_def intro: order.not_eq_order_implies_strict)
    qed
    then show ?thesis
      using assms(2) by (auto simp: items_from_def word_facts)
  qed
  then show "items_from m (entry_key (q + 1)) = (items_from m cursor)(q := None)" by blast
  show "items_from m cursor q = Some v"
    using assms(1) by (auto simp: entry_from_def items_from_def)
qed

lemma dom_items_from: "dom (items_from m cursor) = {q \<in> dom m. cursor \<le> entry_key q}"
  by (auto simp: items_from_def split: if_splits)

lemma items_from_low [simp]: "items_from m ENTRY_LOW = m"
  by (auto simp: items_from_def fun_eq_iff less_imp_le)

lemma entry_from_Min:
  assumes "entry_from m cursor (Some (q, v))"
  shows "Min (dom (items_from m cursor)) = q"
  using assms by (intro Min_eqI) (auto simp: entry_from_def dom_items_from)

end
