(* ===== verification/Recovery.thy ===== *)
theory Recovery imports Queue Entries begin

text \<open>
  \<open>Builder\<close> and \<open>Builder::open\<close> (\<open>src/src/queue.rs\<close>, lines 146--275): the version check, the
  tail from the greatest entry key, and the scan that finds the head and counts items and bytes.
\<close>

record 's Builder =
  b_store :: 's
  b_capacity :: usize
  b_max_bytes :: usize
  b_durability :: Durability
  b_durable_acks :: bool

definition builder_new :: "'s \<Rightarrow> 's Builder" where
  "builder_new st = \<lparr>b_store = st, b_capacity = 1024, b_max_bytes = usize_max,
     b_durability = Sync, b_durable_acks = True\<rparr>"

text \<open>The two setters with an \<open>assert!\<close> panic on zero.\<close>

definition builder_capacity :: "usize \<Rightarrow> 's Builder \<Rightarrow> 's Builder option" where
  "builder_capacity n b = (if 0 < n then Some (b\<lparr>b_capacity := n\<rparr>) else None)"

definition builder_max_bytes :: "usize \<Rightarrow> 's Builder \<Rightarrow> 's Builder option" where
  "builder_max_bytes n b = (if 0 < n then Some (b\<lparr>b_max_bytes := n\<rparr>) else None)"

definition builder_durability :: "Durability \<Rightarrow> 's Builder \<Rightarrow> 's Builder" where
  "builder_durability d b = b\<lparr>b_durability := d\<rparr>"

definition builder_durable_acks :: "bool \<Rightarrow> 's Builder \<Rightarrow> 's Builder" where
  "builder_durable_acks d b = b\<lparr>b_durable_acks := d\<rparr>"

section \<open>Opening\<close>

text \<open>The meta record: absent is written, another version is refused.\<close>

definition check_meta ::
  "('s, 'e) Store \<Rightarrow> 's \<Rightarrow> bool \<Rightarrow> ('e OpenError, unit) outcome \<times> 's" where
  "check_meta S st d =
     (case get S st META_KEY of
        (Inl e, st) \<Rightarrow> (Err (Open_Store e), st)
      | (Inr (Some meta), st) \<Rightarrow>
          (let version = (case meta of [] \<Rightarrow> 0 | b # _ \<Rightarrow> b)
           in if version \<noteq> FORMAT_VERSION then (Err (UnsupportedVersion version), st)
              else (Ok (), st))
      | (Inr None, st) \<Rightarrow>
          (case commit S st [Put META_KEY [FORMAT_VERSION]] d of
             (Inl e, st) \<Rightarrow> (Err (Open_Store e), st)
           | (Inr _, st) \<Rightarrow> (Ok (), st)))"

definition find_tail :: "('s, 'e) Store \<Rightarrow> 's \<Rightarrow> ('e OpenError, u64) outcome \<times> 's" where
  "find_tail S st =
     (case seek_back S st ENTRY_HIGH of
        (Inl e, st) \<Rightarrow> (Err (Open_Store e), st)
      | (Inr (Some (key, _)), st) \<Rightarrow>
          (if is_entry key
           then (case seq_of key of
                   None \<Rightarrow> (Panic, st)
                 | Some seq \<Rightarrow> (case checked_inc seq of None \<Rightarrow> (Panic, st) | Some n \<Rightarrow> (Ok n, st)))
           else (Ok 0, st))
      | (Inr None, st) \<Rightarrow> (Ok 0, st))"

record Recovered =
  rec_head :: u64
  rec_len :: usize
  rec_bytes :: usize

partial_function (option) recover_scan ::
  "('s, 'e) Store \<Rightarrow> 's \<Rightarrow> key \<Rightarrow> Recovered \<Rightarrow> (('e OpenError, Recovered) outcome \<times> 's) option" where
  "recover_scan S st cursor r =
     (case seek S st cursor of (q, st) \<Rightarrow>
        (case q of
           Inl e \<Rightarrow> Some (Err (Open_Store e), st)
         | Inr None \<Rightarrow> Some (Ok r, st)
         | Inr (Some (key, value)) \<Rightarrow>
             if \<not> is_entry key then Some (Ok r, st)
             else
               (case seq_of key of
                  None \<Rightarrow> Some (Panic, st)
                | Some seq \<Rightarrow>
                    (case (checked_add (rec_len r) 1, checked_add (rec_bytes r) (length value),
                           checked_inc seq) of
                       (Some l, Some b, Some next) \<Rightarrow>
                         recover_scan S st (entry_key next)
                           \<lparr>rec_head = (if rec_len r = 0 then seq else rec_head r),
                            rec_len = l, rec_bytes = b\<rparr>
                     | _ \<Rightarrow> Some (Panic, st)))))"

definition new_shared :: "'s Builder \<Rightarrow> 's \<Rightarrow> u64 \<Rightarrow> Recovered \<Rightarrow> 's Shared" where
  "new_shared b st t r =
     (let d = durability_durable (b_durability b)
      in \<lparr>store = st, capacity = b_capacity b, max_bytes = b_max_bytes b, durable = d,
          ack_durable = (d \<and> b_durable_acks b), group = durability_group (b_durability b),
          inner = \<lparr>tail = t, head = rec_head r, acked_above = {}, len = rec_len r,
                   bytes = rec_bytes r, reserved = {}, closed = False\<rparr>,
          group_state = group_default\<rparr>)"

lemma store_new_shared [simp]: "store (new_shared b st t r) = st"
  by (simp add: new_shared_def Let_def)

text \<open>The store comes back as well: it outlives a failed open.\<close>

definition open_queue ::
  "('s, 'e) Store \<Rightarrow> 's Builder \<Rightarrow> (('e OpenError, 's Shared) outcome \<times> 's) option" where
  "open_queue S b =
     (case check_meta S (b_store b) (durability_durable (b_durability b)) of
        (Err e, st) \<Rightarrow> Some (Err e, st)
      | (Panic, st) \<Rightarrow> Some (Panic, st)
      | (Ok _, st) \<Rightarrow>
          (case find_tail S st of
             (Err e, st) \<Rightarrow> Some (Err e, st)
           | (Panic, st) \<Rightarrow> Some (Panic, st)
           | (Ok t, st) \<Rightarrow>
               map_option (\<lambda>(r, st). (case r of
                   Err e \<Rightarrow> (Err e, st)
                 | Panic \<Rightarrow> (Panic, st)
                 | Ok r \<Rightarrow> (Ok (new_shared b st t r), st)))
                 (recover_scan S st ENTRY_LOW \<lparr>rec_head = t, rec_len = 0, rec_bytes = 0\<rparr>)))"

section \<open>What recovery computes\<close>

definition tail_of :: "(u64 \<rightharpoonup> val) \<Rightarrow> u64" where
  "tail_of m = (if m = Map.empty then 0 else Max (dom m) + 1)"

definition head_of :: "(u64 \<rightharpoonup> val) \<Rightarrow> u64" where
  "head_of m = (if m = Map.empty then 0 else Min (dom m))"

definition scan_result :: "(u64 \<rightharpoonup> val) \<Rightarrow> Recovered \<Rightarrow> Recovered" where
  "scan_result m r = \<lparr>rec_head = (if rec_len r = 0 \<and> m \<noteq> Map.empty then Min (dom m) else rec_head r),
     rec_len = rec_len r + card (dom m), rec_bytes = rec_bytes r + weight length m\<rparr>"

lemma scan_result_empty [simp]: "scan_result Map.empty r = r"
  by (simp add: scan_result_def)

lemma scan_result_step:
  assumes "m q = Some v" and "\<forall>q' \<in> dom m. q \<le> q'"
  shows "scan_result (m(q := None))
      \<lparr>rec_head = (if rec_len r = 0 then q else rec_head r), rec_len = rec_len r + 1,
        rec_bytes = rec_bytes r + length v\<rparr> = scan_result m r"
proof -
  have "card (dom m) = Suc (card (dom (m(q := None))))"
    using assms(1) by (rule card_dom_remove)
  moreover have "weight length m = length v + weight length (m(q := None))"
    using assms(1) by (rule weight_remove)
  moreover have "Min (dom m) = q"
    using assms by (intro Min_eqI) auto
  ultimately show ?thesis
    using assms(1) by (auto simp: scan_result_def)
qed

context store_contract begin

lemma recover_scan_result:
  assumes "sinv st" and "only_queue_keys (view st)" and "META_KEY < cursor"
  shows "\<exists>res st'. recover_scan S st cursor r = Some (res, st') \<and> sinv st' \<and> view st' = view st \<and>
    (\<forall>r'. res = Ok r' \<longrightarrow> r' = scan_result (items_from (items_of (view st)) cursor) r) \<and>
    (res = Panic \<longrightarrow> items_of (view st) (- 1) \<noteq> None \<or>
      usize_max < rec_len r + card (dom (items_from (items_of (view st)) cursor)) \<or>
      usize_max < rec_bytes r + weight length (items_from (items_of (view st)) cursor)) \<and>
    (\<forall>e. res = Err e \<longrightarrow> (\<exists>s c e'. e = Open_Store e' \<and> fst (seek S s c) = Inl e'))"
  using assms
proof (induction "card (dom (items_from (items_of (view st)) cursor))" arbitrary: st cursor r
    rule: less_induct)
  case less
  let ?m = "items_of (view st)"
  obtain q st1 where sk: "seek S st cursor = (q, st1)" by (cases "seek S st cursor")
  note keeps = seek_keeps [OF less.prems(1) sk]
  note step = recover_scan.simps [of S st cursor r]
  show ?case
  proof (cases q)
    case (Inl e)
    have "recover_scan S st cursor r = Some (Err (Open_Store e), st1)"
      by (simp add: step sk Inl)
    moreover have "fst (seek S st cursor) = Inl e" by (simp add: sk Inl)
    ultimately show ?thesis using keeps by fastforce
  next
    case (Inr kv)
    have "least_from (view st) cursor kv"
      using seek_reads less.prems(1) sk Inr by blast
    then show ?thesis
      using less.prems(2,3)
    proof (cases rule: least_from_entry)
      case 1
      then show ?thesis
        using keeps by (simp add: step sk Inr items_from_None)
    next
      case (2 s v)
      let ?f = "items_from ?m cursor"
      have f: "?f s = Some v" "\<forall>s' \<in> dom ?f. s \<le> s'"
        using 2(2) by (auto simp: entry_from_def items_from_def split: if_splits)
      have card: "card (dom ?f) = Suc (card (dom (?f(s := None))))"
        using f(1) by (rule card_dom_remove)
      have bytes: "weight length ?f = length v + weight length (?f(s := None))"
        using f(1) by (rule weight_remove)
      show ?thesis
      proof (cases "s \<noteq> - 1 \<and> rec_len r + 1 \<le> usize_max \<and> rec_bytes r + length v \<le> usize_max")
        case True
        let ?r = "\<lparr>rec_head = (if rec_len r = 0 then s else rec_head r), rec_len = rec_len r + 1,
          rec_bytes = rec_bytes r + length v\<rparr>"
        have next_from: "items_from ?m (entry_key (s + 1)) = ?f(s := None)"
          using items_from_next [OF 2(2)] True by blast
        have "recover_scan S st cursor r = recover_scan S st1 (entry_key (s + 1)) ?r"
          using True by (simp add: step sk Inr 2(1) checked_inc_def checked_add_def)
        moreover have "card (dom (items_from (items_of (view st1)) (entry_key (s + 1)))) < card (dom ?f)"
          using card next_from keeps by simp
        ultimately show ?thesis
          using less.hyps [of st1 "entry_key (s + 1)" ?r] keeps less.prems(2) next_from card bytes
            scan_result_step [OF f, of r]
          by (simp add: add.assoc)
      next
        case False
        have "recover_scan S st cursor r = Some (Panic, st1)"
          using False by (auto simp: step sk Inr 2(1) checked_inc_def checked_add_def)
        moreover have "?m (- 1) \<noteq> None" if "s = - 1"
          using f(1) that by (auto simp: items_from_def split: if_splits)
        ultimately show ?thesis
          using False keeps card bytes by auto
      qed
    qed
  qed
qed

lemma format_version_nonzero [simp]: "FORMAT_VERSION \<noteq> 0"
  by (simp add: FORMAT_VERSION_def)

lemma commit_meta_items:
  assumes "sinv st" and "only_queue_keys (view st)" and "commit S st [Put META_KEY m] d = (c, st')"
  shows "sinv st'" "items_of (view st') = items_of (view st)" "only_queue_keys (view st')"
proof -
  show "sinv st'" using commit_keeps assms by blast
  have other: "view st' k = view st k" if "k \<noteq> META_KEY" for k
    using commit_other [OF assms(1,3), of k] that by simp
  then show "items_of (view st') = items_of (view st)"
    by (auto simp: items_of_def fun_eq_iff)
  show "only_queue_keys (view st')"
    unfolding only_queue_keys_def
  proof (intro ballI)
    fix k assume k: "k \<in> dom (view st')"
    show "k = META_KEY \<or> is_entry k"
    proof (rule disjCI)
      assume "\<not> is_entry k"
      show "k = META_KEY"
      proof (rule ccontr)
        assume "k \<noteq> META_KEY"
        with other k have "k \<in> dom (view st)" by auto
        with assms(2) \<open>\<not> is_entry k\<close> \<open>k \<noteq> META_KEY\<close> show False
          unfolding only_queue_keys_def by blast
      qed
    qed
  qed
qed

lemma check_meta_result:
  assumes "sinv st" and "only_queue_keys (view st)" and "check_meta S st d = (res, st')"
  shows "sinv st'" "items_of (view st') = items_of (view st)" "only_queue_keys (view st')" "res \<noteq> Panic"
    "res = Err (UnsupportedVersion x) \<Longrightarrow> view st' = view st \<and> x \<noteq> FORMAT_VERSION \<and>
      (\<exists>m. view st META_KEY = Some m \<and> x = (case m of [] \<Rightarrow> 0 | b # _ \<Rightarrow> b))"
    "res = Ok () \<Longrightarrow> \<exists>m. view st' META_KEY = Some (FORMAT_VERSION # m)"
proof -
  obtain g st1 where g: "get S st META_KEY = (g, st1)" by (cases "get S st META_KEY")
  note keeps = get_keeps [OF assms(1) g]
  have "sinv st' \<and> items_of (view st') = items_of (view st) \<and> only_queue_keys (view st') \<and> res \<noteq> Panic \<and>
    (res = Err (UnsupportedVersion x) \<longrightarrow> view st' = view st \<and> x \<noteq> FORMAT_VERSION \<and>
      (\<exists>m. view st META_KEY = Some m \<and> x = (case m of [] \<Rightarrow> 0 | b # _ \<Rightarrow> b))) \<and>
    (res = Ok () \<longrightarrow> (\<exists>m. view st' META_KEY = Some (FORMAT_VERSION # m)))"
  proof (cases g)
    case (Inl e)
    with assms keeps g show ?thesis by (auto simp: check_meta_def)
  next
    case (Inr mo)
    have mo: "mo = view st META_KEY" using get_reads assms(1) g Inr by blast
    show ?thesis
    proof (cases mo)
      case (Some m)
      then have "get S st META_KEY = (Inr (Some m), st1)" "view st META_KEY = Some m"
        using g Inr mo by simp_all
      with assms(2,3) keeps show ?thesis
        by (auto simp: check_meta_def Let_def split: if_splits list.splits)
    next
      case None
      obtain c st2 where c: "commit S st1 [Put META_KEY [FORMAT_VERSION]] d = (c, st2)"
        by (cases "commit S st1 [Put META_KEY [FORMAT_VERSION]] d")
      have "sinv st1" "only_queue_keys (view st1)" using keeps assms(2) by simp_all
      note m = commit_meta_items [OF this c]
      have "view st2 META_KEY = Some [FORMAT_VERSION]" if "c = Inr ()"
        using commit_ok [OF \<open>sinv st1\<close>] c that by simp
      moreover have "get S st META_KEY = (Inr None, st1)" using g Inr None by simp
      ultimately show ?thesis
        using assms(3) keeps m c by (cases c) (auto simp: check_meta_def)
    qed
  qed
  then show "sinv st'" "items_of (view st') = items_of (view st)" "only_queue_keys (view st')" "res \<noteq> Panic"
    "res = Err (UnsupportedVersion x) \<Longrightarrow> view st' = view st \<and> x \<noteq> FORMAT_VERSION \<and>
      (\<exists>m. view st META_KEY = Some m \<and> x = (case m of [] \<Rightarrow> 0 | b # _ \<Rightarrow> b))"
    "res = Ok () \<Longrightarrow> \<exists>m. view st' META_KEY = Some (FORMAT_VERSION # m)"
    by blast+
qed

lemma find_tail_result:
  assumes "sinv st" and "only_queue_keys (view st)" and "find_tail S st = (res, st')"
  shows "sinv st' \<and> view st' = view st" "res = Ok t \<Longrightarrow> t = tail_of (items_of (view st))"
    "res = Ok t \<Longrightarrow> items_of (view st) (- 1) = None" "res = Panic \<Longrightarrow> items_of (view st) (- 1) \<noteq> None"
    "res \<noteq> Err (UnsupportedVersion x)"
proof -
  let ?m = "items_of (view st)"
  obtain q st1 where q: "seek_back S st ENTRY_HIGH = (q, st1)" by (cases "seek_back S st ENTRY_HIGH")
  note keeps = seek_back_keeps [OF assms(1) q]
  have "sinv st' \<and> view st' = view st \<and> (res = Ok t \<longrightarrow> t = tail_of ?m \<and> ?m (- 1) = None) \<and>
    (res = Panic \<longrightarrow> ?m (- 1) \<noteq> None) \<and> res \<noteq> Err (UnsupportedVersion x)"
  proof (cases q)
    case (Inl e)
    with assms(3) keeps q show ?thesis by (auto simp: find_tail_def)
  next
    case (Inr kv)
    have "greatest_upto (view st) ENTRY_HIGH kv"
      using seek_back_reads assms(1) q Inr by blast
    then show ?thesis
      using assms(2)
    proof (cases rule: greatest_upto_entry)
      case (1 s v)
      then have dom: "s \<in> dom ?m" by blast
      have "Max (dom ?m) = s"
        using 1 dom by (intro Max_eqI) auto
      moreover have "?m (- 1) = None" if "s \<noteq> - 1"
      proof (rule ccontr)
        assume "?m (- 1) \<noteq> None"
        then have "- 1 \<le> s" using 1(3) by blast
        with that show False by (simp add: word_order.extremum_unique)
      qed
      ultimately show ?thesis
        using assms(3) keeps q Inr 1 dom
        by (auto simp: find_tail_def tail_of_def checked_inc_def split: if_splits)
    next
      case 2
      then have "?m = Map.empty" by auto
      with assms(3) keeps q Inr 2 show ?thesis
        by (cases kv) (auto simp: find_tail_def tail_of_def split: prod.splits)
    qed
  qed
  then show "sinv st' \<and> view st' = view st" "res = Ok t \<Longrightarrow> t = tail_of ?m"
    "res = Ok t \<Longrightarrow> ?m (- 1) = None" "res = Panic \<Longrightarrow> ?m (- 1) \<noteq> None"
    "res \<noteq> Err (UnsupportedVersion x)"
    by blast+
qed

text \<open>Opening returns, keeps the items, and computes the cursors and the counts from the keys.\<close>

lemma open_queue_result:
  assumes "sinv (b_store b)" and "only_queue_keys (view (b_store b))"
  defines "m \<equiv> items_of (view (b_store b))"
  obtains res st where "open_queue S b = Some (res, st)" "sinv st" "items_of (view st) = m"
    "only_queue_keys (view st)"
    "\<And>sh. res = Ok sh \<Longrightarrow> m (- 1) = None \<and> sh = new_shared b st (tail_of m)
       \<lparr>rec_head = head_of m, rec_len = card (dom m), rec_bytes = weight length m\<rparr>"
    "res = Panic \<Longrightarrow> m (- 1) \<noteq> None \<or> usize_max < card (dom m) \<or> usize_max < weight length m"
proof -
  let ?d = "durability_durable (b_durability b)"
  obtain c st1 where c: "check_meta S (b_store b) ?d = (c, st1)" by fastforce
  note cm = check_meta_result [OF assms(1,2) c]
  obtain f st2 where f: "find_tail S st1 = (f, st2)" by fastforce
  note ft = find_tail_result [OF cm(1,3) f]
  note op = open_queue_def [of S b]
  show thesis
  proof (cases c)
    case Panic
    with cm(4) show ?thesis by simp
  next
    case (Err e)
    with cm c show ?thesis by (intro that [of "Err e" st1]) (simp_all add: op m_def)
  next
    case (Ok u)
    show ?thesis
    proof (cases f)
      case (Err e)
      with cm c f ft Ok show ?thesis by (intro that [of "Err e" st2]) (simp_all add: op m_def)
    next
      case Panic
      with cm c f ft Ok show ?thesis by (intro that [of Panic st2]) (simp_all add: op m_def)
    next
      case (Ok t)
      let ?r = "\<lparr>rec_head = t, rec_len = 0, rec_bytes = 0\<rparr>"
      have m2: "items_of (view st2) = m" "only_queue_keys (view st2)" "sinv st2"
        using ft(1) cm by (simp_all add: m_def)
      have t: "t = tail_of m" "m (- 1) = None" using ft Ok cm(2) by (simp_all add: m_def)
      have "scan_result m ?r = \<lparr>rec_head = head_of m, rec_len = card (dom m), rec_bytes = weight length m\<rparr>"
        by (simp add: scan_result_def head_of_def tail_of_def t)
      moreover obtain r st3 where "recover_scan S st2 ENTRY_LOW ?r = Some (r, st3)" "sinv st3"
        "view st3 = view st2" "\<And>r'. r = Ok r' \<Longrightarrow> r' = scan_result m ?r"
        "r = Panic \<Longrightarrow> m (- 1) \<noteq> None \<or> usize_max < card (dom m) \<or> usize_max < weight length m"
        using recover_scan_result [OF m2(3,2) meta_below_low, of ?r] m2(1) by auto
      ultimately show ?thesis
        using \<open>c = Ok u\<close> Ok c f m2 t
        by (intro that [of "case r of Ok r' \<Rightarrow> Ok (new_shared b st3 t r') | Err e \<Rightarrow> Err e | Panic \<Rightarrow> Panic" st3])
          (auto simp: op split: outcome.splits)
    qed
  qed
qed

end

end
