(* ===== verification/BTreeMap.thy ===== *)
theory BTreeMap imports Prelude begin

text \<open>
  The part of Rust's \<open>std::collections::BTreeMap\<close> that the stores use, as an association list
  kept in strictly ascending key order: \<open>get\<close>, \<open>insert\<close>, \<open>remove\<close>, \<open>range(from..).next()\<close>
  and \<open>range(..=upto).next_back()\<close>. The lemmas relate each to the finite map \<open>map_of\<close> and
  show that the order is kept.
\<close>

section \<open>Operations\<close>

type_synonym ('k, 'v) btree = "('k \<times> 'v) list"

definition bt_ordered :: "('k::linorder, 'v) btree \<Rightarrow> bool" where
  "bt_ordered m \<longleftrightarrow> sorted_wrt (<) (map fst m)"

fun bt_insert :: "'k::linorder \<Rightarrow> 'v \<Rightarrow> ('k, 'v) btree \<Rightarrow> ('k, 'v) btree" where
  "bt_insert k v [] = [(k, v)]"
| "bt_insert k v ((k', v') # m) =
     (if k < k' then (k, v) # (k', v') # m
      else if k = k' then (k, v) # m
      else (k', v') # bt_insert k v m)"

fun bt_remove :: "'k::linorder \<Rightarrow> ('k, 'v) btree \<Rightarrow> ('k, 'v) btree" where
  "bt_remove k [] = []"
| "bt_remove k ((k', v') # m) = (if k = k' then m else (k', v') # bt_remove k m)"

fun bt_next :: "'k::linorder \<Rightarrow> ('k, 'v) btree \<Rightarrow> ('k \<times> 'v) option" where
  "bt_next from [] = None"
| "bt_next from ((k, v) # m) = (if from \<le> k then Some (k, v) else bt_next from m)"

fun bt_next_back :: "'k::linorder \<Rightarrow> ('k, 'v) btree \<Rightarrow> ('k \<times> 'v) option" where
  "bt_next_back limit [] = None"
| "bt_next_back limit ((k, v) # m) =
     (if k \<le> limit then
        (case bt_next_back limit m of None \<Rightarrow> Some (k, v) | Some kv \<Rightarrow> Some kv)
      else None)"

section \<open>Facts\<close>

definition bt_keys :: "('k, 'v) btree \<Rightarrow> 'k set" where
  "bt_keys m = fst ` set m"

lemma bt_keys_simps [simp]: "bt_keys [] = {}" "bt_keys (p # m) = insert (fst p) (bt_keys m)"
  by (simp_all add: bt_keys_def)

lemma dom_map_of_bt [simp]: "dom (map_of m) = bt_keys m"
  by (simp add: bt_keys_def dom_map_of_conv_image_fst)

lemma map_of_bt_None: "map_of m k = None \<longleftrightarrow> k \<notin> bt_keys m"
  by (metis domIff dom_map_of_bt)

lemma bt_ordered_Nil [simp]: "bt_ordered []"
  by (simp add: bt_ordered_def)

lemma bt_ordered_Cons [simp]:
  "bt_ordered (p # m) \<longleftrightarrow> (\<forall>k \<in> bt_keys m. fst p < k) \<and> bt_ordered m"
  by (auto simp: bt_ordered_def bt_keys_def)

lemma bt_keys_insert [simp]: "bt_keys (bt_insert k v m) = insert k (bt_keys m)"
  by (induction k v m rule: bt_insert.induct) (simp_all add: insert_commute)

lemma bt_keys_remove: "bt_keys (bt_remove k m) \<subseteq> bt_keys m"
  by (induction m) (auto split: if_splits)

lemma bt_ordered_insert [simp]: "bt_ordered m \<Longrightarrow> bt_ordered (bt_insert k v m)"
proof (induction m)
  case Nil
  then show ?case by simp
next
  case (Cons p m)
  obtain k0 v0 where "p = (k0, v0)" by (cases p)
  with Cons show ?case
    by (cases "k < k0") (auto dest: order.strict_trans)
qed

lemma bt_ordered_remove [simp]: "bt_ordered m \<Longrightarrow> bt_ordered (bt_remove k m)"
proof (induction m)
  case Nil
  then show ?case by simp
next
  case (Cons p m)
  then show ?case
    using bt_keys_remove [of k m] by (cases p) auto
qed

lemma map_of_bt_insert [simp]: "bt_ordered m \<Longrightarrow> map_of (bt_insert k v m) = (map_of m)(k \<mapsto> v)"
  by (induction m) (auto simp: fun_eq_iff)

lemma map_of_bt_remove [simp]: "bt_ordered m \<Longrightarrow> map_of (bt_remove k m) = (map_of m)(k := None)"
  by (induction m) (auto simp: fun_eq_iff map_of_bt_None [THEN iffD2])

lemma bt_next_None: "bt_next from m = None \<longleftrightarrow> (\<forall>k \<in> bt_keys m. k < from)"
  by (induction m) (auto split: if_splits simp: not_le)

lemma bt_next_Some:
  "bt_ordered m \<Longrightarrow> bt_next from m = Some (k, v) \<Longrightarrow>
     map_of m k = Some v \<and> from \<le> k \<and> (\<forall>k' \<in> bt_keys m. from \<le> k' \<longrightarrow> k \<le> k')"
proof (induction m)
  case Nil
  then show ?case by simp
next
  case (Cons p m)
  obtain k0 v0 where p: "p = (k0, v0)" by (cases p)
  show ?case
  proof (cases "from \<le> k0")
    case True
    with Cons.prems show ?thesis by (auto simp: p)
  next
    case False
    with Cons have IH: "map_of m k = Some v" "from \<le> k" "\<forall>k' \<in> bt_keys m. from \<le> k' \<longrightarrow> k \<le> k'"
      by (auto simp: p)
    with False show ?thesis by (auto simp: p)
  qed
qed

lemma bt_next_back_None:
  "bt_ordered m \<Longrightarrow> bt_next_back limit m = None \<longleftrightarrow> (\<forall>k \<in> bt_keys m. limit < k)"
proof (induction m)
  case Nil
  then show ?case by simp
next
  case (Cons p m)
  obtain k0 v0 where "p = (k0, v0)" by (cases p)
  with Cons show ?case
    by (cases "k0 \<le> limit") (auto simp: not_le split: option.split dest: order.strict_trans)
qed

lemma bt_next_back_in: "bt_next_back limit m = Some (k, v) \<Longrightarrow> k \<in> bt_keys m \<and> k \<le> limit"
  by (induction m) (auto split: if_splits option.splits)

lemma bt_next_back_Some:
  "bt_ordered m \<Longrightarrow> bt_next_back limit m = Some (k, v) \<Longrightarrow>
     map_of m k = Some v \<and> k \<le> limit \<and> (\<forall>k' \<in> bt_keys m. k' \<le> limit \<longrightarrow> k' \<le> k)"
proof (induction m)
  case Nil
  then show ?case by simp
next
  case (Cons p m)
  obtain k0 v0 where p: "p = (k0, v0)" by (cases p)
  show ?case
  proof (cases "bt_next_back limit m")
    case None
    with Cons.prems(2) have "k = k0" "v = v0" "k0 \<le> limit"
      by (simp_all add: p split: if_splits)
    moreover have "\<forall>k' \<in> bt_keys m. limit < k'"
      using None Cons.prems(1) by (simp add: bt_next_back_None)
    ultimately show ?thesis by (auto simp: p)
  next
    case (Some kv)
    with Cons.prems have tail: "bt_next_back limit m = Some (k, v)" and "bt_ordered m"
      by (auto simp: p split: if_splits)
    with Cons.IH have IH: "map_of m k = Some v" "k \<le> limit" "\<forall>k' \<in> bt_keys m. k' \<le> limit \<longrightarrow> k' \<le> k"
      by auto
    have "k0 < k"
      using Cons.prems(1) bt_next_back_in [OF tail] by (auto simp: p)
    with IH show ?thesis by (auto simp: p)
  qed
qed

end
