(* ===== verification/MemStore.thy ===== *)
theory MemStore imports Store BTreeMap begin

text \<open>
  \<open>MemStore\<close> (\<open>src/src/store.rs\<close>, lines 38--102): the in-memory backend, a \<open>BTreeMap\<close> behind
  a mutex. It cannot fail (its error type is \<open>Infallible\<close>, here any type), so it meets the
  trait's contract and the atomic one. The lock makes each operation one atomic step.
\<close>

type_synonym mem_store = "(key, val) btree"

definition mem_new :: mem_store where
  "mem_new = []"

definition mem_default :: mem_store where
  "mem_default = mem_new"

definition mem_get :: "mem_store \<Rightarrow> key \<Rightarrow> ('e + val option) \<times> mem_store" where
  "mem_get m k = (Inr (map_of m k), m)"

definition mem_seek :: "mem_store \<Rightarrow> key \<Rightarrow> ('e + KeyValue option) \<times> mem_store" where
  "mem_seek m from = (Inr (bt_next from m), m)"

definition mem_seek_back :: "mem_store \<Rightarrow> key \<Rightarrow> ('e + KeyValue option) \<times> mem_store" where
  "mem_seek_back m limit = (Inr (bt_next_back limit m), m)"

fun mem_apply :: "mem_store \<Rightarrow> Op \<Rightarrow> mem_store" where
  "mem_apply m (Put k v) = bt_insert k v m"
| "mem_apply m (Delete k) = bt_remove k m"

definition mem_commit :: "mem_store \<Rightarrow> Op list \<Rightarrow> bool \<Rightarrow> ('e + unit) \<times> mem_store" where
  "mem_commit m ops durable = (Inr (), foldl mem_apply m ops)"

definition MemStore :: "(mem_store, 'e) Store" where
  "MemStore = \<lparr>get = mem_get, seek = mem_seek, seek_back = mem_seek_back, commit = mem_commit\<rparr>"

section \<open>The contract\<close>

lemma MemStore_sel [simp]:
  "get MemStore = mem_get" "seek MemStore = mem_seek"
  "seek_back MemStore = mem_seek_back" "commit MemStore = mem_commit"
  by (simp_all add: MemStore_def)

lemmas mem_defs = mem_get_def mem_seek_def mem_seek_back_def mem_commit_def

lemma mem_apply_ordered [simp]: "bt_ordered m \<Longrightarrow> bt_ordered (mem_apply m x)"
  by (cases x) auto

lemma map_of_mem_apply [simp]: "bt_ordered m \<Longrightarrow> map_of (mem_apply m x) = apply_op (map_of m) x"
  by (cases x) auto

lemma mem_apply_all:
  "bt_ordered m \<Longrightarrow> bt_ordered (foldl mem_apply m ops) \<and>
     map_of (foldl mem_apply m ops) = apply_ops (map_of m) ops"
  by (induction ops arbitrary: m) auto

lemma bt_next_least: "bt_ordered m \<Longrightarrow> least_from (map_of m) from (bt_next from m)"
  using bt_next_None [of "from" m] bt_next_Some [of m "from"]
  by (auto simp: least_from_def split: option.split)

lemma bt_next_back_greatest: "bt_ordered m \<Longrightarrow> greatest_upto (map_of m) limit (bt_next_back limit m)"
  using bt_next_back_None [of m limit] bt_next_back_Some [of m limit]
  by (auto simp: greatest_upto_def split: option.split)

interpretation mem: atomic_store MemStore bt_ordered map_of
  by unfold_locales (auto simp: mem_defs mem_apply_all bt_next_least bt_next_back_greatest)

text \<open>\<open>MemStore\<close> keeps the contract of an atomic store: \<open>get\<close> reads the last value put, \<open>seek\<close> and
  \<open>seek_back\<close> find the least key at or above and the greatest at or below the bound, \<open>commit\<close>
  applies the batch in order and a failed one (there is none) changes nothing.\<close>

theorem mem_store_contract:
  "atomic_store (MemStore :: (mem_store, 'e) Store) bt_ordered map_of"
  by (rule mem.atomic_store_axioms)

end
