(* ===== verification/FaultStore.thy ===== *)
theory FaultStore imports MemStore begin

text \<open>
  \<open>SharedMem\<close> (\<open>src/tests/fault.rs\<close>), the repository's model of a disk: \<open>live\<close> is what the
  process sees, \<open>synced\<close> what an fsync has saved. A durable commit copies \<open>live\<close> to \<open>synced\<close>,
  \<open>crash\<close> copies back, and commits from number \<open>fail_at\<close> on fail before they write anything.
\<close>

record shared_mem =
  live :: "(key, val) btree"
  synced :: "(key, val) btree"
  commits :: usize
  fail_at :: "usize option"

datatype fault_error = FaultError

definition sm_new :: shared_mem where
  "sm_new = \<lparr>live = [], synced = [], commits = 0, fail_at = None\<rparr>"

definition sm_fail_commit_number :: "shared_mem \<Rightarrow> usize \<Rightarrow> shared_mem" where
  "sm_fail_commit_number s n = s\<lparr>fail_at := Some n\<rparr>"

definition sm_stop_failing :: "shared_mem \<Rightarrow> shared_mem" where
  "sm_stop_failing s = s\<lparr>fail_at := None\<rparr>"

definition sm_crash :: "shared_mem \<Rightarrow> shared_mem" where
  "sm_crash s = s\<lparr>live := synced s\<rparr>"

definition sm_get :: "shared_mem \<Rightarrow> key \<Rightarrow> (fault_error + val option) \<times> shared_mem" where
  "sm_get s k = (Inr (map_of (live s) k), s)"

definition sm_seek :: "shared_mem \<Rightarrow> key \<Rightarrow> (fault_error + KeyValue option) \<times> shared_mem" where
  "sm_seek s from = (Inr (bt_next from (live s)), s)"

definition sm_seek_back :: "shared_mem \<Rightarrow> key \<Rightarrow> (fault_error + KeyValue option) \<times> shared_mem" where
  "sm_seek_back s limit = (Inr (bt_next_back limit (live s)), s)"

text \<open>\<open>fetch_add\<close> on an \<open>AtomicUsize\<close> wraps around.\<close>

definition sm_commit :: "shared_mem \<Rightarrow> Op list \<Rightarrow> bool \<Rightarrow> (fault_error + unit) \<times> shared_mem" where
  "sm_commit s ops durable =
     (let n = commits s; s = s\<lparr>commits := (n + 1) mod (usize_max + 1)\<rparr>
      in if (case fail_at s of Some fail \<Rightarrow> fail \<le> n | None \<Rightarrow> False) then (Inl FaultError, s)
         else (let s = s\<lparr>live := foldl mem_apply (live s) ops\<rparr>
               in (Inr (), if durable then s\<lparr>synced := live s\<rparr> else s)))"

definition SharedMem :: "(shared_mem, fault_error) Store" where
  "SharedMem = \<lparr>get = sm_get, seek = sm_seek, seek_back = sm_seek_back, commit = sm_commit\<rparr>"

section \<open>The contract\<close>

definition sm_inv :: "shared_mem \<Rightarrow> bool" where
  "sm_inv s \<longleftrightarrow> bt_ordered (live s) \<and> bt_ordered (synced s)"

abbreviation sm_view :: "shared_mem \<Rightarrow> key \<rightharpoonup> val" where
  "sm_view s \<equiv> map_of (live s)"

abbreviation sm_stable :: "shared_mem \<Rightarrow> key \<rightharpoonup> val" where
  "sm_stable s \<equiv> map_of (synced s)"

lemma SharedMem_sel [simp]:
  "get SharedMem = sm_get" "seek SharedMem = sm_seek"
  "seek_back SharedMem = sm_seek_back" "commit SharedMem = sm_commit"
  by (simp_all add: SharedMem_def)

lemmas sm_defs = sm_get_def sm_seek_def sm_seek_back_def sm_commit_def sm_crash_def

lemma sm_commit_Err:
  "sm_commit s ops d = (Inl e, s') \<Longrightarrow> live s' = live s \<and> synced s' = synced s"
  by (auto simp: sm_commit_def Let_def split: if_splits option.splits)

lemma sm_commit_Ok:
  "sm_commit s ops d = (Inr u, s') \<Longrightarrow>
     live s' = foldl mem_apply (live s) ops \<and> synced s' = (if d then live s' else synced s)"
  by (auto simp: sm_commit_def Let_def split: if_splits option.splits)

lemma sm_inv_ordered: "sm_inv s \<Longrightarrow> bt_ordered (live s)"
  by (simp add: sm_inv_def)

lemma sm_commit_keeps: "sm_inv s \<Longrightarrow> sm_commit s ops d = (c, s') \<Longrightarrow> sm_inv s'"
  by (cases c) (auto simp: sm_inv_def mem_apply_all dest!: sm_commit_Err sm_commit_Ok split: if_splits)

interpretation sm: atomic_store SharedMem sm_inv sm_view
proof unfold_locales
  fix st ops d and st' :: shared_mem and u :: fault_error and k
  assume "sm_inv st" and c: "commit SharedMem st ops d = (Inl u, st')"
  show eq: "sm_view st' = sm_view st"
    using c by (auto dest: sm_commit_Err)
  show "\<exists>n. sm_view st' k = apply_ops (sm_view st) (take n ops) k"
    by (rule exI [of _ 0]) (simp add: eq)
next
  fix st ops d st'
  assume "sm_inv st" and "commit SharedMem st ops d = (Inr (), st')"
  then show "sm_view st' = apply_ops (sm_view st) ops"
    by (auto simp: sm_inv_def mem_apply_all dest: sm_commit_Ok)
qed (auto simp: sm_get_def sm_seek_def sm_seek_back_def bt_next_least
    bt_next_back_greatest sm_inv_ordered intro: sm_commit_keeps)

interpretation sm: durable_store SharedMem sm_inv sm_view sm_stable sm_crash
proof unfold_locales
  fix st ops d c st' j
  assume "commit SharedMem st ops d = (c, st')"
  then show "sm_stable st' j \<in> {sm_stable st j, sm_view st j, sm_view st' j}"
    by (cases c) (auto dest: sm_commit_Err sm_commit_Ok split: if_splits)
next
  fix st ops st' j
  assume "commit SharedMem st ops True = (Inr (), st')"
  then show "sm_stable st' j = sm_view st' j"
    by (auto dest: sm_commit_Ok)
qed (auto simp: sm_get_def sm_seek_def sm_seek_back_def sm_crash_def sm_inv_def)

end
