(* ===== verification/Delivery.thy ===== *)
theory Delivery imports Recovery FaultStore begin

text \<open>
  The queue's contract for a single thread. \<open>AQueue\<close> is the abstract queue: a map of numbered
  items, the numbers in flight, the next number, and whether the queue is closed. \<open>wf_queue\<close> ties
  the cursors and counters of a \<open>Shared\<close> state to the store's contents; over an atomic store
  every operation keeps it and refines its abstract counterpart on every branch.
\<close>

section \<open>The abstract queue\<close>

record AQueue =
  a_items :: "u64 \<rightharpoonup> val"
  a_taken :: "u64 set"
  a_next :: u64
  a_closed :: bool

definition abs_queue :: "(key \<rightharpoonup> val) \<Rightarrow> 's Shared \<Rightarrow> AQueue" where
  "abs_queue m sh = \<lparr>a_items = items_of m, a_taken = reserved (inner sh),
     a_next = tail (inner sh), a_closed = closed (inner sh)\<rparr>"

definition a_burn :: "AQueue \<Rightarrow> AQueue" where
  "a_burn q = q\<lparr>a_next := a_next q + 1\<rparr>"

definition a_push :: "AQueue \<Rightarrow> val \<Rightarrow> AQueue" where
  "a_push q v = (a_burn q)\<lparr>a_items := (a_items q)(a_next q \<mapsto> v)\<rparr>"

definition a_ready :: "AQueue \<Rightarrow> u64 set" where
  "a_ready q = dom (a_items q) - a_taken q"

definition a_reserve :: "AQueue \<Rightarrow> (u64 \<times> val \<times> AQueue) option" where
  "a_reserve q = (if a_ready q = {} then None
     else (let s = Min (a_ready q)
           in Some (s, the (a_items q s), q\<lparr>a_taken := insert s (a_taken q)\<rparr>)))"

definition a_nack :: "AQueue \<Rightarrow> u64 \<Rightarrow> AQueue" where
  "a_nack q s = q\<lparr>a_taken := a_taken q - {s}\<rparr>"

definition a_ack :: "AQueue \<Rightarrow> u64 \<Rightarrow> AQueue" where
  "a_ack q s = (a_nack q s)\<lparr>a_items := (a_items q)(s := None)\<rparr>"

section \<open>Well-formed states\<close>

definition wf_queue :: "(key \<rightharpoonup> val) \<Rightarrow> 's Shared \<Rightarrow> bool" where
  "wf_queue m sh \<longleftrightarrow>
     (let i = inner sh; it = items_of m in
      only_queue_keys m \<and> head i \<le> tail i \<and> acked_above i \<subseteq> {..<tail i} \<and>
      (\<forall>q. it q \<noteq> None \<longrightarrow> head i \<le> q \<and> q < tail i \<and> q \<notin> acked_above i) \<and>
      (\<forall>q \<in> reserved i. it q \<noteq> None) \<and>
      len i = card (dom it) \<and> bytes i = weight length it \<and> group_state sh = group_default)"

lemma wf_queueD:
  assumes "wf_queue m sh"
  shows "only_queue_keys m" "head (inner sh) \<le> tail (inner sh)"
    "acked_above (inner sh) \<subseteq> {..<tail (inner sh)}"
    "items_of m q = Some v \<Longrightarrow> head (inner sh) \<le> q \<and> q < tail (inner sh) \<and> q \<notin> acked_above (inner sh)"
    "q \<in> reserved (inner sh) \<Longrightarrow> \<exists>v. items_of m q = Some v"
    "len (inner sh) = card (dom (items_of m))" "bytes (inner sh) = weight length (items_of m)"
    "group_state sh = group_default"
  using assms by (auto simp: wf_queue_def Let_def)

lemma wf_queue_fresh: "wf_queue m sh \<Longrightarrow> items_of m (tail (inner sh)) = None"
  using wf_queueD(4) [of m sh "tail (inner sh)"] by (cases "items_of m (tail (inner sh))") auto

text \<open>A state just opened is well-formed.\<close>

lemma tail_of_above:
  assumes "m (- 1) = None"
  shows "m q = Some v \<Longrightarrow> head_of m \<le> q \<and> q < tail_of m" "head_of m \<le> tail_of m"
proof -
  have below: "head_of m \<le> q \<and> q < tail_of m" if "m q = Some v" for q v
  proof -
    have "q \<in> dom m" using that by blast
    note that = this
    have "Max (dom m) \<in> dom m" using that by (intro Max_in) auto
    with assms have "Max (dom m) \<noteq> - 1" by auto
    moreover have "q \<le> Max (dom m)" "Min (dom m) \<le> q" using that by simp_all
    ultimately show ?thesis
      using that by (auto simp: tail_of_def head_of_def word_facts)
  qed
  then show "m q = Some v \<Longrightarrow> head_of m \<le> q \<and> q < tail_of m" .
  show "head_of m \<le> tail_of m"
  proof (cases "m = Map.empty")
    case True
    then show ?thesis by (simp add: head_of_def tail_of_def)
  next
    case False
    then obtain q v where "m q = Some v" by (auto simp: fun_eq_iff)
    with below [OF this] show ?thesis by (auto intro: less_imp_le order.strict_trans1)
  qed
qed

lemma wf_new_shared:
  assumes "only_queue_keys k" and "items_of k = m" and "m (- 1) = None"
  shows "wf_queue k (new_shared b st (tail_of m)
    \<lparr>rec_head = head_of m, rec_len = card (dom m), rec_bytes = weight length m\<rparr>)"
  using assms tail_of_above [of m] by (auto simp: wf_queue_def new_shared_def Let_def)

section \<open>Well-formedness under the sections\<close>

lemma wf_claim:
  assumes "wf_queue m sh" and "claim (inner sh) (length v) = Some (seq, i)"
  shows "wf_queue (m(entry_key seq \<mapsto> v)) (sh\<lparr>inner := i, store := st\<rparr>)"
    and "abs_queue (m(entry_key seq \<mapsto> v)) (sh\<lparr>inner := i, store := st\<rparr>) = a_push (abs_queue m sh) v"
proof -
  note d = wf_queueD [OF assms(1)]
  have i: "seq = tail (inner sh)" "tail (inner sh) \<noteq> - 1"
    "i = (inner sh)\<lparr>tail := tail (inner sh) + 1, len := len (inner sh) + 1,
      bytes := bytes (inner sh) + length v\<rparr>"
    using assms(2) by simp_all
  have fresh: "seq \<notin> dom (items_of m)" using wf_queue_fresh [OF assms(1)] i(1) by auto
  have up: "x < tail (inner sh) + 1 \<longleftrightarrow> x \<le> tail (inner sh)" for x
    using i(2) by (rule less_inc_iff)
  show "wf_queue (m(entry_key seq \<mapsto> v)) (sh\<lparr>inner := i, store := st\<rparr>)"
    using d fresh weight_fresh [OF fresh, of length v]
    by (auto simp: wf_queue_def Let_def i up intro: less_imp_le)
  show "abs_queue (m(entry_key seq \<mapsto> v)) (sh\<lparr>inner := i, store := st\<rparr>) = a_push (abs_queue m sh) v"
    by (simp add: abs_queue_def a_push_def a_burn_def i)
qed

text \<open>A failed write gives the slot and the bytes back; the number is burnt.\<close>

lemma wf_burn:
  assumes "wf_queue m sh" and "claim (inner sh) (length v) = Some (seq, i)"
  shows "\<exists>j. give_back i (length v) = Some j \<and> wf_queue m (sh\<lparr>inner := j, store := st\<rparr>) \<and>
    abs_queue m (sh\<lparr>inner := j, store := st\<rparr>) = a_burn (abs_queue m sh)"
proof -
  note d = wf_queueD [OF assms(1)]
  have i: "tail (inner sh) \<noteq> - 1"
    "i = (inner sh)\<lparr>tail := tail (inner sh) + 1, len := len (inner sh) + 1,
      bytes := bytes (inner sh) + length v\<rparr>"
    using assms(2) by simp_all
  have up: "x < tail (inner sh) + 1 \<longleftrightarrow> x \<le> tail (inner sh)" for x
    using i(1) by (rule less_inc_iff)
  show ?thesis
    using d by (auto simp: wf_queue_def Let_def i up abs_queue_def a_burn_def intro: less_imp_le)
qed

lemma wf_reserve:
  assumes "wf_queue m sh" and "q \<in> dom (items_of m)"
  shows "wf_queue m (sh\<lparr>store := st, inner := (inner sh)\<lparr>reserved := insert q (reserved (inner sh))\<rparr>\<rparr>)"
  using assms by (auto simp: wf_queue_def Let_def)

lemma wf_release: "wf_queue m sh \<Longrightarrow> wf_queue m (release sh r)"
  by (auto simp: wf_queue_def Let_def release_def release_inner_def)

lemma wf_store: "wf_queue m sh \<Longrightarrow> wf_queue m (sh\<lparr>store := st\<rparr>)"
  by (simp add: wf_queue_def)

text \<open>An ack of an item in flight never panics and keeps the accounting exact.\<close>

lemma wf_ack:
  assumes "wf_queue m sh" and "q \<in> reserved (inner sh)" and "items_of m q = Some v"
  shows "\<exists>i. ack_finish (inner sh) q (length v) = Some i \<and>
    wf_queue (m(entry_key q := None)) (sh\<lparr>store := st, inner := i\<rparr>) \<and>
    abs_queue (m(entry_key q := None)) (sh\<lparr>store := st, inner := i\<rparr>) = a_ack (abs_queue m sh) q"
proof -
  note d = wf_queueD [OF assms(1)]
  let ?it = "items_of m"
  have tot: "weight length ?it = length v + weight length (?it(q := None))"
    using assms(3) by (rule weight_remove)
  have card: "card (dom ?it) = Suc (card (dom (?it(q := None))))"
    using assms(3) by (rule card_dom_remove)
  have q: "q < tail (inner sh)" using d(4) assms(3) by blast
  obtain i where i: "ack_finish (inner sh) q (length v) = Some i"
    "head i \<le> tail i" "acked_above i \<subseteq> {..<tail i}"
    by (rule ack_finish_total [of "inner sh" "length v" q]) (use d q tot card in auto)
  note f = ack_finish_fields [OF i(1)]
  have dead: "{..<head i} \<union> acked_above i = insert q ({..<head (inner sh)} \<union> acked_above (inner sh))"
    using f(7) .
  have live: "head i \<le> x \<and> x < tail i \<and> x \<notin> acked_above i" if "(?it(q := None)) x = Some u" for x u
  proof -
    have x: "x \<noteq> q" "?it x = Some u" using that by (auto split: if_splits)
    note dx = d(4) [OF x(2)]
    have "x \<notin> insert q ({..<head (inner sh)} \<union> acked_above (inner sh))"
      using dx x(1) by auto
    then have "x \<notin> {..<head i} \<union> acked_above i" using dead by simp
    with dx f(1) show ?thesis by auto
  qed
  show ?thesis
    using d(1,5-8) f i live tot card
    by (auto simp: wf_queue_def Let_def abs_queue_def a_ack_def a_nack_def)
qed

section \<open>The reserve scan\<close>

definition passed :: "(u64 \<rightharpoonup> val) \<Rightarrow> u64 set \<Rightarrow> key \<Rightarrow> u64 \<Rightarrow> bool" where
  "passed m taken cursor q \<longleftrightarrow>
     (\<forall>x v. m x = Some v \<longrightarrow> cursor \<le> entry_key x \<longrightarrow> x < q \<longrightarrow> x \<in> taken)"

text \<open>
  What a scan from a cursor gives: the first item at or after it that is not in flight, now
  marked, or nothing when all of them are in flight.
\<close>

definition reserve_post ::
  "(u64 \<rightharpoonup> val) \<Rightarrow> 's Shared \<Rightarrow> key \<Rightarrow> 's \<Rightarrow> ('e, Reserved option) outcome \<Rightarrow> 's Shared \<Rightarrow> bool" where
  "reserve_post m sh cursor st res sh' = (case res of
     Ok (Some r) \<Rightarrow> m (res_seq r) = Some (res_value r) \<and> cursor \<le> entry_key (res_seq r) \<and>
       res_seq r \<notin> reserved (inner sh) \<and> \<not> res_done r \<and>
       passed m (reserved (inner sh)) cursor (res_seq r) \<and>
       sh' = sh\<lparr>store := st, inner := (inner sh)\<lparr>reserved := insert (res_seq r) (reserved (inner sh))\<rparr>\<rparr>
   | Ok None \<Rightarrow> (\<forall>x v. m x = Some v \<longrightarrow> cursor \<le> entry_key x \<longrightarrow> x \<in> reserved (inner sh)) \<and>
       sh' = sh\<lparr>store := st\<rparr>
   | Err e \<Rightarrow> sh' = sh\<lparr>store := st\<rparr>
   | Panic \<Rightarrow> m (- 1) \<noteq> None \<and> - 1 \<in> reserved (inner sh))"

lemma reserve_post_skip:
  assumes "reserve_post m (sh\<lparr>store := st1\<rparr>) (entry_key (s + 1)) st res sh'"
    and s: "s \<in> reserved (inner sh)" "s \<noteq> - 1" "cursor \<le> entry_key s"
    and least: "\<And>x u. m x = Some u \<Longrightarrow> cursor \<le> entry_key x \<Longrightarrow> s \<le> x"
  shows "reserve_post m sh cursor st res sh'"
proof -
  have later: "s < x \<or> x \<in> reserved (inner sh)" if "m x = Some u" "cursor \<le> entry_key x" for x u
    using least [OF that] s(1) by (cases "s = x") auto
  have after: "cursor \<le> entry_key x" if "s < x" for x
    using s(3) that by (meson entry_key_le_iff less_imp_le order.trans)
  note le = inc_le_iff [OF s(2)]
  show ?thesis
  proof (cases res)
    case (Ok ro)
    show ?thesis
    proof (cases ro)
      case None
      with assms(1) Ok later show ?thesis by (auto simp: reserve_post_def le)
    next
      case (Some r)
      have "passed m (reserved (inner sh)) (entry_key (s + 1)) q \<Longrightarrow> passed m (reserved (inner sh)) cursor q" for q
        using later unfolding passed_def entry_key_le_iff le by blast
      with assms(1) Ok Some after show ?thesis by (auto simp: reserve_post_def le)
    qed
  qed (use assms(1) in \<open>auto simp: reserve_post_def\<close>)
qed

context store_contract begin

lemma reserve_loop_result:
  assumes "sinv (store sh)" and "only_queue_keys (view (store sh))" and "META_KEY < cursor"
  shows "\<exists>res sh' st'. reserve_loop S sh cursor = Some (res, sh') \<and> sinv st' \<and> view st' = view (store sh) \<and>
    reserve_post (items_of (view (store sh))) sh cursor st' res sh' \<and>
    (\<forall>e. res = Err e \<longrightarrow> (\<exists>s c. fst (seek S s c) = Inl e))"
  using assms
proof (induction "card (dom (items_from (items_of (view (store sh))) cursor))" arbitrary: sh cursor
    rule: less_induct)
  case less
  let ?m = "items_of (view (store sh))"
  obtain q st1 where sk: "seek S (store sh) cursor = (q, st1)" by fastforce
  note keeps = seek_keeps [OF less.prems(1) sk]
  note step = reserve_loop.simps [of S sh cursor]
  show ?case
  proof (cases q)
    case (Inl e)
    have "reserve_loop S sh cursor = Some (Err e, sh\<lparr>store := st1\<rparr>)" by (simp add: step sk Inl)
    moreover have "\<exists>s c. fst (seek S s c) = Inl e" using sk Inl by (metis fst_conv)
    ultimately show ?thesis using keeps by (auto simp: reserve_post_def)
  next
    case (Inr kv)
    have "least_from (view (store sh)) cursor kv"
      using seek_reads less.prems(1) sk Inr by blast
    then show ?thesis
      using less.prems(2,3)
    proof (cases rule: least_from_entry)
      case 1
      then have "reserve_loop S sh cursor = Some (Ok None, sh\<lparr>store := st1\<rparr>)" by (simp add: step sk Inr)
      moreover have "\<not> cursor \<le> entry_key x" if "?m x = Some v" for x v
        using 1(2) that by (force simp: entry_from_def)
      ultimately show ?thesis using keeps by (auto simp: reserve_post_def)
    next
      case (2 s v)
      have f: "?m s = Some v" "cursor \<le> entry_key s"
        and least: "\<And>x u. ?m x = Some u \<Longrightarrow> cursor \<le> entry_key x \<Longrightarrow> s \<le> x"
        using 2(2) by (auto simp: entry_from_def)
      have pass: "passed ?m T cursor s" for T
        unfolding passed_def using least by (meson leD)
      consider "s \<notin> reserved (inner sh)" | "s \<in> reserved (inner sh)" "s = - 1"
        | "s \<in> reserved (inner sh)" "s \<noteq> - 1" by blast
      then show ?thesis
      proof cases
        case 1
        then have "reserve_loop S sh cursor = Some (Ok (Some \<lparr>res_seq = s, res_value = v, res_done = False\<rparr>),
          sh\<lparr>store := st1, inner := (inner sh)\<lparr>reserved := insert s (reserved (inner sh))\<rparr>\<rparr>)"
          by (simp add: step sk Inr 2(1) reserve_check_def)
        with f pass 1 keeps show ?thesis by (auto simp: reserve_post_def)
      next
        case 2
        then have "reserve_loop S sh cursor = Some (Panic, sh\<lparr>store := st1\<rparr>)"
          by (simp add: step sk Inr \<open>kv = _\<close> reserve_check_def checked_inc_def)
        with f 2 keeps show ?thesis by (auto simp: reserve_post_def)
      next
        case 3
        let ?f = "items_from ?m cursor"
        have nf: "items_from ?m (entry_key (s + 1)) = ?f(s := None)" "?f s = Some v"
          using items_from_next [OF 2(2) 3(2)] by simp_all
        have "card (dom (?f(s := None))) < card (dom ?f)"
          using card_dom_remove [of ?f s v, OF nf(2)] by simp
        then obtain res sh' st' where
          IH: "reserve_loop S (sh\<lparr>store := st1\<rparr>) (entry_key (s + 1)) = Some (res, sh')"
            "sinv st'" "view st' = view (store sh)" "\<forall>e. res = Err e \<longrightarrow> (\<exists>s c. fst (seek S s c) = Inl e)"
          and post: "reserve_post ?m (sh\<lparr>store := st1\<rparr>) (entry_key (s + 1)) st' res sh'"
          using less.hyps [of "sh\<lparr>store := st1\<rparr>" "entry_key (s + 1)"] keeps less.prems(2) nf(1) by auto
        moreover have "reserve_loop S sh cursor = reserve_loop S (sh\<lparr>store := st1\<rparr>) (entry_key (s + 1))"
          using 3 by (simp add: step sk Inr 2(1) reserve_check_def checked_inc_def)
        ultimately show ?thesis
          using reserve_post_skip [OF post 3 f(2) least] by auto
      qed
    qed
  qed
qed

end

section \<open>Operations over an atomic store\<close>

context atomic_store begin

lemma commit_put:
  assumes "sinv (store sh)" and "commit_to S sh [Put (entry_key q) v] d = (r, sh1)"
  shows "sh1 = sh\<lparr>store := store sh1\<rparr>" "sinv (store sh1)"
    "view (store sh1) = (if r = Inr () then (view (store sh))(entry_key q \<mapsto> v) else view (store sh))"
proof -
  obtain st where c: "commit S (store sh) [Put (entry_key q) v] d = (r, st)" "sh1 = sh\<lparr>store := st\<rparr>"
    using assms(2) by (auto simp: commit_to_def split: prod.splits)
  then show "sh1 = sh\<lparr>store := store sh1\<rparr>" "sinv (store sh1)"
    using commit_keeps assms(1) by auto
  show "view (store sh1) = (if r = Inr () then (view (store sh))(entry_key q \<mapsto> v) else view (store sh))"
    using c commit_ok [OF assms(1)] commit_err_unchanged [OF assms(1)] by (cases r) auto
qed

lemma commit_to_cause: "commit_to S x ops d = (r, y) \<Longrightarrow> fst (commit S (store x) ops d) = r"
  by (auto simp: commit_to_def split: prod.splits)

text \<open>One thread alone is always the leader, of a batch of its own entry.\<close>

lemma group_commit_alone:
  assumes "sinv (store sh)" and "group_state sh = group_default"
  obtains r sh1 where "group_commit S sh q v = Some (r, sh1)" "sh1 = sh\<lparr>store := store sh1\<rparr>"
    "sinv (store sh1)" "\<forall>e. r = Inl e \<longrightarrow> (\<exists>st ops d. fst (commit S st ops d) = Inl e)"
    "view (store sh1) = (if r = Inr () then (view (store sh))(entry_key q \<mapsto> v) else view (store sh))"
proof -
  let ?g = "group_default\<lparr>pending := [], flushing := True\<rparr>"
  let ?sh = "sh\<lparr>group_state := ?g\<rparr>"
  obtain c sh1 where c: "commit_to S ?sh [Put (entry_key q) v] True = (c, sh1)" by fastforce
  note p1 = commit_put [OF _ c]
  let ?sh2 = "sh1\<lparr>group_state := group_default\<rparr>"
  obtain c2 sh3 where c2: "commit_to S ?sh2 [Put (entry_key q) v] True = (c2, sh3)" by fastforce
  note p2 = commit_put [OF _ c2]
  have gs: "group_state sh1 = ?g" using p1(1) assms(1) by (cases sh1) auto
  have "group_commit S sh q v = Some (if c = Inr () then (Inr (), ?sh2) else (c2, sh3))"
    using c c2 gs
    by (simp add: group_commit_def group_lead.simps group_enqueue_def group_take_def group_record_def
        group_outcome_def group_default_def batch_ops_def assms(2) Let_def fun_upd_idem)
  moreover have "\<forall>e. (if c = Inr () then Inr () else c2) = Inl e \<longrightarrow> (\<exists>st ops d. fst (commit S st ops d) = Inl e)"
    using commit_to_cause [OF c2] by auto
  ultimately show thesis
    using that [of "if c = Inr () then Inr () else c2" "if c = Inr () then ?sh2 else sh3"]
      p1 p2 assms by (cases sh; cases sh1; cases sh3) (auto split: if_splits)
qed

lemma entry_write:
  assumes "sinv (store sh)" and "group_state sh = group_default"
  obtains r sh1 where
    "(if group sh then group_commit S sh q v
      else Some (commit_to S sh [Put (entry_key q) v] (durable sh))) = Some (r, sh1)"
    "sh1 = sh\<lparr>store := store sh1\<rparr>" "sinv (store sh1)" "\<forall>e. r = Inl e \<longrightarrow> (\<exists>st ops d. fst (commit S st ops d) = Inl e)"
    "view (store sh1) = (if r = Inr () then (view (store sh))(entry_key q \<mapsto> v) else view (store sh))"
proof (cases "group sh")
  case True
  obtain r sh1 where "group_commit S sh q v = Some (r, sh1)" "sh1 = sh\<lparr>store := store sh1\<rparr>"
    "sinv (store sh1)" "\<forall>e. r = Inl e \<longrightarrow> (\<exists>st ops d. fst (commit S st ops d) = Inl e)"
    "view (store sh1) = (if r = Inr () then (view (store sh))(entry_key q \<mapsto> v) else view (store sh))"
    using assms by (rule group_commit_alone)
  then show thesis using that True by simp
next
  case False
  obtain r sh1 where c: "commit_to S sh [Put (entry_key q) v] (durable sh) = (r, sh1)" by fastforce
  from commit_put [OF assms(1) c] commit_to_cause [OF c] c False show thesis by (intro that) (simp_all, blast)
qed

lemma write_refines:
  assumes "sinv (store sh)" and wf: "wf_queue (view (store sh)) sh"
    and cl: "claim (inner sh) (length v) = Some (seq, i)"
  obtains res sh' where "write_entry S (sh\<lparr>inner := i\<rparr>) seq v = Some (res, sh')" "sinv (store sh')"
    "wf_queue (view (store sh')) sh'" "res \<noteq> Panic"
    "res = Ok () \<Longrightarrow> abs_queue (view (store sh')) sh' = a_push (abs_queue (view (store sh)) sh) v"
    "\<And>e. res = Err e \<Longrightarrow> abs_queue (view (store sh')) sh' = a_burn (abs_queue (view (store sh)) sh)"
    "\<And>e. res = Err e \<Longrightarrow> \<exists>st ops d. fst (commit S st ops d) = Inl e"
    "capacity sh' = capacity sh" "max_bytes sh' = max_bytes sh"
proof -
  let ?sh = "sh\<lparr>inner := i\<rparr>"
  have "sinv (store ?sh)" "group_state ?sh = group_default"
    using assms(1) wf_queueD(8) [OF wf] by simp_all
  then obtain r sh1 where w: "(if group ?sh then group_commit S ?sh seq v
      else Some (commit_to S ?sh [Put (entry_key seq) v] (durable ?sh))) = Some (r, sh1)"
    and sh1: "sh1 = ?sh\<lparr>store := store sh1\<rparr>" and inv: "sinv (store sh1)" and why: "\<forall>e. r = Inl e \<longrightarrow> (\<exists>st ops d. fst (commit S st ops d) = Inl e)"
    and vw: "view (store sh1) = (if r = Inr () then (view (store ?sh))(entry_key seq \<mapsto> v) else view (store ?sh))"
    by (rule entry_write)
  have wr: "write_entry S ?sh seq v = Some (case r of
         Inr _ \<Rightarrow> (Ok (), sh1)
       | Inl e \<Rightarrow> (case give_back (inner sh1) (length v) of
                    None \<Rightarrow> (Panic, sh1)
                  | Some i \<Rightarrow> (Err e, sh1\<lparr>inner := i\<rparr>)))"
    unfolding write_entry_def w by simp
  show thesis
  proof (cases r)
    case (Inr u)
    have s1: "sh1 = sh\<lparr>inner := i, store := store sh1\<rparr>" using sh1 by simp
    then have "capacity sh1 = capacity sh" "max_bytes sh1 = max_bytes sh" by (cases sh; cases sh1; simp)+
    note s1 this
    with wf_claim [OF wf cl, of "store sh1"] vw Inr wr inv show thesis
      by (intro that [of "Ok ()" sh1]) simp_all
  next
    case (Inl e)
    obtain j where j: "give_back i (length v) = Some j" "wf_queue (view (store sh)) (sh\<lparr>inner := j, store := store sh1\<rparr>)"
      "abs_queue (view (store sh)) (sh\<lparr>inner := j, store := store sh1\<rparr>) = a_burn (abs_queue (view (store sh)) sh)"
      using wf_burn [OF wf cl] by blast
    have i1: "inner sh1 = i" using sh1 by (metis Shared.select_convs(7) Shared.surjective Shared.update_convs(1,7))
    have eq: "sh1\<lparr>inner := j\<rparr> = sh\<lparr>inner := j, store := store sh1\<rparr>"
      by (subst sh1) simp
    have "\<exists>st ops d. fst (commit S st ops d) = Inl e" using why Inl by blast
    then show thesis
      using j vw Inl wr inv i1 eq by (intro that [of "Err e" "sh1\<lparr>inner := j\<rparr>"]) (simp_all del: give_back_eq_Some)
  qed
qed

lemma ack_refines:
  assumes "sinv (store sh)" and wf: "wf_queue (view (store sh)) sh"
    and "res_seq r \<in> reserved (inner sh)" and "items_of (view (store sh)) (res_seq r) = Some (res_value r)"
    and "\<not> res_done r"
  obtains res sh' where "ack S sh r = (res, sh')" "sinv (store sh')" "wf_queue (view (store sh')) sh'"
    "res \<noteq> Panic" "res = Ok () \<Longrightarrow> abs_queue (view (store sh')) sh' = a_ack (abs_queue (view (store sh)) sh) (res_seq r)"
    "\<And>e. res = Err e \<Longrightarrow> (\<exists>st ops d. fst (commit S st ops d) = Inl e) \<and>
      abs_queue (view (store sh')) sh' = a_nack (abs_queue (view (store sh)) sh) (res_seq r)"
proof -
  let ?k = "entry_key (res_seq r)"
  obtain c st where c: "commit S (store sh) [Delete ?k] (ack_durable sh) = (c, st)" by fastforce
  have inv: "sinv st" using commit_keeps assms(1) c by blast
  show thesis
  proof (cases c)
    case (Inl e)
    have same: "view st = view (store sh)" using commit_err_unchanged assms(1) c Inl by blast
    have "ack S sh r = (Err e, release (sh\<lparr>store := st\<rparr>) r)"
      by (simp add: ack_def commit_to_def c Inl drop_reserved_def assms(5))
    moreover have "wf_queue (view (store sh)) (release (sh\<lparr>store := st\<rparr>) r)"
      using wf by (intro wf_release wf_store)
    moreover have "\<exists>st ops d. fst (commit S st ops d) = Inl e" using c Inl by (metis fst_conv)
    ultimately show thesis
      using inv same
      by (intro that [of "Err e" "release (sh\<lparr>store := st\<rparr>) r"])
        (auto simp: release_def release_inner_def abs_queue_def a_nack_def)
  next
    case (Inr u)
    have vw: "view st = (view (store sh))(?k := None)" using commit_ok [OF assms(1)] c Inr by simp
    obtain i where i: "ack_finish (inner sh) (res_seq r) (length (res_value r)) = Some i"
      "wf_queue (view st) (sh\<lparr>store := st, inner := i\<rparr>)"
      "abs_queue (view st) (sh\<lparr>store := st, inner := i\<rparr>) = a_ack (abs_queue (view (store sh)) sh) (res_seq r)"
      using wf_ack [OF wf assms(3,4), of st] unfolding vw by blast
    have "ack S sh r = (Ok (), sh\<lparr>store := st, inner := i\<rparr>)"
      by (simp add: ack_def commit_to_def c Inr drop_reserved_def i(1))
    with i(2,3) inv show thesis
      by (intro that [of "Ok ()" "sh\<lparr>store := st, inner := i\<rparr>"]) simp_all
  qed
qed

lemma reserve_refines:
  assumes "sinv (store sh)" and wf: "wf_queue (view (store sh)) sh"
  obtains res sh' where "reserve S sh = Some (res, sh')" "sinv (store sh')"
    "view (store sh') = view (store sh)" "wf_queue (view (store sh')) sh'" "res \<noteq> Panic"
    "\<And>r. res = Ok (Some r) \<Longrightarrow> \<not> res_done r \<and>
      a_reserve (abs_queue (view (store sh)) sh) =
        Some (res_seq r, res_value r, abs_queue (view (store sh')) sh')"
    "res = Ok None \<Longrightarrow> a_reserve (abs_queue (view (store sh)) sh) = None"
    "\<And>e. res = Err e \<Longrightarrow> \<exists>s c. fst (seek S s c) = Inl e"
    "\<forall>r. res \<noteq> Ok (Some r) \<Longrightarrow> abs_queue (view (store sh')) sh' = abs_queue (view (store sh)) sh"
proof -
  let ?m = "items_of (view (store sh))"
  let ?c = "entry_key (head (inner sh))"
  note d = wf_queueD [OF wf]
  obtain res sh' st' where
    r: "reserve S sh = Some (res, sh')" "sinv st'" "view st' = view (store sh)"
      "\<forall>e. res = Err e \<longrightarrow> (\<exists>s c. fst (seek S s c) = Inl e)"
    and post: "reserve_post ?m sh ?c st' res sh'"
    using reserve_loop_result [OF assms(1) d(1), of ?c] by (auto simp: reserve_def)
  have above: "?c \<le> entry_key x" if "?m x = Some v" for x v
    using d(4) [OF that] by simp
  show thesis
  proof (cases res)
    case Panic
    with post d(4) [of "- 1"] show thesis by (auto simp: reserve_post_def)
  next
    case (Err e)
    with post have "sh' = sh\<lparr>store := st'\<rparr>" by (simp add: reserve_post_def)
    with r Err wf show thesis
      by (intro that [of res sh']) (auto simp: wf_store abs_queue_def)
  next
    case (Ok ro)
    show thesis
    proof (cases ro)
      case None
      with post Ok have sh': "sh' = sh\<lparr>store := st'\<rparr>" and "\<forall>x v. ?m x = Some v \<longrightarrow> x \<in> reserved (inner sh)"
        using above by (auto simp: reserve_post_def)
      then have "a_reserve (abs_queue (view (store sh)) sh) = None"
        by (auto simp: a_reserve_def a_ready_def abs_queue_def)
      with sh' r Ok None wf show thesis
        by (intro that [of res sh']) (auto simp: wf_store abs_queue_def)
    next
      case (Some g)
      with post Ok have g: "?m (res_seq g) = Some (res_value g)" "res_seq g \<notin> reserved (inner sh)" "\<not> res_done g"
        "passed ?m (reserved (inner sh)) ?c (res_seq g)"
        and sh': "sh' = sh\<lparr>store := st', inner := (inner sh)\<lparr>reserved := insert (res_seq g) (reserved (inner sh))\<rparr>\<rparr>"
        by (simp_all add: reserve_post_def)
      let ?ready = "a_ready (abs_queue (view (store sh)) sh)"
      have ready: "res_seq g \<in> ?ready" using g by (auto simp: a_ready_def abs_queue_def)
      have "Min ?ready = res_seq g"
      proof (rule Min_eqI)
        fix y assume "y \<in> ?ready"
        then obtain v where "?m y = Some v" "y \<notin> reserved (inner sh)" by (auto simp: a_ready_def abs_queue_def)
        with g(4) above show "res_seq g \<le> y" unfolding passed_def by (meson linorder_not_le)
      qed (use ready in simp_all)
      then have "a_reserve (abs_queue (view (store sh)) sh) =
          Some (res_seq g, res_value g, abs_queue (view (store sh')) sh')"
        using ready g sh' r(3) by (auto simp: a_reserve_def Let_def abs_queue_def)
      moreover have "wf_queue (view (store sh)) sh'"
        unfolding sh' using wf g(1) by (intro wf_reserve) auto
      ultimately show thesis
        using sh' r Ok Some g by (intro that [of res sh']) auto
    qed
  qed
qed

lemma try_push_abs:
  assumes "sinv (store sh)" and "wf_queue (view (store sh)) sh"
  shows "\<exists>res sh'. try_push S sh v = Some (res, sh') \<and> sinv (store sh') \<and> wf_queue (view (store sh')) sh' \<and>
    (res = Err Try_Closed \<longleftrightarrow> closed (inner sh)) \<and>
    (res = Err Try_Full \<longleftrightarrow> \<not> closed (inner sh) \<and> \<not> admits sh (len (inner sh)) (bytes (inner sh)) (length v)) \<and>
    (res = Panic \<longleftrightarrow> enter sh (length v) = Overflow) \<and>
    (case res of
       Ok _ \<Rightarrow> abs_queue (view (store sh')) sh' = a_push (abs_queue (view (store sh)) sh) v
     | Err (Try_Store e) \<Rightarrow> abs_queue (view (store sh')) sh' = a_burn (abs_queue (view (store sh)) sh)
     | _ \<Rightarrow> sh' = sh)"
proof (cases "enter sh (length v)")
  case (Admitted seq i)
  then have cl: "claim (inner sh) (length v) = Some (seq, i)" "\<not> closed (inner sh)"
    "admits sh (len (inner sh)) (bytes (inner sh)) (length v)"
    by simp_all
  obtain res sh' where "write_entry S (sh\<lparr>inner := i\<rparr>) seq v = Some (res, sh')" "sinv (store sh')"
    "wf_queue (view (store sh')) sh'" "res \<noteq> Panic"
    "res = Ok () \<Longrightarrow> abs_queue (view (store sh')) sh' = a_push (abs_queue (view (store sh)) sh) v"
    "\<And>e. res = Err e \<Longrightarrow> abs_queue (view (store sh')) sh' = a_burn (abs_queue (view (store sh)) sh)"
    by (rule write_refines [OF assms cl(1)], rule that) (assumption | blast)+
  with Admitted cl(2,3) show ?thesis
    by (cases res) (auto simp: try_push_def simp del: enter_eq_Admitted)
next
  case Overflow
  then have "\<not> closed (inner sh)" "admits sh (len (inner sh)) (bytes (inner sh)) (length v)"
    by (auto simp: enter_def split: if_splits)
  with Overflow assms show ?thesis by (auto simp: try_push_def)
qed (use assms in \<open>auto simp: try_push_def enter_def split: if_splits option.splits\<close>)

lemma push_abs:
  assumes "sinv (store sh)" and "wf_queue (view (store sh)) sh"
  shows "push S sh v =
    (if \<not> closed (inner sh) \<and> \<not> admits sh (len (inner sh)) (bytes (inner sh)) (length v) then None
     else map_option (\<lambda>(r, sh'). ((case r of
         Ok u \<Rightarrow> Ok u
       | Err Try_Closed \<Rightarrow> Err Push_Closed
       | Err (Try_Store e) \<Rightarrow> Err (Push_Store e)
       | Err Try_Full \<Rightarrow> Panic
       | Panic \<Rightarrow> Panic), sh')) (try_push S sh v)) \<and>
    (push S sh v = None \<longrightarrow> try_push S sh v = Some (Err Try_Full, sh))"
proof (cases "enter sh (length v)")
  case (Admitted seq i)
  then have cl: "claim (inner sh) (length v) = Some (seq, i)" "\<not> closed (inner sh)"
    "admits sh (len (inner sh)) (bytes (inner sh)) (length v)"
    by simp_all
  obtain res sh' where "write_entry S (sh\<lparr>inner := i\<rparr>) seq v = Some (res, sh')"
    by (rule write_refines [OF assms cl(1)], rule that) (assumption | blast)+
  with Admitted cl(2,3) show ?thesis
    by (cases res) (auto simp: try_push_def push_def simp del: enter_eq_Admitted)
next
  case Overflow
  then have "\<not> closed (inner sh)" "admits sh (len (inner sh)) (bytes (inner sh)) (length v)"
    by (auto simp: enter_def split: if_splits)
  with Overflow show ?thesis by (auto simp: try_push_def push_def)
qed (auto simp: try_push_def push_def enter_def split: if_splits option.splits)

end

section \<open>A concrete queue\<close>

text \<open>One item in a \<open>MemStore\<close>, used by the witnesses.\<close>

definition demo_store :: mem_store where
  "demo_store = [(META_KEY, [FORMAT_VERSION]), (entry_key 0, [7])]"

definition demo_queue :: "mem_store Shared" where
  "demo_queue = \<lparr>store = demo_store, capacity = 4, max_bytes = 100, durable = True,
     ack_durable = True, group = False,
     inner = \<lparr>tail = 1, head = 0, acked_above = {}, len = 1, bytes = 1, reserved = {}, closed = False\<rparr>,
     group_state = group_default\<rparr>"

definition demo_taken :: "mem_store Shared" where
  "demo_taken = demo_queue\<lparr>inner := (inner demo_queue)\<lparr>reserved := {0}\<rparr>\<rparr>"

lemma demo_items: "items_of (map_of demo_store) = [0 \<mapsto> [7]]"
  by (simp add: demo_store_def)

lemma demo_ordered: "bt_ordered demo_store"
  by (simp add: demo_store_def)

lemma demo_keys: "only_queue_keys (map_of demo_store)"
  by (simp add: demo_store_def)

lemma demo_wf: "wf_queue (map_of demo_store) demo_queue"
  using demo_keys by (simp add: wf_queue_def Let_def demo_items demo_queue_def weight_def)

lemma demo_taken_wf: "wf_queue (map_of demo_store) demo_taken"
  using demo_keys by (simp add: wf_queue_def Let_def demo_items demo_queue_def demo_taken_def weight_def)

lemma demo_sel [simp]: "store demo_queue = demo_store" "store demo_taken = demo_store"
  "reserved (inner demo_taken) = {0}"
  by (simp_all add: demo_queue_def demo_taken_def)

section \<open>Properties: refinement of the abstract queue\<close>

text \<open>C15. \<open>try_push\<close> over an atomic store keeps the queue well-formed and refines the abstract push
  on every branch: \<open>Closed\<close> and \<open>Full\<close> exactly when the queue is closed or does not admit the
  value, changing nothing; success appends the value at the next number; a store error burns the
  number and gives the slot back; a panic only where the counters or the number overflow.\<close>

theorem try_push_refines:
  assumes "atomic_store S sinv view" and "sinv (store sh)" and "wf_queue (view (store sh)) sh"
  shows "\<exists>res sh'. try_push S sh v = Some (res, sh') \<and> sinv (store sh') \<and> wf_queue (view (store sh')) sh' \<and>
    (res = Err Try_Closed \<longleftrightarrow> closed (inner sh)) \<and>
    (res = Err Try_Full \<longleftrightarrow> \<not> closed (inner sh) \<and> \<not> admits sh (len (inner sh)) (bytes (inner sh)) (length v)) \<and>
    (res = Panic \<longleftrightarrow> enter sh (length v) = Overflow) \<and>
    (case res of
       Ok _ \<Rightarrow> abs_queue (view (store sh')) sh' = a_push (abs_queue (view (store sh)) sh) v
     | Err (Try_Store e) \<Rightarrow> abs_queue (view (store sh')) sh' = a_burn (abs_queue (view (store sh)) sh)
     | _ \<Rightarrow> sh' = sh)"
  by (rule atomic_store.try_push_abs [OF assms])

theorem try_push_refines_witness:
  "\<exists>res sh'. try_push (MemStore :: (mem_store, unit) Store) demo_queue [8, 9] = Some (res, sh') \<and>
    wf_queue (map_of (store sh')) sh' \<and> res = Ok () \<and>
    abs_queue (map_of (store sh')) sh' = a_push (abs_queue (map_of demo_store) demo_queue) [8, 9]"
proof -
  have enter: "\<not> closed (inner demo_queue)"
    "admits demo_queue (len (inner demo_queue)) (bytes (inner demo_queue)) (length [8 :: byte, 9])"
    "enter demo_queue (length [8 :: byte, 9]) \<noteq> Overflow"
    by (simp_all add: demo_queue_def admits_def saturating_add_def enter_def claim_def checked_inc_def
        checked_add_def)
  have hyps: "atomic_store (MemStore :: (mem_store, unit) Store) bt_ordered map_of"
    "bt_ordered (store demo_queue)" "wf_queue (map_of (store demo_queue)) demo_queue"
    using mem.atomic_store_axioms demo_ordered demo_wf by simp_all
  have no_err: "fst (commit (MemStore :: (mem_store, unit) Store) st ops d) \<noteq> Inl e" for st ops d e
    by (simp add: mem_commit_def)
  have "write_entry (MemStore :: (mem_store, unit) Store) (demo_queue\<lparr>inner := i\<rparr>) q v \<noteq> Some (Err e, sh')" for i q v e sh'
    by (simp add: write_entry_def commit_to_def mem_commit_def demo_queue_def)
  then have "try_push (MemStore :: (mem_store, unit) Store) demo_queue [8, 9] \<noteq> Some (Err (Try_Store e), sh')" for e sh'
    using enter by (auto simp: try_push_def write_entry_def commit_to_def mem_commit_def demo_queue_def split: admission.splits)
  with try_push_refines [OF hyps, of "[8, 9]"] enter show ?thesis
  proof (elim exE, goal_cases)
    case (1 res sh')
    then show ?case by (cases res) (auto split: TryPushError.splits)
  qed
qed

text \<open>\<open>push\<close> waits exactly when the queue is open and does not admit the value; otherwise it
  returns, and agrees with \<open>try_push\<close> up to the names of the errors.\<close>

theorem push_waits_or_agrees:
  assumes "atomic_store S sinv view" and "sinv (store sh)" and "wf_queue (view (store sh)) sh"
  shows "push S sh v =
    (if \<not> closed (inner sh) \<and> \<not> admits sh (len (inner sh)) (bytes (inner sh)) (length v) then None
     else map_option (\<lambda>(r, sh'). ((case r of
         Ok u \<Rightarrow> Ok u
       | Err Try_Closed \<Rightarrow> Err Push_Closed
       | Err (Try_Store e) \<Rightarrow> Err (Push_Store e)
       | Err Try_Full \<Rightarrow> Panic
       | Panic \<Rightarrow> Panic), sh')) (try_push S sh v)) \<and>
    (push S sh v = None \<longrightarrow> try_push S sh v = Some (Err Try_Full, sh))"
  by (rule atomic_store.push_abs [OF assms])

theorem push_waits_or_agrees_witness:
  "push (MemStore :: (mem_store, unit) Store) (demo_queue\<lparr>capacity := 1\<rparr>) [8] = None \<and>
   try_push (MemStore :: (mem_store, unit) Store) (demo_queue\<lparr>capacity := 1\<rparr>) [8] =
     Some (Err Try_Full, demo_queue\<lparr>capacity := 1\<rparr>)"
proof -
  let ?sh = "demo_queue\<lparr>capacity := 1\<rparr>"
  have hyps: "atomic_store (MemStore :: (mem_store, unit) Store) bt_ordered map_of"
    "bt_ordered (store ?sh)" "wf_queue (map_of (store ?sh)) ?sh"
    using mem.atomic_store_axioms demo_ordered demo_wf by (simp_all add: wf_queue_def)
  have "\<not> closed (inner ?sh)" "\<not> admits ?sh (len (inner ?sh)) (bytes (inner ?sh)) (length [8 :: byte])"
    by (simp_all add: demo_queue_def admits_def)
  with push_waits_or_agrees [OF hyps, of "[8]"] show ?thesis by simp
qed

text \<open>C16. \<open>reserve\<close> returns, never panics, and refines the abstract reserve: it delivers the item
  with the smallest number that is not in flight, with the value pushed, and reports nothing only
  when every item is in flight; a store error changes nothing.\<close>

theorem reserve_refines_abs:
  assumes "atomic_store S sinv view" and "sinv (store sh)" and "wf_queue (view (store sh)) sh"
  shows "\<exists>res sh'. reserve S sh = Some (res, sh') \<and> sinv (store sh') \<and> wf_queue (view (store sh')) sh' \<and>
    (case res of
       Ok (Some r) \<Rightarrow> a_reserve (abs_queue (view (store sh)) sh) =
         Some (res_seq r, res_value r, abs_queue (view (store sh')) sh')
     | Ok None \<Rightarrow> a_reserve (abs_queue (view (store sh)) sh) = None \<and>
         abs_queue (view (store sh')) sh' = abs_queue (view (store sh)) sh
     | Err e \<Rightarrow> (\<exists>s c. fst (seek S s c) = Inl e) \<and>
         abs_queue (view (store sh')) sh' = abs_queue (view (store sh)) sh
     | Panic \<Rightarrow> False)"
  by (rule atomic_store.reserve_refines [OF assms], rule exI, rule exI)
    (auto split: outcome.split option.split)

theorem reserve_refines_abs_witness:
  "\<exists>r sh'. reserve (MemStore :: (mem_store, unit) Store) demo_queue = Some (Ok (Some r), sh') \<and>
    res_seq r = 0 \<and> res_value r = [7]"
proof -
  have hyps: "atomic_store (MemStore :: (mem_store, unit) Store) bt_ordered map_of"
    "bt_ordered (store demo_queue)" "wf_queue (map_of (store demo_queue)) demo_queue"
    using mem.atomic_store_axioms demo_ordered demo_wf by simp_all
  have "a_reserve (abs_queue (map_of demo_store) demo_queue) =
      Some (0, [7], (abs_queue (map_of demo_store) demo_queue)\<lparr>a_taken := {0}\<rparr>)"
    by (simp add: a_reserve_def a_ready_def abs_queue_def demo_items Let_def) (simp add: demo_queue_def)
  moreover have "fst (seek (MemStore :: (mem_store, unit) Store) s c) \<noteq> Inl e" for s c e
    by (simp add: mem_seek_def)
  ultimately show ?thesis
    using reserve_refines_abs [OF hyps]
  proof (elim exE, goal_cases)
    case (1 res sh')
    then show ?case by (cases res) (auto split: option.splits)
  qed
qed

text \<open>C17. Acknowledging an item in flight never panics: success removes it from the queue, and a
  store error puts it back for redelivery.\<close>

theorem ack_refines_abs:
  assumes "atomic_store S sinv view" and "sinv (store sh)" and "wf_queue (view (store sh)) sh"
    and "res_seq r \<in> reserved (inner sh)" and "items_of (view (store sh)) (res_seq r) = Some (res_value r)"
    and "\<not> res_done r"
  shows "\<exists>res sh'. ack S sh r = (res, sh') \<and> sinv (store sh') \<and> wf_queue (view (store sh')) sh' \<and>
    (case res of
       Ok _ \<Rightarrow> abs_queue (view (store sh')) sh' = a_ack (abs_queue (view (store sh)) sh) (res_seq r)
     | Err e \<Rightarrow> (\<exists>st ops d. fst (commit S st ops d) = Inl e) \<and>
         abs_queue (view (store sh')) sh' = a_nack (abs_queue (view (store sh)) sh) (res_seq r)
     | Panic \<Rightarrow> False)"
  by (rule atomic_store.ack_refines [OF assms], rule exI, rule exI) (auto split: outcome.split)

theorem ack_refines_abs_witness:
  "\<exists>sh'. ack (MemStore :: (mem_store, unit) Store) demo_taken \<lparr>res_seq = 0, res_value = [7], res_done = False\<rparr> =
      (Ok (), sh') \<and> a_items (abs_queue (map_of (store sh')) sh') = Map.empty"
proof -
  have hyps: "atomic_store (MemStore :: (mem_store, unit) Store) bt_ordered map_of"
    "bt_ordered (store demo_taken)" "wf_queue (map_of (store demo_taken)) demo_taken"
    using mem.atomic_store_axioms demo_ordered demo_taken_wf by simp_all
  have "fst (commit (MemStore :: (mem_store, unit) Store) st ops d) \<noteq> Inl e" for st ops d e
    by (simp add: mem_commit_def)
  moreover have "a_items (a_ack (abs_queue (map_of demo_store) demo_taken) 0) = Map.empty"
    by (simp add: a_ack_def a_nack_def abs_queue_def demo_items)
  ultimately show ?thesis
    using ack_refines_abs [OF hyps, of "\<lparr>res_seq = 0, res_value = [7], res_done = False\<rparr>"]
  proof (simp add: demo_items, elim exE, goal_cases)
    case (1 res sh')
    then show ?case by (cases res) auto
  qed
qed

end
