(* ===== verification/Machine.thy ===== *)
theory Machine imports Delivery "HOL-Library.Multiset" begin

text \<open>
  Many threads on one queue (\<open>src/src/queue.rs\<close>). The state is the shared state, the multiset
  \<open>flight\<close> of the threads that are inside an operation, each at a program counter between two
  atomic actions, and the multiset \<open>guards\<close> of live \<open>Reserved\<close> guards. A step is one atomic
  action of one thread: a critical section of \<open>inner\<close> or of \<open>group_state\<close>, one store call
  (made outside the locks), or a notification. Which thread moves is not determined.

  \<open>room\<close> is the pair of \<open>Parked\<close> (waiting on the condition variable) and \<open>Woken\<close> (notified or
  woken spuriously, about to take the lock again). An operation that returns leaves \<open>flight\<close>.
  A \<open>push\<close> on a closed queue and a \<open>try_push\<close> on a closed or full one return at once and
  change nothing, so they have no step; the other cases of both start with \<open>push_claim\<close>.
  \<open>len\<close>, \<open>is_empty\<close> and \<open>is_drained\<close> only read.

  A section that overflows panics with the lock held, which poisons \<open>inner\<close>: every later
  \<open>lock().unwrap()\<close> panics too, so no section of \<open>inner\<close> runs any more.

  Ghost fields record the history: \<open>assigned\<close> the value of each number ever claimed (or found by
  \<open>open\<close>), \<open>accepted\<close> those whose push returned \<open>Ok\<close> (or found by \<open>open\<close>), \<open>ack_tried\<close> the
  numbers some ack has tried to delete, \<open>delivered\<close> the deliveries in order.
\<close>

section \<open>State\<close>

datatype pc =
    Parked val
  | Woken val
  | Claimed u64 val
  | Failed u64 val
  | NotifyOne
  | NotifyAll
  | GWait u64 val
  | GFlush u64 val "(u64 \<times> val) list"
  | GRecord u64 val "(u64 \<times> val) list" bool
  | GRetry u64 val
  | RSeek key
  | RCheck u64 val
  | AckFin u64 val
  | Release u64

record 's Sys =
  shared :: "'s Shared"
  flight :: "pc multiset"
  guards :: "(u64 \<times> val) multiset"
  poisoned :: bool
  assigned :: "u64 \<rightharpoonup> val"
  accepted :: "u64 \<rightharpoonup> val"
  ack_tried :: "u64 set"
  delivered :: "u64 list"

definition boot :: "(u64 \<rightharpoonup> val) \<Rightarrow> 's Shared \<Rightarrow> 's Sys" where
  "boot m sh = \<lparr>shared = sh, flight = {#}, guards = {#}, poisoned = False, assigned = m,
     accepted = m, ack_tried = {}, delivered = []\<rparr>"

text \<open>\<open>notify_all\<close> wakes every parked thread.\<close>

fun wake :: "pc \<Rightarrow> pc" where
  "wake (Parked v) = Woken v"
| "wake p = p"

text \<open>The program counters whose next critical section of \<open>inner\<close> panics.\<close>

fun section_panics :: "'s Shared \<Rightarrow> pc \<Rightarrow> bool" where
  "section_panics sh (Woken v) \<longleftrightarrow> enter sh (length v) = Overflow"
| "section_panics sh (Failed q v) \<longleftrightarrow> give_back (inner sh) (length v) = None"
| "section_panics sh (AckFin q v) \<longleftrightarrow> ack_finish (inner sh) q (length v) = None"
| "section_panics sh _ \<longleftrightarrow> False"

section \<open>Steps\<close>

inductive step :: "('s, 'e) Store \<Rightarrow> 's Sys \<Rightarrow> 's Sys \<Rightarrow> bool" for S where
  push_claim: "\<not> poisoned s \<Longrightarrow> enter (shared s) (length v) = Admitted q i \<Longrightarrow>
    step S s (s\<lparr>shared := (shared s)\<lparr>inner := i\<rparr>, flight := add_mset (Claimed q v) (flight s),
                assigned := (assigned s)(q \<mapsto> v)\<rparr>)"
| push_park: "\<not> poisoned s \<Longrightarrow> enter (shared s) (length v) = NoRoom \<Longrightarrow>
    step S s (s\<lparr>flight := add_mset (Parked v) (flight s)\<rparr>)"
| push_panic: "\<not> poisoned s \<Longrightarrow> enter (shared s) (length (v :: val)) = Overflow \<Longrightarrow>
    step S s (s\<lparr>poisoned := True\<rparr>)"
| wake_claim: "\<not> poisoned s \<Longrightarrow> flight s = add_mset (Woken v) F \<Longrightarrow>
    enter (shared s) (length v) = Admitted q i \<Longrightarrow>
    step S s (s\<lparr>shared := (shared s)\<lparr>inner := i\<rparr>, flight := add_mset (Claimed q v) F,
                assigned := (assigned s)(q \<mapsto> v)\<rparr>)"
| wake_park: "\<not> poisoned s \<Longrightarrow> flight s = add_mset (Woken v) F \<Longrightarrow>
    enter (shared s) (length v) = NoRoom \<Longrightarrow> step S s (s\<lparr>flight := add_mset (Parked v) F\<rparr>)"
| wake_closed: "\<not> poisoned s \<Longrightarrow> flight s = add_mset (Woken v) F \<Longrightarrow>
    enter (shared s) (length v) = Rejected \<Longrightarrow> step S s (s\<lparr>flight := F\<rparr>)"
| spurious: "flight s = add_mset (Parked v) F \<Longrightarrow> step S s (s\<lparr>flight := add_mset (Woken v) F\<rparr>)"
| put_ok: "flight s = add_mset (Claimed q v) F \<Longrightarrow> \<not> group (shared s) \<Longrightarrow>
    commit_to S (shared s) [Put (entry_key q) v] (durable (shared s)) = (Inr u, sh) \<Longrightarrow>
    step S s (s\<lparr>shared := sh, flight := F, accepted := (accepted s)(q \<mapsto> v)\<rparr>)"
| put_err: "flight s = add_mset (Claimed q v) F \<Longrightarrow> \<not> group (shared s) \<Longrightarrow>
    commit_to S (shared s) [Put (entry_key q) v] (durable (shared s)) = (Inl e, sh) \<Longrightarrow>
    step S s (s\<lparr>shared := sh, flight := add_mset (Failed q v) F\<rparr>)"
| failed_back: "\<not> poisoned s \<Longrightarrow> flight s = add_mset (Failed q v) F \<Longrightarrow>
    give_back (inner (shared s)) (length v) = Some i \<Longrightarrow>
    step S s (s\<lparr>shared := (shared s)\<lparr>inner := i\<rparr>, flight := add_mset NotifyOne F\<rparr>)"
| notify_one_wakes: "flight s = add_mset NotifyOne (add_mset (Parked v) F) \<Longrightarrow>
    step S s (s\<lparr>flight := add_mset (Woken v) F\<rparr>)"
| notify_one_idle: "flight s = add_mset NotifyOne F \<Longrightarrow> \<forall>v. Parked v \<notin># F \<Longrightarrow>
    step S s (s\<lparr>flight := F\<rparr>)"
| close_queue: "\<not> poisoned s \<Longrightarrow>
    step S s (s\<lparr>shared := close (shared s), flight := add_mset NotifyAll (flight s)\<rparr>)"
| notify_all: "flight s = add_mset NotifyAll F \<Longrightarrow> step S s (s\<lparr>flight := image_mset wake F\<rparr>)"
| group_follow: "flight s = add_mset (Claimed q v) F \<Longrightarrow> group (shared s) \<Longrightarrow>
    flushing (group_state (shared s)) \<Longrightarrow>
    step S s (s\<lparr>shared := (shared s)\<lparr>group_state := group_enqueue (group_state (shared s)) q v\<rparr>,
                flight := add_mset (GWait q v) F\<rparr>)"
| group_elect: "flight s = add_mset (Claimed q v) F \<Longrightarrow> group (shared s) \<Longrightarrow>
    \<not> flushing (group_state (shared s)) \<Longrightarrow>
    group_take (group_enqueue (group_state (shared s)) q v) = (b, g) \<Longrightarrow>
    step S s (s\<lparr>shared := (shared s)\<lparr>group_state := g\<lparr>flushing := True\<rparr>\<rparr>,
                flight := add_mset (GFlush q v b) F\<rparr>)"
| group_flush: "flight s = add_mset (GFlush q v b) F \<Longrightarrow>
    commit_to S (shared s) (batch_ops b) True = (r, sh) \<Longrightarrow>
    step S s (s\<lparr>shared := sh, flight := add_mset (GRecord q v b (r = Inr ())) F\<rparr>)"
| group_more: "flight s = add_mset (GRecord q v b ok) F \<Longrightarrow> pending (group_state (shared s)) \<noteq> [] \<Longrightarrow>
    group_take (group_record (group_state (shared s)) b ok) = (b', g) \<Longrightarrow>
    step S s (s\<lparr>shared := (shared s)\<lparr>group_state := g\<rparr>, flight := add_mset (GFlush q v b') F\<rparr>)"
| group_end_ok: "flight s = add_mset (GRecord q v b ok) F \<Longrightarrow> pending (group_state (shared s)) = [] \<Longrightarrow>
    group_outcome (group_record (group_state (shared s)) b ok) q = (Some True, g) \<Longrightarrow>
    step S s (s\<lparr>shared := (shared s)\<lparr>group_state := g\<lparr>flushing := False\<rparr>\<rparr>, flight := F,
                accepted := (accepted s)(q \<mapsto> v)\<rparr>)"
| group_end_retry: "flight s = add_mset (GRecord q v b ok) F \<Longrightarrow> pending (group_state (shared s)) = [] \<Longrightarrow>
    group_outcome (group_record (group_state (shared s)) b ok) q = (o', g) \<Longrightarrow> o' \<noteq> Some True \<Longrightarrow>
    step S s (s\<lparr>shared := (shared s)\<lparr>group_state := g\<lparr>flushing := False\<rparr>\<rparr>,
                flight := add_mset (GRetry q v) F\<rparr>)"
| group_done_ok: "flight s = add_mset (GWait q v) F \<Longrightarrow>
    group_outcome (group_state (shared s)) q = (Some True, g) \<Longrightarrow>
    step S s (s\<lparr>shared := (shared s)\<lparr>group_state := g\<rparr>, flight := F,
                accepted := (accepted s)(q \<mapsto> v)\<rparr>)"
| group_done_retry: "flight s = add_mset (GWait q v) F \<Longrightarrow>
    group_outcome (group_state (shared s)) q = (Some False, g) \<Longrightarrow>
    step S s (s\<lparr>shared := (shared s)\<lparr>group_state := g\<rparr>, flight := add_mset (GRetry q v) F\<rparr>)"
| retry_ok: "flight s = add_mset (GRetry q v) F \<Longrightarrow>
    commit_to S (shared s) [Put (entry_key q) v] True = (Inr u, sh) \<Longrightarrow>
    step S s (s\<lparr>shared := sh, flight := F, accepted := (accepted s)(q \<mapsto> v)\<rparr>)"
| retry_err: "flight s = add_mset (GRetry q v) F \<Longrightarrow>
    commit_to S (shared s) [Put (entry_key q) v] True = (Inl e, sh) \<Longrightarrow>
    step S s (s\<lparr>shared := sh, flight := add_mset (Failed q v) F\<rparr>)"
| reserve_start: "\<not> poisoned s \<Longrightarrow>
    step S s (s\<lparr>flight := add_mset (RSeek (entry_key (head (inner (shared s))))) (flight s)\<rparr>)"
| seek_ends: "flight s = add_mset (RSeek c) F \<Longrightarrow> seek S (store (shared s)) c = (r, st) \<Longrightarrow>
    \<forall>k v. r = Inr (Some (k, v)) \<longrightarrow> \<not> is_entry k \<Longrightarrow>
    step S s (s\<lparr>shared := (shared s)\<lparr>store := st\<rparr>, flight := F\<rparr>)"
| seek_finds: "flight s = add_mset (RSeek c) F \<Longrightarrow>
    seek S (store (shared s)) c = (Inr (Some (k, v)), st) \<Longrightarrow> is_entry k \<Longrightarrow> seq_of k = Some q \<Longrightarrow>
    step S s (s\<lparr>shared := (shared s)\<lparr>store := st\<rparr>, flight := add_mset (RCheck q v) F\<rparr>)"
| check_skips: "\<not> poisoned s \<Longrightarrow> flight s = add_mset (RCheck q v) F \<Longrightarrow>
    reserve_check (inner (shared s)) q = None \<Longrightarrow> checked_inc q = Some n \<Longrightarrow>
    step S s (s\<lparr>flight := add_mset (RSeek (entry_key n)) F\<rparr>)"
| check_overflows: "\<not> poisoned s \<Longrightarrow> flight s = add_mset (RCheck q v) F \<Longrightarrow>
    reserve_check (inner (shared s)) q = None \<Longrightarrow> checked_inc q = None \<Longrightarrow>
    step S s (s\<lparr>flight := F\<rparr>)"
| check_takes: "\<not> poisoned s \<Longrightarrow> flight s = add_mset (RCheck q v) F \<Longrightarrow>
    reserve_check (inner (shared s)) q = Some i \<Longrightarrow>
    step S s (s\<lparr>shared := (shared s)\<lparr>inner := i\<rparr>, flight := F,
                guards := add_mset (q, v) (guards s), delivered := delivered s @ [q]\<rparr>)"
| ack_deletes: "guards s = add_mset (q, v) G \<Longrightarrow>
    commit_to S (shared s) [Delete (entry_key q)] (ack_durable (shared s)) = (Inr u, sh) \<Longrightarrow>
    step S s (s\<lparr>shared := sh, guards := G, flight := add_mset (AckFin q v) (flight s),
                ack_tried := insert q (ack_tried s)\<rparr>)"
| ack_fails: "guards s = add_mset (q, v) G \<Longrightarrow>
    commit_to S (shared s) [Delete (entry_key q)] (ack_durable (shared s)) = (Inl e, sh) \<Longrightarrow>
    step S s (s\<lparr>shared := sh, guards := G, flight := add_mset (Release q) (flight s),
                ack_tried := insert q (ack_tried s)\<rparr>)"
| ack_finishes: "\<not> poisoned s \<Longrightarrow> flight s = add_mset (AckFin q v) F \<Longrightarrow>
    ack_finish (inner (shared s)) q (length v) = Some i \<Longrightarrow>
    step S s (s\<lparr>shared := (shared s)\<lparr>inner := i\<rparr>, flight := add_mset NotifyOne F\<rparr>)"
| guard_dropped: "guards s = add_mset (q, v) G \<Longrightarrow>
    step S s (s\<lparr>guards := G, flight := add_mset (Release q) (flight s)\<rparr>)"
| releases: "\<not> poisoned s \<Longrightarrow> flight s = add_mset (Release q) F \<Longrightarrow>
    step S s (s\<lparr>shared := (shared s)\<lparr>inner := release_inner (inner (shared s)) q\<rparr>, flight := F\<rparr>)"
| section_panic: "\<not> poisoned s \<Longrightarrow> flight s = add_mset p F \<Longrightarrow> section_panics (shared s) p \<Longrightarrow>
    step S s (s\<lparr>poisoned := True, flight := F\<rparr>)"

text \<open>
  The states reachable from a start, through states that satisfy \<open>C\<close>. With \<open>C\<close> always true any
  interleaving is allowed; \<open>single_consumer\<close> is the discipline of one consumer thread, which
  finishes each consumer operation before it starts the next.
\<close>

inductive reach :: "('s, 'e) Store \<Rightarrow> ('s Sys \<Rightarrow> bool) \<Rightarrow> 's Sys \<Rightarrow> 's Sys \<Rightarrow> bool" for S C s0 where
  reach_start: "reach S C s0 s0"
| reach_step: "reach S C s0 s \<Longrightarrow> step S s t \<Longrightarrow> C t \<Longrightarrow> reach S C s0 t"

fun consumer_side :: "pc \<Rightarrow> bool" where
  "consumer_side (RSeek c) = True"
| "consumer_side (RCheck q v) = True"
| "consumer_side (AckFin q v) = True"
| "consumer_side (Release q) = True"
| "consumer_side _ = False"

definition single_consumer :: "'s Sys \<Rightarrow> bool" where
  "single_consumer s \<longleftrightarrow> size (filter_mset consumer_side (flight s)) \<le> 1"

lemma reach_inv:
  assumes "reach S C s0 s" and "J s0" and "\<And>s t. step S s t \<Longrightarrow> C t \<Longrightarrow> J s \<Longrightarrow> J t"
  shows "J s"
  using assms(1) by induction (use assms(2,3) in auto)

lemma reach_trans:
  assumes "reach S C s t" and "reach S C r s"
  shows "reach S C r t"
  using assms by (induction rule: reach.induct) (auto intro: reach.intros)

lemma reach_less: "reach S C s0 s \<Longrightarrow> (\<And>s. C s \<Longrightarrow> D s) \<Longrightarrow> reach S D s0 s"
  by (induction rule: reach.induct) (auto intro: reach.intros)

lemma reach_any: "reach S C s0 s \<Longrightarrow> reach S (\<lambda>_. True) s0 s"
  by (erule reach_less) simp

lemma commit_toD:
  assumes "commit_to S sh ops d = (r, sh')"
  obtains st where "commit S (store sh) ops d = (r, st)" and "sh' = sh\<lparr>store := st\<rparr>"
  using assms by (auto simp: commit_to_def split: prod.splits)

text \<open>A push that is not disturbed: admission, then the store write.\<close>

lemma reach_push:
  assumes "reach S (\<lambda>_. True) s0 s" and "\<not> poisoned s" and "\<not> group (shared s)"
    and "enter (shared s) (length v) = Admitted q i"
    and "commit_to S ((shared s)\<lparr>inner := i\<rparr>) [Put (entry_key q) v] (durable (shared s)) = (Inr u, sh)"
  shows "reach S (\<lambda>_. True) s0
    (s\<lparr>shared := sh, assigned := (assigned s)(q \<mapsto> v), accepted := (accepted s)(q \<mapsto> v)\<rparr>)"
proof -
  let ?s = "s\<lparr>shared := (shared s)\<lparr>inner := i\<rparr>, flight := add_mset (Claimed q v) (flight s),
    assigned := (assigned s)(q \<mapsto> v)\<rparr>"
  have "reach S (\<lambda>_. True) s0 ?s"
    by (rule reach_step [OF assms(1) push_claim [OF assms(2,4)]]) simp
  from reach_step [OF this put_ok [of ?s q v "flight s" S u sh]] assms(3,5)
  have "reach S (\<lambda>_. True) s0 (?s\<lparr>shared := sh, flight := flight s, accepted := (accepted ?s)(q \<mapsto> v)\<rparr>)"
    by simp
  moreover have "?s\<lparr>shared := sh, flight := flight s, accepted := (accepted ?s)(q \<mapsto> v)\<rparr> =
    s\<lparr>shared := sh, assigned := (assigned s)(q \<mapsto> v), accepted := (accepted s)(q \<mapsto> v)\<rparr>"
    by (cases s) simp
  ultimately show ?thesis by (simp only:)
qed

end
