(* ===== verification/NoLoss.thy ===== *)
theory NoLoss imports Machine begin

text \<open>
  No accepted item is lost, whatever the interleaving. The invariants of the thread machine
  (\<open>Machine\<close>) over any store of the \<open>retention\<close> contract: \<open>cursors_ok\<close> (the head, the tail and
  the set of acked numbers against the numbers handed out), \<open>pairs_ok\<close> (every number carried
  anywhere goes with the value it was pushed with, the store's contents included) and
  \<open>kept_ok\<close> (what was accepted and not acked is safe in the store). They hold for any number of
  producers and consumers, in every durability mode, and when commits fail half way.
\<close>

section \<open>The invariants\<close>

fun carried :: "pc \<Rightarrow> (u64 \<times> val) set" where
  "carried (Claimed q v) = {(q, v)}"
| "carried (Failed q v) = {(q, v)}"
| "carried (GWait q v) = {(q, v)}"
| "carried (GFlush q v b) = insert (q, v) (set b)"
| "carried (GRecord q v b ok) = insert (q, v) (set b)"
| "carried (GRetry q v) = {(q, v)}"
| "carried (RCheck q v) = {(q, v)}"
| "carried (AckFin q v) = {(q, v)}"
| "carried _ = {}"

lemma carried_wake [simp]: "carried (wake p) = carried p"
  by (cases p) auto

lemma wake_eq [simp]:
  "wake p = AckFin q v \<longleftrightarrow> p = AckFin q v" "AckFin q v = wake p \<longleftrightarrow> AckFin q v = p"
  by (cases p; simp; fail)+

text \<open>A number below \<open>head\<close> or in \<open>acked_above\<close> counts as acked.\<close>

definition past :: "Inner \<Rightarrow> u64 set" where
  "past i = {..<head i} \<union> acked_above i"

definition cursors_ok :: "'s Sys \<Rightarrow> bool" where
  "cursors_ok s \<longleftrightarrow>
     (let i = inner (shared s) in
      head i \<le> tail i \<and> acked_above i \<subseteq> {..<tail i} \<and> dom (assigned s) \<subseteq> {..<tail i} \<and>
      past i \<inter> dom (assigned s) \<subseteq> ack_tried s \<and>
      (\<forall>q v. AckFin q v \<in># flight s \<longrightarrow> q \<in> ack_tried s))"

definition pairs :: "('s \<Rightarrow> key \<rightharpoonup> val) \<Rightarrow> 's Sys \<Rightarrow> (u64 \<times> val) set" where
  "pairs view s = (\<Union>p \<in> set_mset (flight s). carried p) \<union> set_mset (guards s) \<union>
     set (pending (group_state (shared s))) \<union> Map.graph (accepted s) \<union>
     Map.graph (items_of (view (store (shared s))))"

definition pairs_ok :: "('s \<Rightarrow> key \<rightharpoonup> val) \<Rightarrow> 's Sys \<Rightarrow> bool" where
  "pairs_ok view s \<longleftrightarrow> pairs view s \<subseteq> Map.graph (assigned s)"

fun recorded :: "pc \<Rightarrow> (u64 \<times> val) set" where
  "recorded (GRecord q v b True) = set b"
| "recorded _ = {}"

lemma recorded_wake [simp]: "recorded (wake p) = recorded p"
  by (cases p) auto

definition landed :: "'s Sys \<Rightarrow> (u64 \<times> val) set" where
  "landed s = Map.graph (accepted s) \<union> (\<Union>p \<in> set_mset (flight s). recorded p) \<union>
     {(q, v). done_map (group_state (shared s)) q = Some True \<and> assigned s q = Some v}"

definition kept_ok :: "('s \<Rightarrow> key \<Rightarrow> val \<Rightarrow> bool) \<Rightarrow> 's Sys \<Rightarrow> bool" where
  "kept_ok safe s \<longleftrightarrow>
     dom (done_map (group_state (shared s))) \<subseteq> dom (assigned s) \<and>
     (\<forall>(q, v) \<in> landed s. q \<in> ack_tried s \<or> safe (store (shared s)) (entry_key q) v)"

lemma in_wake: "AckFin q v \<in> wake ` A \<longleftrightarrow> AckFin q v \<in> A"
  by (auto simp: image_iff)

lemma in_graph [simp]: "(q, v) \<in> Map.graph m \<longleftrightarrow> m q = Some v"
  by (auto simp: graph_def)

lemma graph_upd_subset: "Map.graph (m(q \<mapsto> v)) \<subseteq> insert (q, v) (Map.graph m)"
  by (auto simp: graph_def split: if_splits)

lemma pairsD:
  assumes "pairs_ok view s"
  shows "p \<in># flight s \<Longrightarrow> (q, v) \<in> carried p \<Longrightarrow> assigned s q = Some v"
    "(q, v) \<in># guards s \<Longrightarrow> assigned s q = Some v"
    "(q, v) \<in> set (pending (group_state (shared s))) \<Longrightarrow> assigned s q = Some v"
    "accepted s q = Some v \<Longrightarrow> assigned s q = Some v"
    "view (store (shared s)) (entry_key q) = Some v \<Longrightarrow> assigned s q = Some v"
proof -
  have A: "(q, v) \<in> pairs view s \<Longrightarrow> assigned s q = Some v"
    using assms by (auto simp: pairs_ok_def dest: subsetD)
  show "p \<in># flight s \<Longrightarrow> (q, v) \<in> carried p \<Longrightarrow> assigned s q = Some v"
    "(q, v) \<in># guards s \<Longrightarrow> assigned s q = Some v"
    "(q, v) \<in> set (pending (group_state (shared s))) \<Longrightarrow> assigned s q = Some v"
    "accepted s q = Some v \<Longrightarrow> assigned s q = Some v"
    "view (store (shared s)) (entry_key q) = Some v \<Longrightarrow> assigned s q = Some v"
    by (rule A, auto simp: pairs_def items_of_def)+
qed

lemma ack_finish_past:
  assumes "ack_finish i q v = Some i'"
  shows "past i' = insert q (past i)" "tail i' = tail i"
  using ack_finish_fields [OF assms] by (simp_all add: past_def)

lemma ack_finish_cursors:
  assumes "ack_finish i q v = Some i'" "q < tail i" "acked_above i \<subseteq> {..<tail i}" "head i \<le> tail i"
  shows "head i' \<le> tail i'" "acked_above i' \<subseteq> {..<tail i'}"
proof -
  have "1 \<le> len i" "v \<le> bytes i" using assms(1) by (auto simp: ack_finish_eq_Some)
  from ack_finish_total [OF this assms(2-4)] assms(1)
  show "head i' \<le> tail i'" "acked_above i' \<subseteq> {..<tail i'}" by auto
qed

lemma commit_to_sel:
  assumes "commit_to S sh ops d = (r, sh')"
  shows "inner sh' = inner sh" "group_state sh' = group_state sh" "durable sh' = durable sh"
    "ack_durable sh' = ack_durable sh" "group sh' = group sh" "capacity sh' = capacity sh"
    "max_bytes sh' = max_bytes sh" "commit S (store sh) ops d = (r, store sh')"
  using assms by (auto simp: commit_to_def split: prod.splits)

lemma claim_cursors:
  assumes "cursors_ok s" and "claim (inner (shared s)) n = Some (q, i)"
  shows "cursors_ok (s\<lparr>shared := (shared s)\<lparr>inner := i\<rparr>, assigned := (assigned s)(q \<mapsto> v)\<rparr>)"
proof -
  have i: "tail (inner (shared s)) \<noteq> - 1" "q = tail (inner (shared s))"
    "i = (inner (shared s))\<lparr>tail := q + 1, len := len (inner (shared s)) + 1, bytes := bytes (inner (shared s)) + n\<rparr>"
    using assms(2) by auto
  note up = less_inc_iff [OF i(1)]
  have "head (inner (shared s)) \<le> q + 1"
    using assms(1) up [of "head (inner (shared s))"] by (simp add: i cursors_ok_def Let_def)
  moreover have "q \<notin> past (inner (shared s))"
    using assms(1) by (auto simp: i(2) past_def cursors_ok_def Let_def)
  ultimately show ?thesis
    using assms(1) up by (auto simp: cursors_ok_def Let_def i past_def intro: less_imp_le)
qed

lemma cursors_step:
  assumes "step S s t" and "cursors_ok s" and "pairs_ok view s"
  shows "cursors_ok t"
  using assms(1)
proof cases
  case (ack_finishes q v F i)
  have q: "assigned s q = Some v" "q \<in> ack_tried s"
    using assms(2,3) ack_finishes pairsD(1) [OF assms(3), of "AckFin q v"]
    by (auto simp: cursors_ok_def Let_def)
  then have "q < tail (inner (shared s))" using assms(2) by (auto simp: cursors_ok_def Let_def)
  with q ack_finish_cursors [OF ack_finishes(4)] ack_finish_past [OF ack_finishes(4)] assms(2) ack_finishes
  show ?thesis by (auto simp: cursors_ok_def Let_def)
next
  case (push_claim v q i)
  with claim_cursors [OF assms(2), of "length v" q i v] show ?thesis
    by (auto simp: cursors_ok_def Let_def)
next
  case (wake_claim v F q i)
  with claim_cursors [OF assms(2), of "length v" q i v] show ?thesis
    by (auto simp: cursors_ok_def Let_def)
next
  case (notify_all F)
  then show ?thesis using assms(2) by (simp add: cursors_ok_def Let_def in_wake)
qed (use assms(2) in \<open>auto simp: cursors_ok_def Let_def past_def commit_to_sel close_def
  close_inner_def release_inner_def dest!: commit_to_sel(1)\<close>)

lemma apply_ops_origin: "apply_ops m ops k = Some v \<Longrightarrow> m k = Some v \<or> Put k v \<in> set ops"
proof (induction ops arbitrary: m)
  case (Cons x ops)
  then have "apply_op m x k = Some v \<or> Put k v \<in> set ops" by simp
  then show ?case by (cases x) (auto split: if_splits)
qed simp

context store_contract begin

lemma commit_to_items:
  assumes "commit_to S sh ops d = (r, sh')" and "sinv (store sh)"
  shows "sinv (store sh')"
    "Map.graph (items_of (view (store sh'))) \<subseteq>
       Map.graph (items_of (view (store sh))) \<union> {(q, v). Put (entry_key q) v \<in> set ops}"
proof -
  note c = commit_to_sel(8) [OF assms(1)]
  show "sinv (store sh')" using commit_keeps assms(2) c by blast
  have origin: "view (store sh) (entry_key q) = Some v \<or> Put (entry_key q) v \<in> set ops"
    if "view (store sh') (entry_key q) = Some v" for q v
  proof -
    obtain n where "view (store sh') (entry_key q) = apply_ops (view (store sh)) (take n ops) (entry_key q)"
      using commit_prefix [OF assms(2) c] by blast
    then have "apply_ops (view (store sh)) (take n ops) (entry_key q) = Some v"
      using that by simp
    from apply_ops_origin [OF this] show ?thesis by (auto dest: in_set_takeD)
  qed
  then show "Map.graph (items_of (view (store sh'))) \<subseteq>
       Map.graph (items_of (view (store sh))) \<union> {(q, v). Put (entry_key q) v \<in> set ops}"
    by (auto simp: items_of_def dest: origin)
qed

text \<open>A step makes no pair of a number and a value but a new claim.\<close>

lemma pairs_move:
  assumes "step S s t" and "sinv (store (shared s))"
  shows "sinv (store (shared t)) \<and>
    (assigned t = assigned s \<and> pairs view t \<subseteq> pairs view s \<or>
     (\<exists>v. assigned t = (assigned s)(tail (inner (shared s)) \<mapsto> v) \<and>
       pairs view t \<subseteq> insert (tail (inner (shared s)), v) (pairs view s)))"
  using assms(1)
proof cases
  case (put_ok q v F u sh)
  from commit_to_items [OF put_ok(4) assms(2)] commit_to_sel [OF put_ok(4)] graph_upd_subset [of "accepted s" q v] put_ok(1,2) show ?thesis
    by (auto simp: pairs_def)
next
  case (retry_ok q v F u sh)
  from commit_to_items [OF retry_ok(3) assms(2)] commit_to_sel [OF retry_ok(3)] graph_upd_subset [of "accepted s" q v] retry_ok(1,2) show ?thesis
    by (auto simp: pairs_def)
next
  case (put_err q v F u sh)
  from commit_to_items [OF put_err(4) assms(2)] commit_to_sel [OF put_err(4)] put_err(1,2) show ?thesis
    by (auto simp: pairs_def)
next
  case (retry_err q v F u sh)
  from commit_to_items [OF retry_err(3) assms(2)] commit_to_sel [OF retry_err(3)] retry_err(1,2) show ?thesis
    by (auto simp: pairs_def)
next
  case (group_flush q v b F u sh)
  from commit_to_items [OF group_flush(3) assms(2)] commit_to_sel [OF group_flush(3)] group_flush(1,2) show ?thesis
    by (auto simp: pairs_def)
next
  case (ack_deletes q v G u sh)
  from commit_to_items [OF ack_deletes(3) assms(2)] commit_to_sel [OF ack_deletes(3)] ack_deletes(1,2) show ?thesis
    by (auto simp: pairs_def)
next
  case (ack_fails q v G u sh)
  from commit_to_items [OF ack_fails(3) assms(2)] commit_to_sel [OF ack_fails(3)] ack_fails(1,2) show ?thesis
    by (auto simp: pairs_def)
next
  case (seek_ends c F r st)
  with seek_keeps [OF assms(2) seek_ends(3)] assms(2) show ?thesis by (auto simp: pairs_def)
next
  case (seek_finds c F k v st q)
  have "view (store (shared s)) (entry_key q) = Some v"
    using seek_reads [OF assms(2) seek_finds(3)] seek_finds(4,5)
    by (auto simp: least_from_def elim!: is_entry_cases)
  with seek_keeps [OF assms(2) seek_finds(3)] seek_finds show ?thesis
    by (auto simp: pairs_def items_of_def)
next
  case (group_end_ok q v b ok F g)
  with graph_upd_subset [of "accepted s" q v] assms(2) show ?thesis
    by (auto simp: pairs_def group_outcome_def)
next
  case (group_done_ok q v F g)
  with graph_upd_subset [of "accepted s" q v] assms(2) show ?thesis
    by (auto simp: pairs_def group_outcome_def)
qed (use assms(2) in \<open>auto simp: pairs_def group_outcome_def group_take_def group_enqueue_def close_def\<close>)

lemma pairs_step:
  assumes "step S s t" and "cursors_ok s" and "sinv (store (shared s))" and "pairs_ok view s"
  shows "sinv (store (shared t)) \<and> pairs_ok view t"
proof -
  have "tail (inner (shared s)) \<notin> dom (assigned s)"
    using assms(2) by (auto simp: cursors_ok_def Let_def)
  with pairs_move [OF assms(1,3)] assms(4) show ?thesis
    by (force simp: pairs_ok_def)
qed

end

definition fixed_conf :: "'s Shared \<Rightarrow> 's Shared \<Rightarrow> bool" where
  "fixed_conf sh sh' \<longleftrightarrow> durable sh' = durable sh \<and> ack_durable sh' = ack_durable sh \<and>
     group sh' = group sh \<and> capacity sh' = capacity sh \<and> max_bytes sh' = max_bytes sh"

lemma step_conf: "step S s t \<Longrightarrow> fixed_conf (shared s) (shared t)"
  by (erule step.cases) (auto simp: fixed_conf_def commit_to_sel close_def dest: commit_to_sel)

text \<open>A step adds to \<open>landed\<close> only what a commit just wrote.\<close>

definition fresh_landed :: "('s, 'e) Store \<Rightarrow> 's Sys \<Rightarrow> 's Sys \<Rightarrow> (u64 \<times> val) set" where
  "fresh_landed S s t = {(q, v). assigned s q = Some v \<and>
     (\<exists>ops d. (d \<or> d = durable (shared s)) \<and> commit_to S (shared s) ops d = (Inr (), shared t) \<and> Put (entry_key q) v \<in> set ops \<and>
       (\<forall>x u. Put (entry_key x) u \<in> set ops \<longrightarrow> assigned s x = Some u) \<and>
       (\<forall>x. Delete (entry_key x) \<notin> set ops))}"

lemma fresh_landedI:
  assumes "commit_to S (shared s) ops d = (Inr (), shared t)" and "Put (entry_key q) v \<in> set ops"
    and "\<And>x u. Put (entry_key x) u \<in> set ops \<Longrightarrow> assigned s x = Some u"
    and "\<And>x. Delete (entry_key x) \<notin> set ops"
    and "d \<or> d = durable (shared s)"
  shows "(q, v) \<in> fresh_landed S s t"
  using assms unfolding fresh_landed_def by blast

lemma record_landed:
  assumes "GRecord q v b ok \<in># flight s" and "pairs_ok view s"
    and "dom (done_map (group_state (shared s))) \<subseteq> dom (assigned s)"
  shows "dom (done_map (group_record (group_state (shared s)) b ok)) \<subseteq> dom (assigned s)"
    "done_map (group_record (group_state (shared s)) b ok) x = Some True \<Longrightarrow> assigned s x = Some u \<Longrightarrow>
      (x, u) \<in> landed s"
proof -
  have b: "assigned s x = Some w" if "(x, w) \<in> set b" for x w
    using pairsD(1) [OF assms(2,1)] that by auto
  then show "dom (done_map (group_record (group_state (shared s)) b ok)) \<subseteq> dom (assigned s)"
    using assms(3) by (intro subsetI, subst (asm) dom_def, simp only: mem_Collect_eq group_record_done) (auto split: if_splits)
  assume d: "done_map (group_record (group_state (shared s)) b ok) x = Some True" "assigned s x = Some u"
  show "(x, u) \<in> landed s"
  proof (cases "x \<in> fst ` set b")
    case True
    then obtain w where w: "(x, w) \<in> set b" by force
    moreover from True have ok using d(1) by (simp add: group_record_done)
    ultimately show ?thesis
      using b [OF w] d(2) assms(1) by (force simp: landed_def)
  next
    case False
    then show ?thesis using d by (auto simp: group_record_done landed_def)
  qed
qed

lemma landed_sub:
  assumes "\<And>x u. accepted t x = Some u \<Longrightarrow> (x, u) \<in> L"
    and "\<And>p x u. p \<in># flight t \<Longrightarrow> (x, u) \<in> recorded p \<Longrightarrow> (x, u) \<in> L"
    and "\<And>x u. done_map (group_state (shared t)) x = Some True \<Longrightarrow> assigned t x = Some u \<Longrightarrow> (x, u) \<in> L"
  shows "landed t \<subseteq> L"
  using assms by (auto simp: landed_def)

lemma landedI:
  "accepted s x = Some u \<Longrightarrow> (x, u) \<in> landed s"
  "p \<in># flight s \<Longrightarrow> (x, u) \<in> recorded p \<Longrightarrow> (x, u) \<in> landed s"
  by (auto simp: landed_def)

lemma dom_drop: "dom m \<subseteq> A \<Longrightarrow> dom (m(x := None)) \<subseteq> A"
  by auto

lemma landed_step:
  assumes "step S s t" and "pairs_ok view s" and "dom (done_map (group_state (shared s))) \<subseteq> dom (assigned s)"
    and "cursors_ok s"
  shows "dom (done_map (group_state (shared t))) \<subseteq> dom (assigned t) \<and>
    landed t \<subseteq> landed s \<union> fresh_landed S s t"
  using assms(1)
proof cases
  case (push_claim v q i)
  then have "assigned s q = None" using assms(4) by (auto simp: cursors_ok_def Let_def)
  with assms(3) have "done_map (group_state (shared s)) q = None" by (auto simp: domIff)
  with push_claim assms(3) show ?thesis by (auto simp: landed_def split: if_splits)
next
  case (wake_claim v F q i)
  then have "assigned s q = None" using assms(4) by (auto simp: cursors_ok_def Let_def)
  with assms(3) have "done_map (group_state (shared s)) q = None" by (auto simp: domIff)
  with wake_claim assms(3) show ?thesis by (auto simp: landed_def split: if_splits)
next
  case (put_err q v F e sh)
  with assms(3) commit_to_sel(2) [OF put_err(4)] show ?thesis by (auto simp: landed_def)
next
  case (retry_err q v F e sh)
  with assms(3) commit_to_sel(2) [OF retry_err(3)] show ?thesis by (auto simp: landed_def)
next
  case (ack_deletes q v G u sh)
  with assms(3) commit_to_sel(2) [OF ack_deletes(3)] show ?thesis by (auto simp: landed_def)
next
  case (ack_fails q v G e sh)
  with assms(3) commit_to_sel(2) [OF ack_fails(3)] show ?thesis by (auto simp: landed_def)
next
  case (put_ok q v F u sh)
  have "commit_to S (shared s) [Put (entry_key q) v] (durable (shared s)) = (Inr (), shared t)"
    using put_ok by simp
  then have "(q, v) \<in> fresh_landed S s t"
    using pairsD(1) [OF assms(2), of "Claimed q v" q v] put_ok(2) by (intro fresh_landedI) auto
  with put_ok(1,2) assms(3) commit_to_sel [OF put_ok(4)] graph_upd_subset [of "accepted s" q v] show ?thesis
    by (auto simp: landed_def)
next
  case (retry_ok q v F u sh)
  have "commit_to S (shared s) [Put (entry_key q) v] True = (Inr (), shared t)"
    using retry_ok by simp
  then have "(q, v) \<in> fresh_landed S s t"
    using pairsD(1) [OF assms(2), of "GRetry q v" q v] retry_ok(2) by (intro fresh_landedI) auto
  with retry_ok(1,2) assms(3) commit_to_sel [OF retry_ok(3)] graph_upd_subset [of "accepted s" q v] show ?thesis
    by (auto simp: landed_def)
next
  case (group_flush q v b F r sh)
  have b: "assigned s x = Some w" if "(x, w) \<in> set b" for x w
    using pairsD(1) [OF assms(2), of "GFlush q v b"] that group_flush(2) by auto
  have fresh: "recorded (GRecord q v b (r = Inr ())) \<subseteq> fresh_landed S s t"
  proof (cases "r = Inr ()")
    case True
    have "set b \<subseteq> fresh_landed S s t"
    proof (intro subrelI fresh_landedI)
      show "commit_to S (shared s) (batch_ops b) True = (Inr (), shared t)"
        using group_flush(1,3) True by simp
    qed (auto intro: b)
    with True show ?thesis by simp
  qed simp
  with group_flush(1,2) assms(3) commit_to_sel(2) [OF group_flush(3)] show ?thesis
    by (auto simp: landed_def)
next
  case (group_more q v b ok F b' g)
  then have r: "GRecord q v b ok \<in># flight s" by simp
  note rl = record_landed [OF r assms(2,3)]
  have "landed t \<subseteq> landed s"
    by (rule landed_sub) (use group_more rl(2) in \<open>auto intro: landedI simp: group_take_def group_outcome_def split: if_splits\<close>)
  moreover have "dom (done_map (group_state (shared t))) \<subseteq> dom (assigned t)"
    using rl(1) group_more by (simp add: group_take_eq)
  ultimately show ?thesis by blast
next
  case (group_end_ok q v b ok F g)
  then have r: "GRecord q v b ok \<in># flight s" by simp
  note rl = record_landed [OF r assms(2,3)]
  have own: "(q, v) \<in> landed s"
    using rl(2) [of q v] pairsD(1) [OF assms(2) r, of q v] group_end_ok by (auto simp: group_outcome_def)
  have "landed t \<subseteq> landed s"
    by (rule landed_sub) (use group_end_ok rl(2) own in \<open>auto intro: landedI simp: group_take_def group_outcome_def split: if_splits\<close>)
  moreover have "dom (done_map (group_state (shared t))) \<subseteq> dom (assigned t)"
    using dom_drop [OF rl(1), of q] group_end_ok by (simp add: group_outcome_eq)
  ultimately show ?thesis by blast
next
  case (group_end_retry q v b ok F o' g)
  then have r: "GRecord q v b ok \<in># flight s" by simp
  note rl = record_landed [OF r assms(2,3)]
  have "landed t \<subseteq> landed s"
    by (rule landed_sub) (use group_end_retry rl(2) in \<open>auto intro: landedI simp: group_take_def group_outcome_def split: if_splits\<close>)
  moreover have "dom (done_map (group_state (shared t))) \<subseteq> dom (assigned t)"
    using dom_drop [OF rl(1), of q] group_end_retry by (simp add: group_outcome_eq)
  ultimately show ?thesis by blast
next
  case (group_done_ok q v F g)
  then have r: "assigned s q = Some v" "done_map (group_state (shared s)) q = Some True"
    using pairsD(1) [OF assms(2), of "GWait q v" q v] by (simp_all add: group_outcome_eq)
  have "landed t \<subseteq> landed s"
    by (rule landed_sub) (use group_done_ok r in \<open>auto simp: landed_def group_outcome_eq split: if_splits\<close>)
  moreover have "dom (done_map (group_state (shared t))) \<subseteq> dom (assigned t)"
    using dom_drop [OF assms(3), of q] group_done_ok by (simp add: group_outcome_eq)
  ultimately show ?thesis by blast
next
  case (group_done_retry q v F g)
  have "landed t \<subseteq> landed s"
    by (rule landed_sub) (use group_done_retry in \<open>auto simp: landed_def group_outcome_eq split: if_splits\<close>)
  moreover have "dom (done_map (group_state (shared t))) \<subseteq> dom (assigned t)"
    using dom_drop [OF assms(3), of q] group_done_retry by (simp add: group_outcome_eq)
  ultimately show ?thesis by blast
qed (use assms(3) in \<open>auto simp: landed_def group_take_eq group_enqueue_def close_def\<close>)

context retention begin

lemma keep_commit:
  assumes "commit_to S sh ops d = (r, sh')" and "sinv (store sh)" and "safe (store sh) (entry_key x) u"
    and "\<And>y. y \<in> set ops \<Longrightarrow> op_key y = entry_key x \<Longrightarrow> y = Put (entry_key x) u"
  shows "safe (store sh') (entry_key x) u"
  by (rule safe_keep [OF assms(2) commit_to_sel(8) [OF assms(1)] assms(3)]) (use assms(4) in simp)

lemma land_commit:
  assumes "commit_to S sh ops d = (Inr w, sh')" and "sinv (store sh)" and "dur \<longrightarrow> d"
    and "Put (entry_key x) u \<in> set ops"
    and "\<And>y. y \<in> set ops \<Longrightarrow> op_key y = entry_key x \<Longrightarrow> y = Put (entry_key x) u"
  shows "safe (store sh') (entry_key x) u"
proof (rule safe_commit [OF assms(2)])
  show "commit S (store sh) ops d = (Inr (), store sh')"
    using commit_to_sel(8) [OF assms(1)] by simp
  show "entry_key x \<in> op_key ` set ops" using assms(4) by force
  show "apply_ops (view (store sh)) ops (entry_key x) = Some u"
  proof (rule apply_ops_put)
    show "\<forall>y \<in> set ops. op_key y = entry_key x \<longrightarrow> y = Put (entry_key x) u"
      by (intro ballI impI) (rule assms(5))
  qed (rule assms(4))
qed (rule assms(3))



text \<open>What is safe stays safe until its number is acked.\<close>

lemma safe_step:
  assumes "step S s t" and "sinv (store (shared s))" and "pairs_ok view s"
    and "safe (store (shared s)) (entry_key x) u"
  shows "x \<in> ack_tried t \<or> safe (store (shared t)) (entry_key x) u"
proof -
  have x: "assigned s x = Some u"
    using pairsD(5) [OF assms(3)] safe_view [OF assms(4)] by blast
  have put: "safe (store sh) (entry_key x) u"
    if "commit_to S (shared s) [Put (entry_key q) v] d = (r, sh)" "assigned s q = Some v" for q v d r sh
    by (rule keep_commit [OF that(1) assms(2,4)]) (use x that(2) in auto)
  have del: "x = q \<or> safe (store sh) (entry_key x) u"
    if "commit_to S (shared s) [Delete (entry_key q)] d = (r, sh)" for q d r sh
  proof (cases "x = q")
    case False
    have "safe (store sh) (entry_key x) u"
      by (rule keep_commit [OF that(1) assms(2,4)]) (use False in auto)
    then show ?thesis ..
  qed simp
  show ?thesis
    using assms(1)
  proof cases
    case (put_ok q v F u sh)
    with put [OF put_ok(4)] pairsD(1) [OF assms(3), of "Claimed q v" q v] show ?thesis by auto
  next
    case (put_err q v F u sh)
    with put [OF put_err(4)] pairsD(1) [OF assms(3), of "Claimed q v" q v] show ?thesis by auto
  next
    case (retry_ok q v F u sh)
    with put [OF retry_ok(3)] pairsD(1) [OF assms(3), of "GRetry q v" q v] show ?thesis by auto
  next
    case (retry_err q v F u sh)
    with put [OF retry_err(3)] pairsD(1) [OF assms(3), of "GRetry q v" q v] show ?thesis by auto
  next
    case (group_flush q v b F r sh)
    have b: "assigned s y = Some w" if "(y, w) \<in> set b" for y w
      using pairsD(1) [OF assms(3), of "GFlush q v b"] that group_flush(2) by auto
    have "safe (store sh) (entry_key x) u"
      by (rule keep_commit [OF group_flush(3) assms(2,4)]) (use x b in \<open>force simp: batch_ops_def\<close>)
    with group_flush show ?thesis by simp
  next
    case (ack_deletes q v G u sh)
    with del [OF ack_deletes(3)] show ?thesis by auto
  next
    case (ack_fails q v G u sh)
    with del [OF ack_fails(3)] show ?thesis by auto
  next
    case (seek_ends c F r st)
    with safe_seek [OF assms(2) seek_ends(3) assms(4)] show ?thesis by simp
  next
    case (seek_finds c F k v st q)
    with safe_seek [OF assms(2) seek_finds(3) assms(4)] show ?thesis by simp
  qed (use assms(4) in \<open>auto simp: close_def\<close>)
qed

lemma fresh_landed_safe:
  assumes "(q, v) \<in> fresh_landed S s t" and "sinv (store (shared s))" and "dur \<longrightarrow> durable (shared s)"
  shows "safe (store (shared t)) (entry_key q) v"
proof -
  obtain ops d where c: "commit_to S (shared s) ops d = (Inr (), shared t)" and q: "Put (entry_key q) v \<in> set ops"
    and put: "\<And>x u. Put (entry_key x) u \<in> set ops \<Longrightarrow> assigned s x = Some u"
    and del: "\<And>x. Delete (entry_key x) \<notin> set ops" and d: "dur \<longrightarrow> d"
    using assms(1,3) unfolding fresh_landed_def by blast
  show ?thesis
  proof (rule land_commit [OF c assms(2) d q])
    fix y assume y: "y \<in> set ops" "op_key y = entry_key q"
    show "y = Put (entry_key q) v"
    proof (cases y)
      case (Put k w)
      then have "Put (entry_key q) w \<in> set ops" using y by simp
      then have "w = v" using put [OF q] put by fastforce
      then show ?thesis using Put y(2) by simp
    next
      case (Delete k)
      then show ?thesis using y del [of q] by simp
    qed
  qed
qed

lemma kept_step:
  assumes "step S s t" and "sinv (store (shared s))" and "pairs_ok view s" and "kept_ok safe s"
    and "dur \<longrightarrow> durable (shared s)" and "cursors_ok s"
  shows "kept_ok safe t"
proof -
  have tried: "ack_tried s \<subseteq> ack_tried t"
    using assms(1) by cases auto
  have "x \<in> ack_tried t \<or> safe (store (shared t)) (entry_key x) u" if "(x, u) \<in> landed t" for x u
  proof -
    consider "(x, u) \<in> landed s" | "(x, u) \<in> fresh_landed S s t"
      using landed_step [OF assms(1,3) _ assms(6)] assms(4) \<open>(x, u) \<in> landed t\<close> by (auto simp: kept_ok_def)
    then show ?thesis
    proof cases
      case 1
      then show ?thesis
        using assms(4) tried safe_step [OF assms(1-3), of x u] by (auto simp: kept_ok_def)
    next
      case 2
      with fresh_landed_safe [OF _ assms(2,5)] show ?thesis by blast
    qed
  qed
  moreover have "dom (done_map (group_state (shared t))) \<subseteq> dom (assigned t)"
    using landed_step [OF assms(1,3) _ assms(6)] assms(4) by (simp add: kept_ok_def)
  ultimately show ?thesis by (auto simp: kept_ok_def)
qed

end

end
