(* ===== verification/Reopen.thy ===== *)
theory Reopen imports Delivery begin

text \<open>
  What \<open>Builder::open\<close> gives (\<open>src/src/queue.rs\<close>, lines 205--274): the recovered queue is
  well-formed and holds exactly the items of the store; a store is refused only for the other
  format version it records (\<open>stored_version\<close>), and then untouched; a store that holds the last sequence number cannot be opened. And what a reopened
  queue forgets: the numbers of items that are gone.
\<close>

context store_contract begin

text \<open>The three calls of \<open>open\<close> that can fail, and where each error comes from.\<close>

lemma check_meta_error:
  assumes "sinv st" and "check_meta S st d = (Err (Open_Store e), st')"
  shows "\<exists>s k ops dd. fst (get S s k) = Inl e \<or> fst (commit S s ops dd) = Inl e"
  using assms(2)
  by (auto simp: check_meta_def Let_def split: prod.splits sum.splits option.splits if_splits list.splits)
    (metis fst_conv)+

lemma find_tail_error:
  assumes "find_tail S st = (Err e, st')"
  shows "\<exists>s k x. e = Open_Store x \<and> fst (seek_back S s k) = Inl x"
  using assms
  by (auto simp: find_tail_def split: prod.splits sum.splits option.splits if_splits) (metis fst_conv)+

end

definition store_errors :: "('s, 'e) Store \<Rightarrow> 'e set" where
  "store_errors S = {e. \<exists>st k ops d. fst (get S st k) = Inl e \<or> fst (seek S st k) = Inl e \<or>
     fst (seek_back S st k) = Inl e \<or> fst (commit S st ops d) = Inl e}"

lemma mem_no_errors: "store_errors (MemStore :: (mem_store, unit) Store) = {}"
  by (simp add: store_errors_def mem_defs)

context store_contract begin

lemma open_queue_errors:
  assumes "sinv (b_store b)" and "only_queue_keys (view (b_store b))"
    and "open_queue S b = Some (Err (Open_Store e), st)"
  shows "e \<in> store_errors S"
proof -
  let ?d = "durability_durable (b_durability b)"
  obtain c st1 where c: "check_meta S (b_store b) ?d = (c, st1)" by fastforce
  note cm = check_meta_result [OF assms(1,2) c]
  obtain f st2 where f: "find_tail S st1 = (f, st2)" by fastforce
  note ft = find_tail_result [OF cm(1,3) f]
  show ?thesis
  proof (cases c)
    case (Err x)
    with assms(3) c have "c = Err (Open_Store e)" by (simp add: open_queue_def)
    with check_meta_error [OF assms(1)] c show ?thesis by (fastforce simp: store_errors_def)
  next
    case Panic
    with cm(4) show ?thesis by simp
  next
    case (Ok u)
    show ?thesis
    proof (cases f)
      case (Err x)
      with assms(3) c Ok f have "f = Err (Open_Store e)" by (simp add: open_queue_def)
      with find_tail_error f show ?thesis by (fastforce simp: store_errors_def)
    next
      case Panic
      with assms(3) c \<open>c = Ok u\<close> f show ?thesis by (simp add: open_queue_def)
    next
      case t: (Ok t)
      have "only_queue_keys (view st2)" "sinv st2" using ft(1) cm by simp_all
      then obtain r st3 where r: "recover_scan S st2 ENTRY_LOW \<lparr>rec_head = t, rec_len = 0, rec_bytes = 0\<rparr> = Some (r, st3)"
        "\<forall>x. r = Err x \<longrightarrow> (\<exists>s c e'. x = Open_Store e' \<and> fst (seek S s c) = Inl e')"
        using recover_scan_result [of st2 ENTRY_LOW "\<lparr>rec_head = t, rec_len = 0, rec_bytes = 0\<rparr>"] by auto
      with assms(3) c Ok f t have "r = Err (Open_Store e)"
        by (cases r) (simp_all add: open_queue_def)
      with r(2) show ?thesis by (auto simp: store_errors_def)
    qed
  qed
qed

lemma open_queue_version:
  assumes "sinv (b_store b)" and "view (b_store b) META_KEY = Some meta"
    and "(case meta of [] \<Rightarrow> 0 | v # _ \<Rightarrow> v) \<noteq> FORMAT_VERSION"
  obtains res st where "open_queue S b = Some (res, st)" "sinv st" "view st = view (b_store b)"
    "res = Err (UnsupportedVersion (case meta of [] \<Rightarrow> 0 | v # _ \<Rightarrow> v)) \<or>
     (\<exists>e. res = Err (Open_Store e) \<and> e \<in> store_errors S)"
proof -
  obtain g st1 where g: "get S (b_store b) META_KEY = (g, st1)" by fastforce
  note keeps = get_keeps [OF assms(1) g]
  show thesis
  proof (cases g)
    case (Inl e)
    have "e \<in> store_errors S" using g Inl by (auto simp: store_errors_def) (metis fst_conv)
    with g Inl keeps show thesis
      by (intro that [of "Err (Open_Store e)" st1]) (simp_all add: open_queue_def check_meta_def)
  next
    case (Inr mo)
    then have "mo = Some meta" using get_reads [OF assms(1)] g assms(2) by simp
    with g Inr keeps assms(3) show thesis
      by (intro that [of "Err (UnsupportedVersion (case meta of [] \<Rightarrow> 0 | v # _ \<Rightarrow> v))" st1])
        (simp_all add: open_queue_def check_meta_def Let_def)
  qed
qed

end

text \<open>The format version a store records: the first byte of the meta record, 0 if that is empty.\<close>

definition stored_version :: "(key \<rightharpoonup> val) \<Rightarrow> byte option" where
  "stored_version m = map_option (\<lambda>meta. case meta of [] \<Rightarrow> 0 | v # _ \<Rightarrow> v) (m META_KEY)"

context store_contract begin

lemma check_meta_recorded:
  assumes "sinv st" and "check_meta S st d = (Ok u, st')"
  shows "stored_version (view st) \<in> {None, Some FORMAT_VERSION}" "stored_version (view st') = Some FORMAT_VERSION"
proof -
  obtain g st1 where g: "get S st META_KEY = (g, st1)" by fastforce
  note keeps = get_keeps [OF assms(1) g]
  obtain r where r: "g = Inr r" using assms(2) g by (cases g) (auto simp: check_meta_def)
  with get_reads [OF assms(1)] g have r': "r = view st META_KEY" by blast
  have "stored_version (view st) \<in> {None, Some FORMAT_VERSION} \<and> stored_version (view st') = Some FORMAT_VERSION"
  proof (cases r)
    case None
    obtain c st2 where c: "commit S st1 [Put META_KEY [FORMAT_VERSION]] d = (c, st2)" by fastforce
    with None r g assms(2) have "c = Inr ()" "st' = st2" by (auto simp: check_meta_def split: sum.splits)
    with commit_ok [of st1] c keeps None r' show ?thesis by (auto simp: stored_version_def)
  next
    case (Some meta)
    with r g assms(2) have "(case meta of [] \<Rightarrow> 0 | v # _ \<Rightarrow> v) = FORMAT_VERSION" "st' = st1"
      by (auto simp: check_meta_def Let_def split: if_splits)
    with Some r' keeps show ?thesis by (simp add: stored_version_def)
  qed
  then show "stored_version (view st) \<in> {None, Some FORMAT_VERSION}" "stored_version (view st') = Some FORMAT_VERSION" by blast+
qed

text \<open>The version check decides: an opened queue had no version or this one, a refused store another one.\<close>

lemma open_queue_recorded:
  assumes "sinv (b_store b)" and "only_queue_keys (view (b_store b))" and "open_queue S b = Some (res, st)"
  shows "\<forall>sh. res = Ok sh \<longrightarrow> stored_version (view (b_store b)) \<in> {None, Some FORMAT_VERSION} \<and>
      stored_version (view st) = Some FORMAT_VERSION"
    "\<forall>x. res = Err (UnsupportedVersion x) \<longrightarrow> stored_version (view (b_store b)) = Some x \<and> x \<noteq> FORMAT_VERSION"
proof -
  obtain c st1 where c: "check_meta S (b_store b) (durability_durable (b_durability b)) = (c, st1)" by fastforce
  note cm = check_meta_result [OF assms(1,2) c]
  obtain f st2 where f: "find_tail S st1 = (f, st2)" by fastforce
  note ft = find_tail_result [OF cm(1,3) f]
  have "(\<forall>sh. res = Ok sh \<longrightarrow> stored_version (view (b_store b)) \<in> {None, Some FORMAT_VERSION} \<and>
      stored_version (view st) = Some FORMAT_VERSION) \<and>
    (\<forall>x. res = Err (UnsupportedVersion x) \<longrightarrow> stored_version (view (b_store b)) = Some x \<and> x \<noteq> FORMAT_VERSION)"
  proof (cases "\<exists>u t. c = Ok u \<and> f = Ok t")
    case True
    then obtain u t where ok: "c = Ok u" "f = Ok t" by blast
    obtain r st3 where r: "recover_scan S st2 ENTRY_LOW \<lparr>rec_head = t, rec_len = 0, rec_bytes = 0\<rparr> = Some (r, st3)"
      "view st3 = view st2" "\<forall>x. r = Err x \<longrightarrow> (\<exists>s c e'. x = Open_Store e' \<and> fst (seek S s c) = Inl e')"
      using recover_scan_result [of st2 ENTRY_LOW "\<lparr>rec_head = t, rec_len = 0, rec_bytes = 0\<rparr>"] ft(1) cm by auto
    with assms(3) c f ok have "res = (case r of Err e \<Rightarrow> Err e | Panic \<Rightarrow> Panic | Ok r \<Rightarrow> Ok (new_shared b st3 t r))" "st = st3"
      by (cases r; simp add: open_queue_def)+
    with r(2,3) ft(1) check_meta_recorded [OF assms(1)] c ok(1) show ?thesis by (cases r) auto
  next
    case False
    with assms(3) c f ft(5) cm(5) show ?thesis
      by (cases c; cases f) (auto simp: open_queue_def stored_version_def)
  qed
  then show "\<forall>sh. res = Ok sh \<longrightarrow> stored_version (view (b_store b)) \<in> {None, Some FORMAT_VERSION} \<and>
      stored_version (view st) = Some FORMAT_VERSION"
    "\<forall>x. res = Err (UnsupportedVersion x) \<longrightarrow> stored_version (view (b_store b)) = Some x \<and> x \<noteq> FORMAT_VERSION" by blast+
qed

end

section \<open>Properties\<close>

text \<open>C8. Recovery. Over any store of the contract that holds only queue keys, \<open>open\<close> returns, whatever
  the store answers, and keeps the items. If it succeeds the queue is well-formed, nothing is
  taken, the next number is one above the greatest stored one, the builder's settings are kept,
  \<open>len\<close> and \<open>bytes\<close> are exact, and the store had no format version or this one and has it now; it
  panics only if the last number is taken or a count overflows, a store error it reports was the
  store's, and it refuses a version only if that is the one the store records and not this one.\<close>

theorem open_recovers:
  assumes "store_contract S sinv view" and "sinv (b_store b)" and "only_queue_keys (view (b_store b))"
  shows "\<exists>res st. open_queue S b = Some (res, st) \<and> sinv st \<and>
    items_of (view st) = items_of (view (b_store b)) \<and>
    (case res of
       Ok sh \<Rightarrow> store sh = st \<and> wf_queue (view st) sh \<and>
         abs_queue (view st) sh = \<lparr>a_items = items_of (view (b_store b)), a_taken = {},
           a_next = tail_of (items_of (view (b_store b))), a_closed = False\<rparr> \<and>
         len (inner sh) = card (dom (items_of (view (b_store b)))) \<and>
         bytes (inner sh) = weight length (items_of (view (b_store b))) \<and>
         capacity sh = b_capacity b \<and> max_bytes sh = b_max_bytes b \<and>
         durable sh = durability_durable (b_durability b) \<and> group sh = durability_group (b_durability b) \<and>
         ack_durable sh = (durability_durable (b_durability b) \<and> b_durable_acks b) \<and>
         stored_version (view (b_store b)) \<in> {None, Some FORMAT_VERSION} \<and> stored_version (view st) = Some FORMAT_VERSION
     | Err (Open_Store e) \<Rightarrow> e \<in> store_errors S
     | Err (UnsupportedVersion x) \<Rightarrow> stored_version (view (b_store b)) = Some x \<and> x \<noteq> FORMAT_VERSION
     | Panic \<Rightarrow> items_of (view (b_store b)) (- 1) \<noteq> None \<or>
         usize_max < card (dom (items_of (view (b_store b)))) \<or>
         usize_max < weight length (items_of (view (b_store b))))"
proof -
  let ?m = "items_of (view (b_store b))"
  obtain res st where r: "open_queue S b = Some (res, st)" "sinv st" "items_of (view st) = ?m"
    "only_queue_keys (view st)"
    "\<forall>sh. res = Ok sh \<longrightarrow> ?m (- 1) = None \<and> sh = new_shared b st (tail_of ?m)
       \<lparr>rec_head = head_of ?m, rec_len = card (dom ?m), rec_bytes = weight length ?m\<rparr>"
    "res = Panic \<longrightarrow> ?m (- 1) \<noteq> None \<or> usize_max < card (dom ?m) \<or> usize_max < weight length ?m"
    by (rule store_contract.open_queue_result [OF assms], rule that) (assumption | blast)+
  note ver = store_contract.open_queue_recorded [OF assms r(1)]
  show ?thesis
  proof (intro exI conjI)
    show "open_queue S b = Some (res, st)" by (rule r(1))
    show "sinv st" "items_of (view st) = ?m" by (rule r)+
    show "case res of
       Ok sh \<Rightarrow> store sh = st \<and> wf_queue (view st) sh \<and>
         abs_queue (view st) sh = \<lparr>a_items = ?m, a_taken = {}, a_next = tail_of ?m, a_closed = False\<rparr> \<and>
         len (inner sh) = card (dom ?m) \<and> bytes (inner sh) = weight length ?m \<and>
         capacity sh = b_capacity b \<and> max_bytes sh = b_max_bytes b \<and>
         durable sh = durability_durable (b_durability b) \<and> group sh = durability_group (b_durability b) \<and>
         ack_durable sh = (durability_durable (b_durability b) \<and> b_durable_acks b) \<and>
         stored_version (view (b_store b)) \<in> {None, Some FORMAT_VERSION} \<and> stored_version (view st) = Some FORMAT_VERSION
     | Err (Open_Store e) \<Rightarrow> e \<in> store_errors S
     | Err (UnsupportedVersion x) \<Rightarrow> stored_version (view (b_store b)) = Some x \<and> x \<noteq> FORMAT_VERSION
     | Panic \<Rightarrow> ?m (- 1) \<noteq> None \<or> usize_max < card (dom ?m) \<or> usize_max < weight length ?m"
    proof (cases res)
      case (Ok sh)
      then have "?m (- 1) = None" and sh: "sh = new_shared b st (tail_of ?m)
         \<lparr>rec_head = head_of ?m, rec_len = card (dom ?m), rec_bytes = weight length ?m\<rparr>" using r(5) by blast+
      then have "wf_queue (view st) sh" using wf_new_shared [OF r(4,3)] by simp
      with sh r(3) Ok ver show ?thesis by (simp add: new_shared_def Let_def abs_queue_def)
    next
      case (Err e)
      then show ?thesis
        using store_contract.open_queue_errors [OF assms] ver r(1) by (cases e) auto
    next
      case Panic
      with r(6) show ?thesis by simp
    qed
  qed
qed

text \<open>C39. A store written by another format version is refused: \<open>open\<close> reports that version (an empty
  meta record counts as version 0), or the error of the one read it makes, and leaves the contents
  alone.\<close>

theorem open_refuses_version:
  assumes "store_contract S sinv view" and "sinv (b_store b)"
    and "view (b_store b) META_KEY = Some meta" and "(case meta of [] \<Rightarrow> 0 | v # _ \<Rightarrow> v) \<noteq> FORMAT_VERSION"
  shows "\<exists>res st. open_queue S b = Some (res, st) \<and> sinv st \<and> view st = view (b_store b) \<and>
    (res = Err (UnsupportedVersion (case meta of [] \<Rightarrow> 0 | v # _ \<Rightarrow> v)) \<or>
     (\<exists>e. res = Err (Open_Store e) \<and> e \<in> store_errors S))"
  by (rule store_contract.open_queue_version [OF assms]) blast

text \<open>C35. The end of the number space. A store that holds an item under the last number can never be
  opened again: over any store, \<open>open\<close> panics computing the next number or reports an error, and
  the items stay where they are.\<close>

theorem open_fails_at_last_number:
  assumes "store_contract S sinv view" and "sinv (b_store b)" and "only_queue_keys (view (b_store b))"
    and "items_of (view (b_store b)) (- 1) \<noteq> None"
  shows "\<exists>res st. open_queue S b = Some (res, st) \<and> (\<forall>sh. res \<noteq> Ok sh) \<and>
    items_of (view st) = items_of (view (b_store b))"
proof -
  let ?m = "items_of (view (b_store b))"
  obtain res st where r: "open_queue S b = Some (res, st)" "items_of (view st) = ?m"
    "\<forall>sh. res = Ok sh \<longrightarrow> ?m (- 1) = None"
    by (rule store_contract.open_queue_result [OF assms(1-3)], rule that) (assumption | blast)+
  show ?thesis
    by (rule exI [of _ res], rule exI [of _ st]) (use r assms(4) in auto)
qed

section \<open>Concrete runs\<close>

abbreviation MemR :: "(mem_store, unit) Store" where
  "MemR \<equiv> MemStore"

definition fresh_store :: mem_store where
  "fresh_store = [(META_KEY, [FORMAT_VERSION])]"

text \<open>The queue over the store \<open>m\<close> with the default builder: head, tail and counts as given.\<close>

definition default_queue :: "mem_store \<Rightarrow> u64 \<Rightarrow> u64 \<Rightarrow> usize \<Rightarrow> u64 set \<Rightarrow> mem_store Shared" where
  "default_queue m h t n R = \<lparr>store = m, capacity = 1024, max_bytes = usize_max, durable = True,
     ack_durable = True, group = False, inner = \<lparr>tail = t, head = h, acked_above = {}, len = n, bytes = n,
       reserved = R, closed = False\<rparr>, group_state = group_default\<rparr>"

lemma b_store_new [simp]: "b_store (builder_new st) = st"
  by (simp add: builder_new_def)

lemmas open_defs = open_queue_def check_meta_def find_tail_def mem_defs builder_new_def new_shared_def
  Let_def not_le not_less

lemma entry_high_order [simp]: "META_KEY \<le> ENTRY_HIGH" "\<not> ENTRY_HIGH < META_KEY"
proof -
  have "META_KEY < ENTRY_HIGH" by (rule order.strict_trans2 [OF meta_below_entry entry_below_high])
  then show "META_KEY \<le> ENTRY_HIGH" "\<not> ENTRY_HIGH < META_KEY" by simp_all
qed

lemma open_empty: "open_queue MemR (builder_new []) = Some (Ok (default_queue fresh_store 0 0 0 {}), fresh_store)"
  by (simp add: open_defs recover_scan.simps default_queue_def fresh_store_def)

lemma open_fresh:
  "open_queue MemR (builder_new fresh_store) = Some (Ok (default_queue fresh_store 0 0 0 {}), fresh_store)"
  by (simp add: open_defs recover_scan.simps default_queue_def fresh_store_def)

lemma open_demo:
  "open_queue MemR (builder_new demo_store) = Some (Ok (default_queue demo_store 0 1 1 {}), demo_store)"
  by (simp add: open_defs recover_scan.simps default_queue_def demo_store_def checked_inc_def checked_add_def
      less_imp_le)

theorem open_recovers_witness:
  "\<exists>sh. open_queue MemR (builder_new demo_store) = Some (Ok sh, demo_store) \<and>
    a_items (abs_queue (map_of demo_store) sh) = [0 \<mapsto> [7]] \<and> len (inner sh) = 1 \<and> wf_queue (map_of demo_store) sh"
proof -
  have "store_contract MemR bt_ordered map_of" "bt_ordered (b_store (builder_new demo_store))"
    "only_queue_keys (map_of (b_store (builder_new demo_store)))"
    using mem.store_contract_axioms demo_ordered demo_keys by (simp_all add: builder_new_def)
  from open_recovers [OF this] open_demo show ?thesis
    by (simp add: builder_new_def demo_items)
qed

theorem open_refuses_version_witness:
  "\<exists>st. open_queue MemR (builder_new [(META_KEY, [2])]) = Some (Err (UnsupportedVersion 2), st) \<and>
    map_of st META_KEY = Some [2] \<and> items_of (map_of st) = Map.empty"
proof -
  let ?b = "builder_new [(META_KEY, [2])]"
  have h: "store_contract MemR bt_ordered map_of" "bt_ordered (b_store ?b)" "map_of (b_store ?b) META_KEY = Some [2]"
    "(case [2] of [] \<Rightarrow> 0 | v # _ \<Rightarrow> v) \<noteq> FORMAT_VERSION"
    using mem.store_contract_axioms by (simp_all add: FORMAT_VERSION_def)
  have m: "map_of [(META_KEY, [2 :: byte])] = [META_KEY \<mapsto> [2]]" by simp
  from open_refuses_version [OF h] show ?thesis
    unfolding mem_no_errors b_store_new m by (force simp del: fun_upd_apply simp add: fun_upd_same)
qed

theorem open_fails_at_last_number_witness:
  "\<exists>res st. open_queue MemR (builder_new [(META_KEY, [FORMAT_VERSION]), (entry_key (- 1), [7])]) = Some (res, st) \<and>
    (\<forall>sh. res \<noteq> Ok sh) \<and> items_of (map_of st) = [- 1 \<mapsto> [7]]"
proof -
  let ?m = "[(META_KEY, [FORMAT_VERSION]), (entry_key (- 1), [7])]"
  have i: "items_of (map_of ?m) = [- 1 \<mapsto> [7]]" by simp
  have h: "store_contract MemR bt_ordered map_of" "bt_ordered (b_store (builder_new ?m))"
    "only_queue_keys (map_of (b_store (builder_new ?m)))" "items_of (map_of (b_store (builder_new ?m))) (- 1) \<noteq> None"
    using mem.store_contract_axioms i by simp_all
  from open_fails_at_last_number [OF h] show ?thesis unfolding b_store_new i .
qed

text \<open>C36. A limit of the sequence number as an identity. Over the in-memory store (which behaves as a
  perfect disk here): open, push, reserve, ack, open again, push, reserve. The second item, a
  different value, is delivered under the number of the first, which was delivered and acked: a
  consumer that discards numbers it has seen would discard the new item.\<close>

theorem number_reused_after_reopen:
  "\<exists>sh st sh1 r sh2 sh3 sh4 st' sh5 r' sh6.
    open_queue MemR (builder_new []) = Some (Ok sh, st) \<and>
    push MemR sh [7] = Some (Ok (), sh1) \<and> reserve MemR sh1 = Some (Ok (Some r), sh2) \<and>
    ack MemR sh2 r = (Ok (), sh3) \<and>
    open_queue MemR (builder_new (store sh3)) = Some (Ok sh4, st') \<and>
    push MemR sh4 [8] = Some (Ok (), sh5) \<and> reserve MemR sh5 = Some (Ok (Some r'), sh6) \<and>
    res_seq r' = res_seq r \<and> res_value r' \<noteq> res_value r"
proof -
  let ?r = "\<lambda>v. \<lparr>res_seq = 0, res_value = v, res_done = False\<rparr>"
  let ?m = "\<lambda>v. [(META_KEY, [FORMAT_VERSION]), (entry_key 0, [v])]"
  have p: "push MemR (default_queue fresh_store 0 0 0 {}) [v] = Some (Ok (), default_queue (?m v) 0 1 1 {})" for v
    by (simp add: push_def enter_def admits_def claim_def write_entry_def commit_to_def mem_commit_def
        default_queue_def fresh_store_def checked_inc_def checked_add_def saturating_add_def not_less less_imp_le)
  have r: "reserve MemR (default_queue (?m v) 0 1 1 {}) = Some (Ok (Some (?r [v])), default_queue (?m v) 0 1 1 {0})" for v
    by (simp add: reserve_def reserve_loop.simps mem_seek_def default_queue_def not_le reserve_check_def)
  have a: "ack MemR (default_queue (?m v) 0 1 1 {0}) (?r [v]) = (Ok (), default_queue fresh_store 1 1 0 {})" for v
    by (simp add: ack_def commit_to_def mem_commit_def ack_finish_def checked_sub_def checked_inc_def jump.simps
        default_queue_def fresh_store_def drop_reserved_def Let_def)
  have s: "store (default_queue fresh_store 1 1 0 {}) = fresh_store" by (simp add: default_queue_def)
  show ?thesis
  proof (intro exI conjI)
    show "open_queue MemR (builder_new []) = Some (Ok (default_queue fresh_store 0 0 0 {}), fresh_store)"
      by (rule open_empty)
    show "push MemR (default_queue fresh_store 0 0 0 {}) [7] = Some (Ok (), default_queue (?m 7) 0 1 1 {})"
      by (rule p)
    show "reserve MemR (default_queue (?m 7) 0 1 1 {}) = Some (Ok (Some (?r [7])), default_queue (?m 7) 0 1 1 {0})"
      by (rule r)
    show "ack MemR (default_queue (?m 7) 0 1 1 {0}) (?r [7]) = (Ok (), default_queue fresh_store 1 1 0 {})"
      by (rule a)
    show "open_queue MemR (builder_new (store (default_queue fresh_store 1 1 0 {}))) =
        Some (Ok (default_queue fresh_store 0 0 0 {}), fresh_store)" unfolding s by (rule open_fresh)
    show "push MemR (default_queue fresh_store 0 0 0 {}) [8] = Some (Ok (), default_queue (?m 8) 0 1 1 {})"
      by (rule p)
    show "reserve MemR (default_queue (?m 8) 0 1 1 {}) = Some (Ok (Some (?r [8])), default_queue (?m 8) 0 1 1 {0})"
      by (rule r)
  qed simp_all
qed

end
