(* ===== verification/Survival.thy ===== *)
theory Survival imports NoLoss Reopen begin

text \<open>
  What the invariants of \<open>NoLoss\<close> give a user of the queue, for every interleaving of any number
  of threads: an item whose push returned \<open>Ok\<close> and that no ack has tried to delete is in the
  store and ahead of the head; it survives a crash when the queue is durable: opening the store
  again never refuses it, and the reopened queue has the item; what is delivered or stored is what was pushed.
\<close>

section \<open>The invariants hold in every reachable state\<close>

lemma boot_cursors:
  assumes "wf_queue m sh"
  shows "cursors_ok (boot (items_of m) sh)"
  using wf_queueD [OF assms] by (fastforce simp: cursors_ok_def boot_def Let_def past_def)

lemma boot_pairs:
  "wf_queue (view (store sh)) sh \<Longrightarrow> pairs_ok view (boot (items_of (view (store sh))) sh)"
  by (auto simp: pairs_ok_def pairs_def boot_def group_default_def dest: wf_queueD(8))

lemma boot_sel [simp]:
  "shared (boot m sh) = sh" "assigned (boot m sh) = m" "accepted (boot m sh) = m"
  "ack_tried (boot m sh) = {}" "flight (boot m sh) = {#}" "guards (boot m sh) = {#}"
  "poisoned (boot m sh) = False" "delivered (boot m sh) = []"
  by (simp_all add: boot_def)

context retention begin

lemma reach_kept:
  assumes "reach S C (boot (items_of (view (store sh))) sh) s"
    and "sinv (store sh)" and "wf_queue (view (store sh)) sh" and "dur \<longrightarrow> durable sh"
    and "\<And>q v. items_of (view (store sh)) q = Some v \<Longrightarrow> safe (store sh) (entry_key q) v"
  shows "sinv (store (shared s))" "cursors_ok s" "pairs_ok view s" "kept_ok safe s"
proof -
  let ?J = "\<lambda>s. sinv (store (shared s)) \<and> cursors_ok s \<and> pairs_ok view s \<and> kept_ok safe s \<and>
    (dur \<longrightarrow> durable (shared s))"
  have "?J s"
    using assms(1)
  proof (rule reach_inv)
    show "?J (boot (items_of (view (store sh))) sh)"
      using assms(2-5) boot_cursors [OF assms(3)] boot_pairs [of view sh] wf_queueD(8) [OF assms(3)]
      by (auto simp: kept_ok_def landed_def group_default_def)
  next
    fix s t assume "step S s t" "C t" and J: "?J s"
    then show "?J t"
      using cursors_step [of S s t view] pairs_step [of s t] kept_step [of s t] step_conf [of S s t]
      by (simp add: fixed_conf_def)
  qed
  then show "sinv (store (shared s))" "cursors_ok s" "pairs_ok view s" "kept_ok safe s" by blast+
qed

lemma accepted_safe:
  assumes "kept_ok safe s" and "accepted s q = Some v" and "q \<notin> ack_tried s"
  shows "safe (store (shared s)) (entry_key q) v"
  using assms by (auto simp: kept_ok_def landed_def)

end

context store_contract begin

lemmas live_kept = live.reach_kept
lemmas live_accepted = live.accepted_safe

end

context durable_store begin

lemmas disk_kept = disk.reach_kept
lemmas disk_accepted = disk.accepted_safe

end

lemma accepted_ahead:
  assumes "cursors_ok s" and "pairs_ok view s" and "accepted s q = Some v" and "q \<notin> ack_tried s"
  shows "head (inner (shared s)) \<le> q" "q \<notin> acked_above (inner (shared s))" "q < tail (inner (shared s))"
proof -
  have "q \<in> dom (assigned s)" using pairsD(4) [OF assms(2,3)] by blast
  then have "q < tail (inner (shared s))" "q \<notin> past (inner (shared s))"
    using assms(1,4) by (auto simp: cursors_ok_def Let_def)
  then show "head (inner (shared s)) \<le> q" "q \<notin> acked_above (inner (shared s))" "q < tail (inner (shared s))"
    by (auto simp: past_def)
qed

section \<open>What is on disk\<close>

text \<open>Every step's effect on the store is one seek or one commit of entry keys.\<close>

lemma step_store:
  assumes "step S s t"
  shows "store (shared t) = store (shared s) \<or>
    (\<exists>c r. seek S (store (shared s)) c = (r, store (shared t))) \<or>
    (\<exists>ops d r. commit S (store (shared s)) ops d = (r, store (shared t)) \<and>
       (\<forall>x \<in> set ops. \<exists>q. op_key x = entry_key q) \<and>
       (\<forall>q v. Put (entry_key q) v \<in> set ops \<longrightarrow> (q, v) \<in> pairs view s))"
proof -
  have effect: ?thesis
    if "commit S (store (shared s)) ops d = (r, store (shared t))" and "\<forall>x \<in> set ops. \<exists>q. op_key x = entry_key q"
      and "\<forall>q v. Put (entry_key q) v \<in> set ops \<longrightarrow> (q, v) \<in> pairs view s" for ops d r
    using that by blast
  show ?thesis
    using assms
  proof cases
    case (put_ok q v F u sh)
    with commit_to_sel(8) [OF put_ok(4)] show ?thesis
      by (intro effect) (auto simp: pairs_def batch_ops_def)
  next
    case (put_err q v F e sh)
    with commit_to_sel(8) [OF put_err(4)] show ?thesis
      by (intro effect) (auto simp: pairs_def batch_ops_def)
  next
    case (retry_ok q v F u sh)
    with commit_to_sel(8) [OF retry_ok(3)] show ?thesis
      by (intro effect) (auto simp: pairs_def batch_ops_def)
  next
    case (retry_err q v F e sh)
    with commit_to_sel(8) [OF retry_err(3)] show ?thesis
      by (intro effect) (auto simp: pairs_def batch_ops_def)
  next
    case (group_flush q v b F r sh)
    with commit_to_sel(8) [OF group_flush(3)] show ?thesis
      by (intro effect) (auto simp: pairs_def batch_ops_def)
  next
    case (ack_deletes q v G u sh)
    with commit_to_sel(8) [OF ack_deletes(3)] show ?thesis
      by (intro effect) (auto simp: pairs_def batch_ops_def)
  next
    case (ack_fails q v G e sh)
    with commit_to_sel(8) [OF ack_fails(3)] show ?thesis
      by (intro effect) (auto simp: pairs_def batch_ops_def)
  qed (auto simp: close_def)
qed

text \<open>So the keys stay well-formed, whatever fails.\<close>

context store_contract begin

lemma commit_queue_keys:
  assumes "sinv st" and "commit S st ops d = (r, st')" and "only_queue_keys (view st)"
    and "\<forall>x \<in> set ops. \<exists>q. op_key x = entry_key q"
  shows "only_queue_keys (view st')"
  unfolding only_queue_keys_def
proof
  fix k
  assume k: "k \<in> dom (view st')"
  show "k = META_KEY \<or> is_entry k"
  proof (cases "k \<in> op_key ` set ops")
    case True
    with assms(4) show ?thesis by (auto simp: image_iff)
  next
    case False
    with commit_other [OF assms(1,2)] k assms(3) show ?thesis by (auto simp: only_queue_keys_def dom_def)
  qed
qed

lemma queue_keys_step:
  assumes "step S s t" and "sinv (store (shared s)) \<and> only_queue_keys (view (store (shared s)))"
  shows "sinv (store (shared t)) \<and> only_queue_keys (view (store (shared t)))"
  using step_store [OF assms(1), of view] assms(2)
  by (metis seek_keeps commit_keeps commit_queue_keys)

end

lemma assigned_grows:
  assumes "step S s t" and "cursors_ok s" and "assigned s q = Some v"
  shows "assigned t q = Some v"
proof -
  have "q < tail (inner (shared s))"
    using assms(2,3) by (auto simp: cursors_ok_def Let_def)
  with assms(1,3) show ?thesis by cases auto
qed

definition disk_ok :: "('s \<Rightarrow> key \<rightharpoonup> val) \<Rightarrow> ('s \<Rightarrow> key \<rightharpoonup> val) \<Rightarrow> 's Sys \<Rightarrow> bool" where
  "disk_ok view kept s \<longleftrightarrow>
     (\<forall>k. view (store (shared s)) k \<noteq> None \<or> kept (store (shared s)) k \<noteq> None \<longrightarrow>
        k = META_KEY \<or> is_entry k) \<and>
     (\<forall>q v. kept (store (shared s)) (entry_key q) = Some v \<longrightarrow> assigned s q = Some v)"

context durable_store begin

lemma disk_step:
  assumes "step S s t" and "cursors_ok s" and "sinv (store (shared s))" and "pairs_ok view s"
    and "disk_ok view stable s"
  shows "disk_ok view stable t"
proof -
  let ?s = "store (shared s)" and ?t = "store (shared t)"
  have pt: "pairs_ok view t" using pairs_step [OF assms(1-4)] by blast
  have vt: "view ?t k \<noteq> None \<Longrightarrow> view ?s k \<noteq> None \<or> is_entry k"
    and st: "stable ?t k \<in> {stable ?s k, view ?s k, view ?t k}" for k
  proof -
    have "(view ?t k \<noteq> None \<longrightarrow> view ?s k \<noteq> None \<or> is_entry k) \<and>
      stable ?t k \<in> {stable ?s k, view ?s k, view ?t k}"
      using step_store [OF assms(1), of view]
    proof (elim disjE exE conjE)
      fix c r assume "seek S ?s c = (r, ?t)"
      then show ?thesis
        using seek_keeps [OF assms(3)] seek_stable [OF assms(3)] by (metis insert_iff)
    next
      fix ops d r
      assume c: "commit S ?s ops d = (r, ?t)" and e: "\<forall>x \<in> set ops. \<exists>q. op_key x = entry_key q"
      have "view ?t k = view ?s k \<or> is_entry k"
      proof (cases "k \<in> op_key ` set ops")
        case True
        then show ?thesis using e by auto
      next
        case False
        then show ?thesis using commit_other [OF assms(3) c] by blast
      qed
      then show ?thesis using commit_stable [OF assms(3) c, of k] by auto
    qed simp
    then show "view ?t k \<noteq> None \<Longrightarrow> view ?s k \<noteq> None \<or> is_entry k"
      "stable ?t k \<in> {stable ?s k, view ?s k, view ?t k}" by blast+
  qed
  have keys: "k = META_KEY \<or> is_entry k" if "view ?t k \<noteq> None \<or> stable ?t k \<noteq> None" for k
  proof -
    have "view ?s k \<noteq> None \<or> stable ?s k \<noteq> None \<or> is_entry k"
      using that vt [of k] st [of k] by auto
    then show ?thesis using assms(5) unfolding disk_ok_def by blast
  qed
  have "assigned t q = Some v" if sv: "stable ?t (entry_key q) = Some v" for q v
  proof -
    consider "stable ?s (entry_key q) = Some v" | "view ?s (entry_key q) = Some v" | "view ?t (entry_key q) = Some v"
      using st [of "entry_key q"] unfolding sv by (auto simp: eq_commute [of "Some v"])
    then show ?thesis
    proof cases
      case 1
      then show ?thesis using assms(5) assigned_grows [OF assms(1,2)] by (auto simp: disk_ok_def)
    next
      case 2
      then show ?thesis using pairsD(5) [OF assms(4)] assigned_grows [OF assms(1,2)] by blast
    next
      case 3
      then show ?thesis using pairsD(5) [OF pt] by blast
    qed
  qed
  with keys show ?thesis unfolding disk_ok_def by blast
qed

lemma reach_disk:
  assumes "reach S C (boot (items_of (view (store sh))) sh) s"
    and "sinv (store sh)" and "wf_queue (view (store sh)) sh"
    and "only_queue_keys (stable (store sh))"
    and "items_of (stable (store sh)) = items_of (view (store sh))"
  shows "disk_ok view stable s"
proof -
  let ?J = "\<lambda>s. sinv (store (shared s)) \<and> cursors_ok s \<and> pairs_ok view s \<and> disk_ok view stable s"
  have "?J s"
    using assms(1)
  proof (rule reach_inv)
    have "items_of (stable (store sh)) q = items_of (view (store sh)) q" for q
      using assms(5) by simp
    then have same: "stable (store sh) (entry_key q) = view (store sh) (entry_key q)" for q
      by (simp add: items_of_def)
    have "disk_ok view stable (boot (items_of (view (store sh))) sh)"
      using wf_queueD(1) [OF assms(3)] assms(4) same
      by (auto simp: disk_ok_def only_queue_keys_def items_of_def)
    then show "?J (boot (items_of (view (store sh))) sh)"
      using assms(2) boot_cursors [OF assms(3)] boot_pairs [of view sh] assms(3) by simp
  next
    fix s t assume "step S s t" "C t" and "?J s"
    then show "?J t"
      using cursors_step [of S s t view] pairs_step [of s t] disk_step [of s t] by simp
  qed
  then show ?thesis by blast
qed

end

lemma card_dom_bound:
  fixes m :: "u64 \<rightharpoonup> val"
  assumes "m (- 1) = None"
  shows "card (dom m) \<le> usize_max"
proof -
  have "dom m \<subseteq> UNIV - {- 1}" using assms by auto
  then have "card (dom m) \<le> card (UNIV - {- 1 :: u64})" by (intro card_mono) simp_all
  also have "\<dots> = card (UNIV :: u64 set) - 1" by (rule card_Diff_singleton) simp
  also have "card (UNIV :: u64 set) = 2 ^ 64" by (rule trans [OF card_word]) simp
  also have "(2 ^ 64 :: nat) - 1 = usize_max" by simp
  finally show ?thesis .
qed

text \<open>The last number is never assigned.\<close>

lemma unassigned_last:
  assumes "m \<subseteq>\<^sub>m assigned s" and "cursors_ok s"
  shows "m (- 1) = None"
proof (rule ccontr)
  assume "m (- 1) \<noteq> None"
  then have "- 1 \<in> dom (assigned s)"
    using map_le_implies_dom_le [OF assms(1)] by (auto simp: domIff)
  then show False using assms(2) by (auto simp: cursors_ok_def Let_def)
qed

text \<open>The meta record is written by \<open>open\<close> alone.\<close>

context durable_store begin

lemma meta_step:
  assumes "step S s t" and "sinv (store (shared s))"
  shows "sinv (store (shared t)) \<and> view (store (shared t)) META_KEY = view (store (shared s)) META_KEY \<and>
    stable (store (shared t)) META_KEY \<in> {stable (store (shared s)) META_KEY, view (store (shared s)) META_KEY}"
  using step_store [OF assms(1), of view]
proof (elim disjE exE conjE)
  fix c r
  assume "seek S (store (shared s)) c = (r, store (shared t))"
  then show ?thesis using seek_keeps [OF assms(2)] seek_stable [OF assms(2)] by metis
next
  fix ops d r
  assume c: "commit S (store (shared s)) ops d = (r, store (shared t))"
    and e: "\<forall>x \<in> set ops. \<exists>q. op_key x = entry_key q"
  have "META_KEY \<notin> op_key ` set ops"
    using e is_entry_entry_key meta_not_entry by (metis imageE)
  with commit_other [OF assms(2) c] commit_keeps [OF assms(2) c] commit_stable [OF assms(2) c, of META_KEY]
  show ?thesis by auto
qed (use assms(2) in simp)

lemma reach_meta:
  assumes "reach S C (boot m sh) s" and "sinv (store sh)"
  shows "stored_version (view (store (shared s))) = stored_version (view (store sh))"
    "stored_version (stable (store (shared s))) \<in> {stored_version (stable (store sh)), stored_version (view (store sh))}"
proof -
  let ?J = "\<lambda>s. sinv (store (shared s)) \<and> view (store (shared s)) META_KEY = view (store sh) META_KEY \<and>
    stable (store (shared s)) META_KEY \<in> {stable (store sh) META_KEY, view (store sh) META_KEY}"
  have "?J s"
    using assms(1)
  proof (rule reach_inv)
    fix s t assume "step S s t" "C t" "?J s"
    with meta_step [of s t] show "?J t" by auto
  qed (use assms(2) in simp)
  then show "stored_version (view (store (shared s))) = stored_version (view (store sh))"
    "stored_version (stable (store (shared s))) \<in> {stored_version (stable (store sh)), stored_version (view (store sh))}"
    by (auto simp: stored_version_def)
qed

end

text \<open>Opening a store that records no other version and holds no item under the last number.\<close>

lemma reopened:
  assumes "store_contract S sinv view" and "sinv (b_store b)" and "only_queue_keys (view (b_store b))"
    and "stored_version (view (b_store b)) \<in> {None, Some FORMAT_VERSION}" and "items_of (view (b_store b)) (- 1) = None"
  shows "\<exists>res st. open_queue S b = Some (res, st) \<and>
    (case res of
       Ok sh' \<Rightarrow> store sh' = st \<and> sinv st \<and> wf_queue (view st) sh' \<and> stored_version (view st) = Some FORMAT_VERSION \<and>
         items_of (view st) = items_of (view (b_store b)) \<and> reserved (inner sh') = {}
     | Err (Open_Store e) \<Rightarrow> e \<in> store_errors S
     | Err (UnsupportedVersion x) \<Rightarrow> False
     | Panic \<Rightarrow> usize_max < weight length (items_of (view (b_store b))))"
proof -
  let ?m = "items_of (view (b_store b))"
  obtain res st where r: "open_queue S b = Some (res, st)" "sinv st" "items_of (view st) = ?m" "only_queue_keys (view st)"
    "\<forall>sh. res = Ok sh \<longrightarrow> ?m (- 1) = None \<and> sh = new_shared b st (tail_of ?m)
       \<lparr>rec_head = head_of ?m, rec_len = card (dom ?m), rec_bytes = weight length ?m\<rparr>"
    "res = Panic \<longrightarrow> ?m (- 1) \<noteq> None \<or> usize_max < card (dom ?m) \<or> usize_max < weight length ?m"
    by (rule store_contract.open_queue_result [OF assms(1-3)], rule that) (assumption | blast)+
  note ver = store_contract.open_queue_recorded [OF assms(1-3) r(1)]
  have small: "card (dom ?m) \<le> usize_max" using assms(5) by (rule card_dom_bound)
  show ?thesis
  proof (intro exI conjI)
    show "open_queue S b = Some (res, st)" by (rule r(1))
    show "case res of
       Ok sh' \<Rightarrow> store sh' = st \<and> sinv st \<and> wf_queue (view st) sh' \<and> stored_version (view st) = Some FORMAT_VERSION \<and>
         items_of (view st) = ?m \<and> reserved (inner sh') = {}
     | Err (Open_Store e) \<Rightarrow> e \<in> store_errors S
     | Err (UnsupportedVersion x) \<Rightarrow> False
     | Panic \<Rightarrow> usize_max < weight length ?m"
    proof (cases res)
      case (Ok sh')
      then have sh': "sh' = new_shared b st (tail_of ?m)
         \<lparr>rec_head = head_of ?m, rec_len = card (dom ?m), rec_bytes = weight length ?m\<rparr>" using r(5) by blast
      with wf_new_shared [OF r(4,3) assms(5)] have "wf_queue (view st) sh'" by simp
      with Ok sh' r ver show ?thesis by (simp add: new_shared_def Let_def)
    next
      case (Err e)
      with store_contract.open_queue_errors [OF assms(1-3)] ver assms(4) r(1) show ?thesis by (cases e) auto
    next
      case Panic
      with r(6) small assms(5) show ?thesis by simp
    qed
  qed
qed

section \<open>A run\<close>

text \<open>A durable queue with one item on the repository's fault store, and one more push.\<close>

definition demo_disk :: shared_mem where
  "demo_disk = \<lparr>live = demo_store, synced = demo_store, commits = 0, fail_at = None\<rparr>"

definition demo_durable :: "shared_mem Shared" where
  "demo_durable = \<lparr>store = demo_disk, capacity = 4, max_bytes = 100, durable = True,
     ack_durable = True, group = False, inner = inner demo_queue, group_state = group_default\<rparr>"

definition demo_grown :: mem_store where
  "demo_grown = bt_insert (entry_key 1) [9] demo_store"

definition demo_after :: "shared_mem Sys" where
  "demo_after = (let s = boot [0 \<mapsto> [7]] demo_durable in
     s\<lparr>shared := demo_durable\<lparr>store := \<lparr>live = demo_grown, synced = demo_grown, commits = 1, fail_at = None\<rparr>,
          inner := (inner demo_queue)\<lparr>tail := 2, len := 2, bytes := 2\<rparr>\<rparr>,
       assigned := (assigned s)(1 \<mapsto> [9]), accepted := (accepted s)(1 \<mapsto> [9])\<rparr>)"

lemma demo_durable_ok:
  "sm_inv (store demo_durable)" "wf_queue (sm_view (store demo_durable)) demo_durable"
  "durable demo_durable" "only_queue_keys (sm_stable (store demo_durable))"
  "items_of (sm_stable (store demo_durable)) = items_of (sm_view (store demo_durable))"
  "items_of (sm_view (store demo_durable)) = [0 \<mapsto> [7]]"
proof -
  show "wf_queue (sm_view (store demo_durable)) demo_durable"
    using demo_keys
    by (simp add: wf_queue_def Let_def demo_items demo_durable_def demo_disk_def demo_queue_def weight_def)
qed (simp_all add: demo_durable_def demo_disk_def sm_inv_def demo_items demo_ordered demo_keys)

lemma demo_reach:
  "reach SharedMem (\<lambda>_. True) (boot (items_of (sm_view (store demo_durable))) demo_durable) demo_after"
proof -
  let ?s = "boot [0 \<mapsto> [7]] demo_durable"
  let ?i = "(inner demo_queue)\<lparr>tail := 2, len := 2, bytes := 2\<rparr>"
  have e: "enter (shared ?s) (length [9 :: byte]) = Admitted 1 ?i"
    by (simp add: demo_durable_def demo_queue_def admits_def saturating_add_def)
  have c: "commit_to SharedMem ((shared ?s)\<lparr>inner := ?i\<rparr>) [Put (entry_key 1) [9]] (durable (shared ?s)) =
    (Inr (), shared demo_after)"
    by (simp add: commit_to_def demo_after_def demo_durable_def demo_disk_def demo_grown_def sm_commit_def Let_def)
  have "reach SharedMem (\<lambda>_. True) ?s (?s\<lparr>shared := shared demo_after, assigned := (assigned ?s)(1 \<mapsto> [9]),
      accepted := (accepted ?s)(1 \<mapsto> [9])\<rparr>)"
    by (rule reach_push [OF reach_start _ _ e c]) (simp_all add: demo_durable_def)
  moreover have "?s\<lparr>shared := shared demo_after, assigned := (assigned ?s)(1 \<mapsto> [9]),
      accepted := (accepted ?s)(1 \<mapsto> [9])\<rparr> = demo_after"
    by (simp add: demo_after_def Let_def)
  ultimately show ?thesis by (simp only: demo_durable_ok)
qed

lemma demo_after_sel:
  "accepted demo_after 1 = Some [9]" "ack_tried demo_after = {}" "guards demo_after = {#}"
  by (simp_all add: demo_after_def Let_def)

section \<open>Properties\<close>

text \<open>C2. No item is lost. However the operations of any number of threads interleave, over any
  store of the contract, in every durability mode and when commits fail: an item whose push
  returned \<open>Ok\<close> (or that \<open>open\<close> found) and that no ack has tried to delete is in the store with
  its value, and lies between the head and the tail and outside \<open>acked_above\<close>, where the
  scan of \<open>reserve\<close> looks.\<close>

theorem accepted_is_kept:
  assumes "store_contract S sinv view" and "sinv (store sh)" and "wf_queue (view (store sh)) sh"
    and "reach S C (boot (items_of (view (store sh))) sh) s"
    and "accepted s q = Some v" and "q \<notin> ack_tried s"
  shows "view (store (shared s)) (entry_key q) = Some v \<and> head (inner (shared s)) \<le> q \<and>
    q < tail (inner (shared s)) \<and> q \<notin> acked_above (inner (shared s))"
proof -
  have inv: "cursors_ok s" "pairs_ok view s" "kept_ok (\<lambda>st k v. view st k = Some v) s"
    by (rule store_contract.live_kept [OF assms(1,4,2,3)]; simp add: items_of_def)+
  have "view (store (shared s)) (entry_key q) = Some v"
    by (rule store_contract.live_accepted [OF assms(1) inv(3) assms(5,6)])
  with accepted_ahead [OF inv(1,2) assms(5,6)] show ?thesis by simp
qed

theorem accepted_is_kept_witness:
  "sm_view (store (shared demo_after)) (entry_key 1) = Some [9] \<and> head (inner (shared demo_after)) \<le> 1"
  using accepted_is_kept [OF sm.store_contract_axioms demo_durable_ok(1,2) demo_reach, of 1 "[9]"]
  by (simp add: demo_after_sel)

text \<open>C18. Nothing is made up or mixed up: in every reachable state, whatever sits in the store or in
  the hands of a consumer under a number is the value that was pushed under that number.\<close>

theorem delivered_is_pushed:
  assumes "store_contract S sinv view" and "sinv (store sh)" and "wf_queue (view (store sh)) sh"
    and "reach S C (boot (items_of (view (store sh))) sh) s"
  shows "items_of (view (store (shared s))) \<subseteq>\<^sub>m assigned s \<and>
    (\<forall>(q, v) \<in># guards s. assigned s q = Some v) \<and> accepted s \<subseteq>\<^sub>m assigned s"
proof -
  have p: "pairs_ok view s"
    by (rule store_contract.live_kept(3) [OF assms(1,4,2,3)]) (auto simp: items_of_def)
  show ?thesis
    using pairsD(2,4,5) [OF p] by (auto simp: map_le_def items_of_def)
qed

theorem delivered_is_pushed_witness:
  "items_of (sm_view (store (shared demo_after))) \<subseteq>\<^sub>m assigned demo_after"
  using delivered_is_pushed [OF sm.store_contract_axioms demo_durable_ok(1,2) demo_reach] by simp

text \<open>C1. Crash and reopen. On a store that survives crashes, with a durable policy (\<open>Sync\<close> or
  \<open>Group\<close>), and with no other format version in the store or on disk to begin with: crash at any
  point of any interleaving and open again. Opening returns and never refuses the store. It reports
  an error only if that is the store's, and panics only if the bytes on disk no longer fit a \<open>usize\<close>;
  otherwise the reopened queue is well-formed, holds every item whose push had returned \<open>Ok\<close> and that no
  ack had tried to delete, and holds nothing but values that were pushed.\<close>

theorem accepted_survives_crash:
  assumes "durable_store S sinv view disk restart" and "sinv (store sh)" and "wf_queue (view (store sh)) sh"
    and "durable sh" and "only_queue_keys (disk (store sh))"
    and "items_of (disk (store sh)) = items_of (view (store sh))"
    and "{stored_version (view (store sh)), stored_version (disk (store sh))} \<subseteq> {None, Some FORMAT_VERSION}"
    and "reach S C (boot (items_of (view (store sh))) sh) s"
    and "b_store b = restart (store (shared s))"
  shows "\<exists>res st. open_queue S b = Some (res, st) \<and>
    (case res of
       Ok sh' \<Rightarrow> wf_queue (view (store sh')) sh' \<and> items_of (view (store sh')) \<subseteq>\<^sub>m assigned s \<and>
         (\<forall>q v. accepted s q = Some v \<longrightarrow> q \<notin> ack_tried s \<longrightarrow> items_of (view (store sh')) q = Some v)
     | Err (Open_Store e) \<Rightarrow> e \<in> store_errors S
     | Err (UnsupportedVersion x) \<Rightarrow> False
     | Panic \<Rightarrow> usize_max < weight length (items_of (disk (store (shared s)))))"
proof -
  let ?m = "items_of (disk (store (shared s)))"
  have SC: "store_contract S sinv view" using assms(1) by (rule durable_store.axioms(1))
  have eq: "disk (store sh) (entry_key q) = view (store sh) (entry_key q)" for q
    using fun_cong [OF assms(6), of q] by (simp add: items_of_def)
  note k = durable_store.disk_kept [OF assms(1,8,2,3)]
  have inv: "sinv (store (shared s))" "cursors_ok s" "pairs_ok view s"
    "kept_ok (\<lambda>st k v. view st k = Some v \<and> disk st k = Some v) s"
    by (rule k; simp add: assms(4) items_of_def eq)+
  have d: "disk_ok view disk s"
    by (rule durable_store.reach_disk [OF assms(1,8,2,3,5,6)])
  note crash = durable_store.crash_view [OF assms(1) inv(1)] durable_store.crash_sinv [OF assms(1) inv(1)]
  have b: "sinv (b_store b)" "only_queue_keys (view (b_store b))" "items_of (view (b_store b)) = ?m"
    using d crash by (auto simp: assms(9) disk_ok_def only_queue_keys_def)
  have ver: "stored_version (view (b_store b)) \<in> {None, Some FORMAT_VERSION}"
    using durable_store.reach_meta(2) [OF assms(1,8,2)] assms(7) by (auto simp: assms(9) crash)
  have keep: "?m q = Some u" if "accepted s q = Some u" "q \<notin> ack_tried s" for q u
    using durable_store.disk_accepted [OF assms(1) inv(4) that] by (simp add: items_of_def)
  have sub: "?m \<subseteq>\<^sub>m assigned s" using d by (auto simp: disk_ok_def map_le_def items_of_def)
  then have "?m (- 1) = None" using inv(2) by (rule unassigned_last)
  then obtain res st where r: "open_queue S b = Some (res, st)" "case res of
       Ok sh' \<Rightarrow> store sh' = st \<and> sinv st \<and> wf_queue (view st) sh' \<and> stored_version (view st) = Some FORMAT_VERSION \<and>
         items_of (view st) = ?m \<and> reserved (inner sh') = {}
     | Err (Open_Store e) \<Rightarrow> e \<in> store_errors S
     | Err (UnsupportedVersion x) \<Rightarrow> False
     | Panic \<Rightarrow> usize_max < weight length ?m"
    using reopened [OF SC b(1,2) ver] unfolding b(3) by blast
  show ?thesis
  proof (intro exI conjI)
    show "open_queue S b = Some (res, st)" by (rule r(1))
  qed (use r(2) keep sub in \<open>cases res; simp\<close>)
qed

lemma demo_reopens:
  "\<exists>st sh. open_queue SharedMem (builder_new (sm_crash (store (shared demo_after)))) = Some (Ok sh, st)"
proof -
  have g: "demo_grown = [(META_KEY, [FORMAT_VERSION]), (entry_key 0, [7]), (entry_key 1, [9])]"
    by (simp add: demo_grown_def demo_store_def meta_order)
  have "store (shared demo_after) = \<lparr>live = demo_grown, synced = demo_grown, commits = 1, fail_at = None\<rparr>"
    by (simp add: demo_after_def Let_def)
  then have r: "sm_crash (store (shared demo_after)) =
      \<lparr>live = demo_grown, synced = demo_grown, commits = 1, fail_at = None\<rparr>"
    by (simp add: sm_crash_def)
  have n: "bt_next ENTRY_LOW demo_grown = Some (entry_key 0, [7])" "bt_next (entry_key 1) demo_grown = Some (entry_key 1, [9])"
    "bt_next (entry_key 2) demo_grown = None" "bt_next_back ENTRY_HIGH demo_grown = Some (entry_key 1, [9])"
    "map_of demo_grown META_KEY = Some [FORMAT_VERSION]"
    by (simp_all add: g meta_order word_le_nat_alt)
  show ?thesis
    unfolding r
    by (simp add: open_queue_def check_meta_def find_tail_def builder_new_def sm_get_def sm_seek_def
        sm_seek_back_def n recover_scan.simps checked_inc_def checked_add_def)
qed

theorem accepted_survives_crash_witness:
  "\<exists>sh' st. open_queue SharedMem (builder_new (sm_crash (store (shared demo_after)))) = Some (Ok sh', st) \<and>
    items_of (sm_view (store sh')) 1 = Some [9]"
proof -
  have v: "{stored_version (sm_view (store demo_durable)), stored_version (sm_stable (store demo_durable))} \<subseteq> {None, Some FORMAT_VERSION}"
    by (simp add: demo_durable_def demo_disk_def demo_store_def stored_version_def FORMAT_VERSION_def)
  from accepted_survives_crash [OF sm.durable_store_axioms demo_durable_ok(1-5) v demo_reach,
      of "builder_new (sm_crash (store (shared demo_after)))"] demo_reopens demo_after_sel
  show ?thesis by (fastforce simp: builder_new_def)
qed

end
