(* ===== verification/Batching.thy ===== *)
theory Batching imports Survival begin

text \<open>
  Group commit (\<open>Shared::group_commit\<close>): who waits for what. In every reachable state, over any
  store, each number that a producer is waiting on (as a follower or as the leader itself) is in
  exactly one place: the pending list, the batch of the leader in flight, or the recorded
  outcomes; and \<open>flushing\<close> is set exactly when there is a leader, which is then unique. A
  follower is therefore never left behind, and no outcome is recorded that nobody collects.
\<close>

section \<open>Across the threads in flight\<close>

definition across :: "(pc \<Rightarrow> 'a multiset) \<Rightarrow> pc multiset \<Rightarrow> 'a multiset" where
  "across f F = \<Sum>\<^sub># (image_mset f F)"

lemma across_simps [simp]: "across f {#} = {#}" "across f (add_mset p F) = f p + across f F"
  by (simp_all add: across_def)

lemma across_wake [simp]:
  assumes "\<And>p. f (wake p) = f p"
  shows "across f (image_mset wake F) = across f F"
  using assms by (induction F) simp_all

lemma across_empty: "\<forall>p \<in># F. f p = {#} \<Longrightarrow> across f F = {#}"
  by (induction F) simp_all

lemma in_across [simp]: "x \<in># across f F \<longleftrightarrow> (\<exists>p \<in># F. x \<in># f p)"
  by (induction F) auto

fun waiter :: "pc \<Rightarrow> u64 multiset" where
  "waiter (GWait q v) = {#q#}"
| "waiter (GFlush q v b) = {#q#}"
| "waiter (GRecord q v b ok) = {#q#}"
| "waiter _ = {#}"

fun direct :: "pc \<Rightarrow> u64 multiset" where
  "direct (Claimed q v) = {#q#}"
| "direct (Failed q v) = {#q#}"
| "direct (GRetry q v) = {#q#}"
| "direct _ = {#}"

fun held :: "pc \<Rightarrow> u64 multiset" where
  "held (GFlush q v b) = mset (map fst b)"
| "held (GRecord q v b ok) = mset (map fst b)"
| "held _ = {#}"

fun leader :: "pc \<Rightarrow> bool" where
  "leader (GFlush q v b) = True"
| "leader (GRecord q v b ok) = True"
| "leader _ = False"

lemma roles_wake [simp]:
  "waiter (wake p) = waiter p" "direct (wake p) = direct p" "held (wake p) = held p"
  "leader (wake p) = leader p"
  by (cases p; simp)+

lemma held_no_leader: "\<not> leader p \<Longrightarrow> held p = {#}"
  by (cases p) auto

lemma leaders_wake [simp]:
  "size (filter_mset leader (image_mset wake F)) = size (filter_mset leader F)"
  by (induction F) auto

section \<open>The invariant\<close>

definition puts :: "'s Sys \<Rightarrow> u64 multiset" where
  "puts s = across direct (flight s) + across waiter (flight s)"

definition places :: "'s Sys \<Rightarrow> u64 multiset" where
  "places s = mset (map fst (pending (group_state (shared s)))) + across held (flight s) +
     mset_set (dom (done_map (group_state (shared s))))"

definition batch_ok :: "'s Sys \<Rightarrow> bool" where
  "batch_ok s \<longleftrightarrow>
     (\<forall>q. count (puts s) q \<le> 1) \<and> set_mset (puts s) \<subseteq> dom (assigned s) \<and>
     places s = across waiter (flight s) \<and>
     size (filter_mset leader (flight s)) = (if flushing (group_state (shared s)) then 1 else 0) \<and>
     (pending (group_state (shared s)) \<noteq> [] \<longrightarrow> flushing (group_state (shared s)))"

lemma count_words [simp]: "count (mset_set (A :: u64 set)) x = (if x \<in> A then 1 else 0)"
  by simp

lemma mset_set_join:
  fixes A :: "u64 set"
  assumes "\<And>x. count (mset_set A + mset xs) x \<le> 1"
  shows "mset_set (A \<union> set xs) = mset_set A + mset xs"
proof (rule multiset_eqI)
  fix x
  show "count (mset_set (A \<union> set xs)) x = count (mset_set A + mset xs) x"
  proof (cases "x \<in> set xs")
    case True
    then have "1 \<le> count (mset xs) x" by (simp add: Suc_le_eq count_greater_zero_iff)
    moreover have "count (mset_set A) x + count (mset xs) x \<le> 1" using assms [of x] by simp
    ultimately have "count (mset_set A) x = 0 \<and> count (mset xs) x = 1" by linarith
    with True show ?thesis by simp
  next
    case False
    then show ?thesis by (simp add: not_in_iff [symmetric])
  qed
qed

lemma done_record:
  "dom (done_map (group_record g b ok)) = dom (done_map g) \<union> set (map fst b)"
  by (force simp: group_record_done dom_def)

lemma no_leader_held: "size (filter_mset leader F) = 0 \<Longrightarrow> across held F = {#}"
  by (rule across_empty) (auto intro: held_no_leader)

lemma boot_batch: "wf_queue m sh \<Longrightarrow> batch_ok (boot (items_of m) sh)"
  by (auto simp: batch_ok_def puts_def places_def group_default_def dest: wf_queueD(8))

text \<open>Recording the leader's batch keeps every number in its place.\<close>

lemma record_places:
  assumes "batch_ok s" and "flight s = add_mset (GRecord q v b ok) F"
  shows "flushing (group_state (shared s))" "size (filter_mset leader F) = 0"
    "mset (map fst (pending (group_state (shared s)))) +
       mset_set (dom (done_map (group_record (group_state (shared s)) b ok))) = add_mset q (across waiter F)"
proof -
  let ?D = "dom (done_map (group_state (shared s)))" and ?P = "mset (map fst (pending (group_state (shared s))))"
  show "flushing (group_state (shared s))" "size (filter_mset leader F) = 0"
    using assms by (auto simp: batch_ok_def split: if_splits)
  then have "?P + mset (map fst b) + mset_set ?D = add_mset q (across waiter F)"
    using assms no_leader_held [of F] by (simp add: batch_ok_def places_def)
  note eq = this
  have "count (mset_set ?D + mset (map fst b)) x \<le> 1" for x
  proof -
    have "count (mset_set ?D + mset (map fst b)) x \<le> count (add_mset q (across waiter F)) x"
      unfolding eq [symmetric] by simp
    also have "\<dots> \<le> count (puts s) x"
      using assms(2) by (simp add: puts_def)
    also have "\<dots> \<le> 1" using assms(1) by (simp add: batch_ok_def)
    finally show ?thesis .
  qed
  from mset_set_join [OF this] eq
  show "?P + mset_set (dom (done_map (group_record (group_state (shared s)) b ok))) = add_mset q (across waiter F)"
    unfolding done_record by (simp add: ac_simps)
qed

text \<open>The leader always finds its own outcome.\<close>

lemma leader_outcome:
  assumes "batch_ok s" and "flight s = add_mset (GRecord q v b ok) F"
    and "pending (group_state (shared s)) = []"
  shows "done_map (group_record (group_state (shared s)) b ok) q \<noteq> None"
proof -
  have "q \<in># mset_set (dom (done_map (group_record (group_state (shared s)) b ok)))"
    using record_places(3) [OF assms(1,2)] assms(3) by simp
  then show ?thesis by auto
qed

text \<open>A step that starts no push keeps the first half of the invariant.\<close>

lemma batch_shrink:
  assumes "batch_ok s" and "assigned t = assigned s" and "puts t \<subseteq># puts s"
    and "places t = across waiter (flight t)"
    and "size (filter_mset leader (flight t)) = (if flushing (group_state (shared t)) then 1 else 0)"
    and "pending (group_state (shared t)) \<noteq> [] \<longrightarrow> flushing (group_state (shared t))"
  shows "batch_ok t"
proof -
  have "count (puts t) q \<le> 1" for q
    using mset_subset_eq_count [OF assms(3), of q] assms(1) unfolding batch_ok_def by (meson order.trans)
  moreover have "set_mset (puts t) \<subseteq> dom (assigned t)"
    using set_mset_mono [OF assms(3)] assms(1,2) unfolding batch_ok_def by auto
  ultimately show ?thesis using assms(4-6) unfolding batch_ok_def by blast
qed

lemma collect_place:
  "done_map g q \<noteq> None \<Longrightarrow>
     mset_set (dom (done_map g)) = add_mset q (mset_set (dom (done_map g) - {q}))"
  by (rule mset_set.remove) auto

lemma batch_step:
  assumes "step S s t" and "cursors_ok s" and "batch_ok s"
  shows "batch_ok t"
proof -
  have fresh: "tail (inner (shared s)) \<notin># puts s"
  proof
    assume "tail (inner (shared s)) \<in># puts s"
    moreover have "set_mset (puts s) \<subseteq> {..<tail (inner (shared s))}"
      using assms(2,3) unfolding cursors_ok_def batch_ok_def Let_def by (meson order.trans)
    ultimately show False by auto
  qed
  show ?thesis
    using assms(1)
proof cases
  case (push_claim v q i)
  then have "q \<notin># puts s" using fresh by auto
  then have "count (puts s) q = 0" by (simp add: not_in_iff)
  with push_claim assms(3) show ?thesis
    by (auto simp: batch_ok_def puts_def places_def)
next
  case (wake_claim v F q i)
  then have "q \<notin># puts s" using fresh by auto
  then have "count (puts s) q = 0" by (simp add: not_in_iff)
  with wake_claim assms(3) show ?thesis
    by (auto simp: batch_ok_def puts_def places_def)
next
  case (group_follow q v F)
  then show ?thesis using assms(3)
    by (auto simp: batch_ok_def puts_def places_def group_enqueue_def)
next
  case (group_elect q v F b g)
  then show ?thesis using assms(3)
    by (auto simp: batch_ok_def puts_def places_def group_enqueue_def group_take_eq)
next
  case (group_flush q v b F r sh)
  then show ?thesis using assms(3) commit_to_sel(2) [OF group_flush(3)]
    by (auto simp: batch_ok_def puts_def places_def)
next
  case (group_more q v b ok F b' g)
  note r = record_places [OF assms(3) group_more(2)]
  show ?thesis using assms(3) group_more r no_leader_held [OF r(2)]
    by (auto simp: batch_ok_def puts_def places_def group_take_eq)
next
  case (group_end_ok q v b ok F g)
  note r = record_places [OF assms(3) group_end_ok(2)] and o = leader_outcome [OF assms(3) group_end_ok(2,3)]
  have "mset_set (dom (done_map g)) = across waiter F"
    using group_end_ok r(3) collect_place [OF o] by (simp add: group_outcome_eq)
  note m = this
  show ?thesis
    by (rule batch_shrink [OF assms(3)])
      (use assms(3) group_end_ok r(1,2) no_leader_held [OF r(2)] m in \<open>auto simp: batch_ok_def puts_def places_def group_outcome_eq split: if_splits\<close>)
next
  case (group_end_retry q v b ok F o' g)
  note r = record_places [OF assms(3) group_end_retry(2)] and o = leader_outcome [OF assms(3) group_end_retry(2,3)]
  have "mset_set (dom (done_map g)) = across waiter F"
    using group_end_retry r(3) collect_place [OF o] by (simp add: group_outcome_eq)
  note m = this
  show ?thesis
    by (rule batch_shrink [OF assms(3)])
      (use assms(3) group_end_retry r(1,2) no_leader_held [OF r(2)] m in \<open>auto simp: batch_ok_def puts_def places_def group_outcome_eq split: if_splits\<close>)
next
  case (group_done_ok q v F g)
  then have "done_map (group_state (shared s)) q \<noteq> None"
    by (metis group_outcome_eq option.distinct(1))
  from collect_place [OF this] group_done_ok have "places t = across waiter F"
    using assms(3) by (simp add: batch_ok_def places_def group_outcome_eq)
  then show ?thesis
    by (intro batch_shrink [OF assms(3)])
      (use assms(3) group_done_ok in \<open>auto simp: batch_ok_def puts_def group_outcome_eq\<close>)
next
  case (group_done_retry q v F g)
  then have "done_map (group_state (shared s)) q \<noteq> None"
    by (metis group_outcome_eq option.distinct(1))
  from collect_place [OF this] group_done_retry have "places t = across waiter F"
    using assms(3) by (simp add: batch_ok_def places_def group_outcome_eq)
  then show ?thesis
    by (intro batch_shrink [OF assms(3)])
      (use assms(3) group_done_retry in \<open>auto simp: batch_ok_def puts_def group_outcome_eq\<close>)
next
  case (put_ok q v F u sh)
  show ?thesis
    by (rule batch_shrink [OF assms(3)])
      (use assms(3) put_ok commit_to_sel(2) [OF put_ok(4)] in \<open>auto simp: batch_ok_def puts_def places_def split: if_splits\<close>)
next
  case (put_err q v F e sh)
  then show ?thesis using assms(3) commit_to_sel(2) [OF put_err(4)] by (auto simp: batch_ok_def puts_def places_def)
next
  case (retry_ok q v F u sh)
  show ?thesis
    by (rule batch_shrink [OF assms(3)])
      (use assms(3) retry_ok commit_to_sel(2) [OF retry_ok(3)] in \<open>auto simp: batch_ok_def puts_def places_def split: if_splits\<close>)
next
  case (retry_err q v F e sh)
  then show ?thesis using assms(3) commit_to_sel(2) [OF retry_err(3)] by (auto simp: batch_ok_def puts_def places_def)
next
  case (ack_deletes q v G u sh)
  then show ?thesis using assms(3) commit_to_sel(2) [OF ack_deletes(3)] by (auto simp: batch_ok_def puts_def places_def)
next
  case (ack_fails q v G e sh)
  then show ?thesis using assms(3) commit_to_sel(2) [OF ack_fails(3)] by (auto simp: batch_ok_def puts_def places_def)
next
  case (failed_back q v F i)
  show ?thesis
    by (rule batch_shrink [OF assms(3)])
      (use assms(3) failed_back in \<open>auto simp: batch_ok_def puts_def places_def split: if_splits\<close>)
next
  case (section_panic p F)
  then have p: "\<not> leader p" "waiter p = {#}" "held p = {#}"
    by (cases p; simp)+
  show ?thesis
    by (rule batch_shrink [OF assms(3)])
      (use assms(3) section_panic p in \<open>auto simp: batch_ok_def puts_def places_def\<close>)
qed (use assms(3) in \<open>auto simp: batch_ok_def puts_def places_def close_def\<close>)
qed

context store_contract begin

lemma reach_batch:
  assumes "reach S C (boot (items_of (view (store sh))) sh) s"
    and "sinv (store sh)" and "wf_queue (view (store sh)) sh"
  shows "batch_ok s"
proof -
  let ?J = "\<lambda>s. sinv (store (shared s)) \<and> cursors_ok s \<and> pairs_ok view s \<and> batch_ok s"
  have "?J s"
    using assms(1)
  proof (rule reach_inv)
    show "?J (boot (items_of (view (store sh))) sh)"
      using assms(2) boot_cursors [OF assms(3)] boot_pairs [of view sh] boot_batch [OF assms(3)] assms(3) by simp
  next
    fix s t assume "step S s t" "C t" and "?J s"
    then show "?J t"
      using cursors_step [of S s t view] pairs_step [of s t] batch_step [of S s t] by simp
  qed
  then show ?thesis by blast
qed

end

section \<open>A run\<close>

text \<open>A queue in group mode: one push leads, and a second one follows while it commits.\<close>

definition demo_group :: "mem_store Shared" where
  "demo_group = demo_queue\<lparr>group := True\<rparr>"

lemma demo_group_ok:
  "bt_ordered (store demo_group)" "wf_queue (map_of (store demo_group)) demo_group"
  "items_of (map_of (store demo_group)) = [0 \<mapsto> [7]]"
  using demo_wf demo_ordered demo_items by (simp_all add: demo_group_def wf_queue_def)

lemma demo_follow:
  "\<exists>s. reach (MemStore :: (mem_store, unit) Store) (\<lambda>_. True)
     (boot (items_of (map_of (store demo_group))) demo_group) s \<and> GWait 2 [9] \<in># flight s \<and> \<not> poisoned s \<and>
     done_map (group_state (shared s)) 2 = None"
proof -
  let ?S = "MemStore :: (mem_store, unit) Store" and ?s0 = "boot [0 \<mapsto> [7]] demo_group"
  let ?i1 = "(inner demo_queue)\<lparr>tail := 2, len := 2, bytes := 2\<rparr>"
  let ?i2 = "(inner demo_queue)\<lparr>tail := 3, len := 3, bytes := 3\<rparr>"
  let ?g = "group_default\<lparr>flushing := True\<rparr>"
  let ?s1 = "?s0\<lparr>shared := demo_group\<lparr>inner := ?i1\<rparr>, flight := {#Claimed 1 [8]#}, assigned := [0 \<mapsto> [7], 1 \<mapsto> [8]]\<rparr>"
  let ?s2 = "?s1\<lparr>shared := demo_group\<lparr>inner := ?i1, group_state := ?g\<rparr>, flight := {#GFlush 1 [8] [(1, [8])]#}\<rparr>"
  let ?s3 = "?s2\<lparr>shared := demo_group\<lparr>inner := ?i2, group_state := ?g\<rparr>,
    flight := {#Claimed 2 [9], GFlush 1 [8] [(1, [8])]#}, assigned := [0 \<mapsto> [7], 1 \<mapsto> [8], 2 \<mapsto> [9]]\<rparr>"
  let ?s4 = "?s3\<lparr>shared := demo_group\<lparr>inner := ?i2, group_state := ?g\<lparr>pending := [(2, [9])]\<rparr>\<rparr>,
    flight := {#GWait 2 [9], GFlush 1 [8] [(1, [8])]#}\<rparr>"
  have 1: "step ?S ?s0 ?s1"
    using push_claim [of ?s0 "[8]" 1 ?i1 ?S]
    by (simp add: demo_group_def demo_queue_def admits_def saturating_add_def)
  have 2: "step ?S ?s1 ?s2"
    using group_elect [of ?s1 1 "[8]" "{#}" "[(1, [8])]" "group_default" ?S]
    by (simp add: demo_group_def demo_queue_def group_default_def group_take_eq group_enqueue_def)
  have 3: "step ?S ?s2 ?s3"
    using push_claim [of ?s2 "[9]" 2 ?i2 ?S]
    by (simp add: demo_group_def demo_queue_def admits_def saturating_add_def)
  have 4: "step ?S ?s3 ?s4"
    using group_follow [of ?s3 2 "[9]" "{#GFlush 1 [8] [(1, [8])]#}" ?S]
    by (simp add: demo_group_def demo_queue_def group_default_def group_enqueue_def)
  have "reach ?S (\<lambda>_. True) ?s0 ?s4"
    by (rule reach_step [OF reach_step [OF reach_step [OF reach_step [OF reach_start 1] 2] 3] 4]) simp_all
  then show ?thesis
    unfolding demo_group_ok(3) by (intro exI conjI, assumption) (simp_all add: group_default_def)
qed

text \<open>Where the number of a waiting follower is.\<close>

lemma group_waits:
  assumes "batch_ok s" and "GWait q v \<in># flight s"
  shows "done_map (group_state (shared s)) q \<noteq> None \<or> flushing (group_state (shared s)) \<and>
    (\<exists>p. filter_mset leader (flight s) = {#p#} \<and>
      (q \<in> fst ` set (pending (group_state (shared s))) \<or> q \<in># held p))"
proof -
  have b: "batch_ok s" and pl: "places s = across waiter (flight s)"
    using assms(1) by (simp_all add: batch_ok_def)
  have "q \<in># places s" unfolding pl in_across using assms(2) by force
  then consider "done_map (group_state (shared s)) q \<noteq> None"
    | "q \<in> fst ` set (pending (group_state (shared s)))"
    | p where "p \<in># flight s" "q \<in># held p"
    by (auto simp: places_def)
  then show ?thesis
  proof cases
    case 2
    then have f: "flushing (group_state (shared s))" using b by (auto simp: batch_ok_def)
    then have "size (filter_mset leader (flight s)) = 1" using b by (simp add: batch_ok_def)
    then obtain p where "filter_mset leader (flight s) = {#p#}" using size_1_singleton_mset by blast
    with f 2 show ?thesis by blast
  next
    case 3
    then have p: "p \<in># filter_mset leader (flight s)" by (cases "leader p") (auto dest: held_no_leader)
    then have "size (filter_mset leader (flight s)) \<noteq> 0" by auto
    then have f: "flushing (group_state (shared s))" "size (filter_mset leader (flight s)) = 1"
      using b by (auto simp: batch_ok_def split: if_splits)
    then obtain p' where p': "filter_mset leader (flight s) = {#p'#}" using size_1_singleton_mset by blast
    with p have "p' = p" by simp
    with p' f 3 show ?thesis by blast
  qed blast
qed

section \<open>Properties\<close>

text \<open>Group commit leaves nobody behind. In every reachable state, every producer waiting for a
  batch either finds its outcome recorded, or there is exactly one leader in flight and the
  producer's number is in the pending list, which that leader takes before it stops, or in the
  batch the leader is committing. Every recorded outcome belongs to a producer that will collect it.\<close>

theorem follower_not_orphaned:
  assumes "store_contract S sinv view" and "sinv (store sh)" and "wf_queue (view (store sh)) sh"
    and "reach S C (boot (items_of (view (store sh))) sh) s"
  shows "(GWait q v \<in># flight s \<longrightarrow> done_map (group_state (shared s)) q \<noteq> None \<or>
      flushing (group_state (shared s)) \<and>
      (\<exists>p. filter_mset leader (flight s) = {#p#} \<and>
        (q \<in> fst ` set (pending (group_state (shared s))) \<or> q \<in># held p))) \<and>
    (done_map (group_state (shared s)) q \<noteq> None \<longrightarrow> q \<in># across waiter (flight s))"
proof -
  have b: "batch_ok s" by (rule store_contract.reach_batch [OF assms(1,4,2,3)])
  then have pl: "places s = across waiter (flight s)" by (simp add: batch_ok_def)
  have "done_map (group_state (shared s)) q \<noteq> None \<or> flushing (group_state (shared s)) \<and>
      (\<exists>p. filter_mset leader (flight s) = {#p#} \<and>
        (q \<in> fst ` set (pending (group_state (shared s))) \<or> q \<in># held p))"
    if "GWait q v \<in># flight s" using group_waits [OF b that] .
  moreover have "q \<in># across waiter (flight s)" if "done_map (group_state (shared s)) q \<noteq> None"
    unfolding pl [symmetric] using that by (auto simp: places_def)
  ultimately show ?thesis by blast
qed

theorem follower_not_orphaned_witness:
  "\<exists>s. reach (MemStore :: (mem_store, unit) Store) (\<lambda>_. True)
     (boot (items_of (map_of (store demo_group))) demo_group) s \<and> GWait 2 [9] \<in># flight s \<and>
     (done_map (group_state (shared s)) 2 \<noteq> None \<or> flushing (group_state (shared s)))"
proof -
  have sc: "store_contract (MemStore :: (mem_store, unit) Store) bt_ordered map_of"
    by (rule mem.store_contract_axioms)
  from demo_follow obtain s where s: "reach (MemStore :: (mem_store, unit) Store) (\<lambda>_. True)
     (boot (items_of (map_of (store demo_group))) demo_group) s" "GWait 2 [9] \<in># flight s"
    by blast
  from follower_not_orphaned [OF sc demo_group_ok(1,2) s(1), of 2 "[9]"] s show ?thesis by blast
qed

end
