(* ===== verification/Accounting.thy ===== *)
theory Accounting imports Batching begin

text \<open>
  Who owns what, and what \<open>len\<close> and \<open>bytes\<close> count (\<open>src/src/queue.rs\<close>). \<open>owned_ok\<close>, for every
  interleaving: each live guard, pending ack and pending release has its own number in
  \<open>reserved\<close>, so no item is in two hands. \<open>acct_sets\<close> and \<open>acct_count\<close>, for a store whose failed commits change
  nothing and one consumer thread: \<open>len\<close> is the number of items in the store, of claims not yet
  landed and of acks between their commit and their bookkeeping, and \<open>bytes\<close> is their total
  size. So no \<open>len -= 1\<close> or \<open>bytes -= n\<close> underflows.
\<close>

section \<open>Ownership\<close>

fun owner :: "pc \<Rightarrow> u64 multiset" where
  "owner (AckFin q v) = {#q#}"
| "owner (Release q) = {#q#}"
| "owner _ = {#}"

fun acking :: "pc \<Rightarrow> u64 multiset" where
  "acking (AckFin q v) = {#q#}"
| "acking _ = {#}"

fun looking :: "pc \<Rightarrow> u64 multiset" where
  "looking (RCheck q v) = {#q#}"
| "looking _ = {#}"

fun fresh_at :: "pc \<Rightarrow> u64 multiset" where
  "fresh_at (GFlush q v b) = mset (map fst b)"
| "fresh_at (GRecord q v b ok) = (if ok then {#} else mset (map fst b))"
| "fresh_at p = direct p"

lemma roles_wake' [simp]:
  "owner (wake p) = owner p" "acking (wake p) = acking p" "looking (wake p) = looking p"
  "fresh_at (wake p) = fresh_at p" "consumer_side (wake p) = consumer_side p"
  by (cases p; simp)+

definition owners :: "'s Sys \<Rightarrow> u64 multiset" where
  "owners s = image_mset fst (guards s) + across owner (flight s)"

definition owned_ok :: "'s Sys \<Rightarrow> bool" where
  "owned_ok s \<longleftrightarrow> owners s \<subseteq># mset_set (reserved (inner (shared s)))"

lemma mset_set_drop:
  fixes R :: "u64 set"
  assumes "add_mset q M \<subseteq># mset_set R"
  shows "M \<subseteq># mset_set (R - {q})"
proof -
  have "q \<in># mset_set R" using assms by (auto dest: mset_subset_eqD)
  then have "mset_set R = add_mset q (mset_set (R - {q}))"
    by (intro mset_set.remove) auto
  with assms show ?thesis by simp
qed

lemma owned_step:
  assumes "step S s t" and "owned_ok s"
  shows "owned_ok t"
  using assms(1)
proof cases
  case (check_takes q v F i)
  then show ?thesis using assms(2) by (auto simp: owned_ok_def owners_def)
next
  case (ack_finishes q v F i)
  with ack_finish_fields(5) [OF ack_finishes(4)] show ?thesis
    using assms(2) mset_set_drop by (auto simp: owned_ok_def owners_def)
next
  case (releases q F)
  then show ?thesis using assms(2) mset_set_drop by (auto simp: owned_ok_def owners_def release_inner_def)
next
  case (section_panic p F)
  then show ?thesis using assms(2) subset_mset.order_trans [OF mset_subset_eq_add_right]
    by (auto simp: owned_ok_def owners_def add.left_commute)
next
  case (put_ok q v F u sh)
  with assms(2) commit_to_sel(1) [OF put_ok(4)] show ?thesis by (simp add: owned_ok_def owners_def)
next
  case (put_err q v F e sh)
  with assms(2) commit_to_sel(1) [OF put_err(4)] show ?thesis by (simp add: owned_ok_def owners_def)
next
  case (retry_ok q v F u sh)
  with assms(2) commit_to_sel(1) [OF retry_ok(3)] show ?thesis by (simp add: owned_ok_def owners_def)
next
  case (retry_err q v F e sh)
  with assms(2) commit_to_sel(1) [OF retry_err(3)] show ?thesis by (simp add: owned_ok_def owners_def)
next
  case (group_flush q v b F r sh)
  with assms(2) commit_to_sel(1) [OF group_flush(3)] show ?thesis by (simp add: owned_ok_def owners_def)
next
  case (ack_deletes q v G u sh)
  with assms(2) commit_to_sel(1) [OF ack_deletes(3)] show ?thesis by (simp add: owned_ok_def owners_def)
next
  case (ack_fails q v G e sh)
  with assms(2) commit_to_sel(1) [OF ack_fails(3)] show ?thesis by (simp add: owned_ok_def owners_def)
qed (use assms(2) in \<open>auto simp: owned_ok_def owners_def close_def close_inner_def\<close>)

section \<open>Numbers that are not in the store yet\<close>

definition fresh :: "'s Sys \<Rightarrow> u64 multiset" where
  "fresh s = across fresh_at (flight s) + mset (map fst (pending (group_state (shared s)))) +
     mset_set {q. done_map (group_state (shared s)) q = Some False}"

lemma fresh_at_le: "fresh_at p \<subseteq># direct p + held p"
  by (cases p) auto

lemma across_mono:
  assumes "\<And>p. f p \<subseteq># g p + h p"
  shows "across f F \<subseteq># across g F + across h F"
proof (induction F)
  case (add p F)
  from subset_mset.add_mono [OF assms [of p] add] show ?case by (simp add: ac_simps)
qed simp

lemma fresh_puts:
  assumes "batch_ok s"
  shows "fresh s \<subseteq># puts s"
proof -
  let ?d = "done_map (group_state (shared s))"
  have "mset_set {q. ?d q = Some False} \<subseteq># mset_set (dom ?d)"
    by (rule subset_imp_msubset_mset_set) auto
  from subset_mset.add_mono [OF across_mono [of fresh_at direct held "flight s", OF fresh_at_le] this]
  have "fresh s \<subseteq># across direct (flight s) + places s"
    unfolding fresh_def places_def by (simp add: ac_simps)
  also have "\<dots> = puts s" using assms by (simp add: batch_ok_def puts_def)
  finally show ?thesis .
qed

lemma fresh_once: "batch_ok s \<Longrightarrow> count (fresh s) q \<le> 1"
  using mset_subset_eq_count [OF fresh_puts, of s q] by (auto simp: batch_ok_def intro: order.trans)

lemma puts_once: "batch_ok s \<Longrightarrow> count (puts s) q \<le> 1"
  by (simp add: batch_ok_def)

text \<open>What a step does to these numbers: a commit that succeeds takes its own out, a claim brings
  one in, nothing else adds any.\<close>

lemma done_False_record:
  "{q. done_map (group_record g b ok) q = Some False} \<subseteq>
     {q. done_map g q = Some False} \<union> (if ok then {} else set (map fst b))"
  by (force simp: group_record_done split: if_splits)

lemma fresh_grows:
  assumes "step S s t" and "cursors_ok s" and "batch_ok s"
  shows "set_mset (fresh t) \<subseteq> set_mset (fresh s) \<union> (dom (assigned t) - dom (assigned s))"
  using assms(1)
proof cases
  case (push_claim v q i)
  then have "assigned s q = None" using assms(2) by (auto simp: cursors_ok_def Let_def)
  with push_claim show ?thesis by (auto simp: fresh_def)
next
  case (wake_claim v F q i)
  then have "assigned s q = None" using assms(2) by (auto simp: cursors_ok_def Let_def)
  with wake_claim show ?thesis by (auto simp: fresh_def)
next
  case (group_more q v b ok F b' g)
  with done_False_record [of "group_state (shared s)" b ok] show ?thesis
    by (auto simp: fresh_def group_take_eq split: if_splits)
next
  case (group_end_ok q v b ok F g)
  with done_False_record [of "group_state (shared s)" b ok] show ?thesis
    by (auto simp: fresh_def group_outcome_eq split: if_splits)
next
  case (group_end_retry q v b ok F o' g)
  have "o' = Some False"
    using leader_outcome [OF assms(3) group_end_retry(2,3)] group_end_retry(4,5) by (cases o') (auto simp: group_outcome_eq)
  with group_end_retry done_False_record [of "group_state (shared s)" b ok] show ?thesis
    by (auto simp: fresh_def group_outcome_eq split: if_splits)
next
  case (group_done_ok q v F g)
  then show ?thesis by (auto simp: fresh_def group_outcome_eq split: if_splits)
next
  case (group_done_retry q v F g)
  then show ?thesis by (auto simp: fresh_def group_outcome_eq split: if_splits)
next
  case (put_ok q v F u sh)
  with commit_to_sel(2) [OF put_ok(4)] show ?thesis by (auto simp: fresh_def)
next
  case (put_err q v F e sh)
  with commit_to_sel(2) [OF put_err(4)] show ?thesis by (auto simp: fresh_def)
next
  case (retry_ok q v F u sh)
  with commit_to_sel(2) [OF retry_ok(3)] show ?thesis by (auto simp: fresh_def)
next
  case (retry_err q v F e sh)
  with commit_to_sel(2) [OF retry_err(3)] show ?thesis by (auto simp: fresh_def)
next
  case (group_flush q v b F r sh)
  with commit_to_sel(2) [OF group_flush(3)] show ?thesis by (auto simp: fresh_def)
next
  case (ack_deletes q v G u sh)
  with commit_to_sel(2) [OF ack_deletes(3)] show ?thesis by (auto simp: fresh_def)
next
  case (ack_fails q v G e sh)
  with commit_to_sel(2) [OF ack_fails(3)] show ?thesis by (auto simp: fresh_def)
qed (auto simp: fresh_def close_def group_take_eq group_enqueue_def)

section \<open>The items in the store\<close>

lemma items_of_batch:
  "dom (items_of (apply_ops m (batch_ops b))) = dom (items_of m) \<union> fst ` set b"
proof (induction b arbitrary: m)
  case Nil
  then show ?case by (simp add: batch_ops_def)
next
  case (Cons p b)
  obtain q v where "p = (q, v)" by (cases p)
  moreover have "batch_ops ((q, v) # b) = Put (entry_key q) v # batch_ops b" by (simp add: batch_ops_def)
  moreover have "dom (items_of (apply_ops (m(entry_key q \<mapsto> v)) (batch_ops b))) =
    insert q (dom (items_of m)) \<union> fst ` set b"
    unfolding Cons by simp
  ultimately show ?case by simp
qed

abbreviation stored :: "('s \<Rightarrow> key \<rightharpoonup> val) \<Rightarrow> 's Sys \<Rightarrow> u64 set" where
  "stored m s \<equiv> dom (items_of (m (store (shared s))))"

context atomic_store begin

lemma commit_to_ok:
  assumes "commit_to S sh ops d = (Inr u, sh')" and "sinv (store sh)"
  shows "view (store sh') = apply_ops (view (store sh)) ops"
  using commit_ok [OF assms(2)] commit_to_sel(8) [OF assms(1)] by simp

lemma commit_to_err:
  assumes "commit_to S sh ops d = (Inl e, sh')" and "sinv (store sh)"
  shows "view (store sh') = view (store sh)"
  using commit_err_unchanged [OF assms(2)] commit_to_sel(8) [OF assms(1)] by simp

text \<open>What the store gains leaves \<open>fresh\<close>; only a commit of an ack takes anything out.\<close>

lemma stored_step:
  assumes "step S s t" and "sinv (store (shared s))" and "batch_ok s"
  shows "stored view t = stored view s \<or>
    (\<exists>N. stored view t = stored view s \<union> N \<and> N \<subseteq> set_mset (fresh s) \<and> N \<inter> set_mset (fresh t) = {}) \<or>
    (\<exists>q v. guards s = add_mset (q, v) (guards t) \<and> stored view t = stored view s - {q} \<and>
       flight t = add_mset (AckFin q v) (flight s))"
  using assms(1)
proof cases
  case (put_ok q v F u sh)
  then have "fresh s = add_mset q (fresh t)"
    using commit_to_sel(2) [OF put_ok(4)] by (simp add: fresh_def)
  with fresh_once [OF assms(3), of q] have "q \<in># fresh s" "q \<notin># fresh t"
    by (auto simp: not_in_iff)
  moreover have "stored view t = stored view s \<union> {q}"
    using commit_to_ok [OF put_ok(4) assms(2)] put_ok(1) by auto
  ultimately show ?thesis by blast
next
  case (retry_ok q v F u sh)
  then have "fresh s = add_mset q (fresh t)"
    using commit_to_sel(2) [OF retry_ok(3)] by (simp add: fresh_def)
  with fresh_once [OF assms(3), of q] have "q \<in># fresh s" "q \<notin># fresh t"
    by (auto simp: not_in_iff)
  moreover have "stored view t = stored view s \<union> {q}"
    using commit_to_ok [OF retry_ok(3) assms(2)] retry_ok(1) by auto
  ultimately show ?thesis by blast
next
  case (group_flush q v b F r sh)
  show ?thesis
  proof (cases r)
    case (Inl e)
    with commit_to_err [OF _ assms(2)] group_flush show ?thesis by auto
  next
    case (Inr u)
    then have eq: "fresh s = mset (map fst b) + fresh t"
      using group_flush commit_to_sel(2) [OF group_flush(3)] by (simp add: fresh_def)
    have "q \<notin># fresh t" if "q \<in> fst ` set b" for q
    proof -
      have "1 \<le> count (mset (map fst b)) q"
        using that by (simp add: Suc_le_eq count_greater_zero_iff del: mset_map)
      moreover have "count (mset (map fst b)) q + count (fresh t) q \<le> 1"
        using fresh_once [OF assms(3), of q] unfolding eq by simp
      ultimately have "count (fresh t) q = 0" by linarith
      then show ?thesis by (simp add: not_in_iff)
    qed
    moreover have "fst ` set b \<subseteq> set_mset (fresh s)" unfolding eq by auto
    moreover have "stored view t = stored view s \<union> fst ` set b"
      using commit_to_ok [of "shared s" "batch_ops b" True u sh] assms(2) group_flush Inr by (simp add: items_of_batch)
    ultimately show ?thesis by blast
  qed
next
  case (ack_deletes q v G u sh)
  have "stored view t = stored view s - {q}"
    using commit_to_ok [OF ack_deletes(3) assms(2)] ack_deletes(1) by auto
  with ack_deletes show ?thesis by auto
next
  case (put_err q v F e sh)
  with commit_to_err [OF put_err(4) assms(2)] show ?thesis by simp
next
  case (retry_err q v F e sh)
  with commit_to_err [OF retry_err(3) assms(2)] show ?thesis by simp
next
  case (ack_fails q v G e sh)
  with commit_to_err [OF ack_fails(3) assms(2)] show ?thesis by simp
next
  case (seek_ends c F r st)
  with seek_keeps [OF assms(2) seek_ends(3)] show ?thesis by simp
next
  case (seek_finds c F k v st q)
  with seek_keeps [OF assms(2) seek_finds(3)] show ?thesis by simp
qed (auto simp: close_def)

lemma looking_step:
  assumes "step S s t" and "sinv (store (shared s))"
  shows "set_mset (across looking (flight t)) \<subseteq> set_mset (across looking (flight s)) \<union> stored view s"
  using assms(1)
proof cases
  case (seek_finds c F k v st q)
  have "items_of (view (store (shared s))) q = Some v"
    using seek_reads [OF assms(2) seek_finds(3)] seek_finds(4,5)
    by (auto simp: least_from_def items_of_def elim!: is_entry_cases)
  with seek_finds show ?thesis by auto
qed auto

end

definition acks :: "'s Sys \<Rightarrow> 's Sys \<Rightarrow> u64 \<Rightarrow> val \<Rightarrow> bool" where
  "acks s t q v \<longleftrightarrow> flight t = add_mset (AckFin q v) (flight s)"

lemma acks_step:
  assumes "step S s t" and "acks s t q v"
  shows "guards s = add_mset (q, v) (guards t)" "ack_tried t = insert q (ack_tried s)"
    "inner (shared t) = inner (shared s)" "assigned t = assigned s"
    "\<exists>u. commit_to S (shared s) [Delete (entry_key q)] (ack_durable (shared s)) = (Inr u, shared t)"
proof -
  have grow: "add_mset x F \<noteq> add_mset y (add_mset z F)" for x y z :: pc and F
    by (auto dest: arg_cong [of _ _ size])
  have "guards s = add_mset (q, v) (guards t) \<and> ack_tried t = insert q (ack_tried s) \<and>
    inner (shared t) = inner (shared s) \<and> assigned t = assigned s \<and>
    (\<exists>u. commit_to S (shared s) [Delete (entry_key q)] (ack_durable (shared s)) = (Inr u, shared t))"
    using assms(1)
  proof cases
    case (notify_all F)
    then have "size (flight t) < size (flight s)" by simp
    with assms(2) show ?thesis by (simp add: acks_def)
  next
    case (ack_deletes q' v' G u sh)
    with assms(2) commit_to_sel(1) [OF ack_deletes(3)] show ?thesis by (auto simp: acks_def)
  qed (use assms(2) grow in \<open>auto simp: acks_def dest!: arg_cong [of _ _ size]\<close>)
  then show "guards s = add_mset (q, v) (guards t)" "ack_tried t = insert q (ack_tried s)"
    "inner (shared t) = inner (shared s)" "assigned t = assigned s"
    "\<exists>u. commit_to S (shared s) [Delete (entry_key q)] (ack_durable (shared s)) = (Inr u, shared t)"
    by blast+
qed

lemma quiet_step:
  assumes "step S s t" and "\<nexists>q v. acks s t q v"
  shows "ack_tried s \<subseteq> ack_tried t" "ack_tried t \<subseteq> ack_tried s \<union> fst ` set_mset (guards s)"
    "set_mset (across acking (flight t)) \<subseteq> set_mset (across acking (flight s))"
    "fst ` set_mset (guards t) \<subseteq> fst ` set_mset (guards s) \<union> set_mset (across looking (flight s))"
proof -
  have "ack_tried s \<subseteq> ack_tried t \<and> ack_tried t \<subseteq> ack_tried s \<union> fst ` set_mset (guards s) \<and>
    set_mset (across acking (flight t)) \<subseteq> set_mset (across acking (flight s)) \<and>
    fst ` set_mset (guards t) \<subseteq> fst ` set_mset (guards s) \<union> set_mset (across looking (flight s))"
    using assms(1)
  proof cases
    case (ack_deletes q v G u sh)
    then have "acks s t q v" by (simp add: acks_def)
    with assms(2) show ?thesis by blast
  qed auto
  then show "ack_tried s \<subseteq> ack_tried t" "ack_tried t \<subseteq> ack_tried s \<union> fst ` set_mset (guards s)"
    "set_mset (across acking (flight t)) \<subseteq> set_mset (across acking (flight s))"
    "fst ` set_mset (guards t) \<subseteq> fst ` set_mset (guards s) \<union> set_mset (across looking (flight s))"
    by blast+
qed

section \<open>The accounting invariant: sets\<close>

definition acct_sets :: "('s \<Rightarrow> key \<rightharpoonup> val) \<Rightarrow> 's Sys \<Rightarrow> bool" where
  "acct_sets view s \<longleftrightarrow>
     set_mset (fresh s) \<inter> (stored view s \<union> ack_tried s) = {} \<and>
     ack_tried s \<subseteq> dom (assigned s) \<and>
     set_mset (across acking (flight s)) \<inter> stored view s = {} \<and>
     fst ` set_mset (guards s) \<union> set_mset (across looking (flight s)) \<subseteq> stored view s"

lemma guard_once:
  assumes "owned_ok s" and "guards s = add_mset (q, v) G"
  shows "q \<notin> fst ` set_mset G" "q \<notin># across owner (flight s)" "q \<in> reserved (inner (shared s))"
proof -
  have sub: "add_mset q (image_mset fst G + across owner (flight s)) \<subseteq># mset_set (reserved (inner (shared s)))"
    using assms by (simp add: owned_ok_def owners_def)
  show "q \<in> reserved (inner (shared s))"
    using mset_subset_eqD [OF sub, of q] by simp
  have "count (add_mset q (image_mset fst G + across owner (flight s))) q \<le> 1"
    using mset_subset_eq_count [OF sub, of q] by (simp split: if_splits)
  then have "count (image_mset fst G + across owner (flight s)) q = 0" by simp
  then have "q \<notin># image_mset fst G + across owner (flight s)" by (rule not_in_iff [THEN iffD2])
  then show "q \<notin> fst ` set_mset G" "q \<notin># across owner (flight s)"
    unfolding union_iff by auto
qed

lemma acking_tried:
  assumes "cursors_ok s"
  shows "set_mset (across acking (flight s)) \<subseteq> ack_tried s"
proof -
  have "\<exists>v. p = AckFin q v" if "q \<in># acking p" for p q
    using that by (cases p) auto
  note a = this
  have c: "AckFin q v \<in># flight s \<Longrightarrow> q \<in> ack_tried s" for q v
    using assms unfolding cursors_ok_def Let_def by blast
  show ?thesis
  proof
    fix q assume "q \<in># across acking (flight s)"
    then obtain p where "p \<in># flight s" "q \<in># acking p" by auto
    with a c show "q \<in> ack_tried s" by blast
  qed
qed

lemma no_looking:
  assumes "single_consumer t" and "acks s t q v"
  shows "across looking (flight t) = {#}"
proof -
  have none: "size (filter_mset consumer_side (flight s)) = 0"
    using assms by (simp add: single_consumer_def acks_def)
  have "\<not> consumer_side p" if "p \<in># flight s" for p
  proof
    assume "consumer_side p"
    with that have "p \<in># filter_mset consumer_side (flight s)" by simp
    with none show False by auto
  qed
  moreover have "looking p = {#}" if "\<not> consumer_side p" for p
    using that by (cases p) auto
  ultimately have "\<forall>p \<in># flight s. looking p = {#}" by blast
  then show ?thesis using assms(2) across_empty [of "flight s" looking] by (simp add: acks_def)
qed

context atomic_store begin

lemma stored_bounds:
  assumes "pairs_ok view s" and "batch_ok s" and "cursors_ok s"
  shows "stored view s \<subseteq> dom (assigned s)" "set_mset (fresh s) \<subseteq> dom (assigned s)"
proof -
  show "stored view s \<subseteq> dom (assigned s)"
    using pairsD(5) [OF assms(1)] by (auto simp: items_of_def)
  show "set_mset (fresh s) \<subseteq> dom (assigned s)"
    using set_mset_mono [OF fresh_puts [OF assms(2)]] assms(2) unfolding batch_ok_def by (meson order.trans)
qed

lemma acct_sets_step:
  assumes "step S s t" and "sinv (store (shared s))" and "cursors_ok s" and "pairs_ok view s"
    and "batch_ok s" and "owned_ok s" and "single_consumer t" and A: "acct_sets view s"
  shows "acct_sets view t"
proof (cases "\<exists>q v. acks s t q v")
  case True
  then obtain q v where a: "acks s t q v" by blast
  note k = acks_step [OF assms(1) a]
  from k(5) obtain u where c: "commit_to S (shared s) [Delete (entry_key q)] (ack_durable (shared s)) = (Inr u, shared t)"
    by blast
  have "fresh t = fresh s"
    using a commit_to_sel(2) [OF c] by (simp add: fresh_def acks_def)
  moreover have "stored view t = stored view s - {q}"
    using commit_to_ok [OF c assms(2)] by auto
  moreover have "q \<in> stored view s" "q \<notin> fst ` set_mset (guards t)"
    using A k(1) guard_once [OF assms(6) k(1)] by (auto simp: acct_sets_def)
  moreover have "across acking (flight t) = add_mset q (across acking (flight s))"
    using a by (simp add: acks_def)
  moreover have "across looking (flight t) = {#}" by (rule no_looking [OF assms(7) a])
  moreover have "q \<in> dom (assigned s)"
    using stored_bounds(1) [OF assms(4,5,3)] \<open>q \<in> stored view s\<close> by blast
  moreover have "fst ` set_mset (guards s) = insert q (fst ` set_mset (guards t))"
    using k(1) by simp
  ultimately show ?thesis
    using A unfolding acct_sets_def k(2,4) by (simp only: set_mset_empty set_mset_add_mset_insert) blast
next
  case False
  note quiet = quiet_step [OF assms(1) False] and b = stored_bounds [OF assms(4,5,3)]
  have gain: "stored view s \<subseteq> stored view t"
    "stored view t \<subseteq> stored view s \<union> (set_mset (fresh s) - set_mset (fresh t))"
    using stored_step [OF assms(1,2,5)] False by (auto simp: acks_def)
  have grow: "dom (assigned s) \<subseteq> dom (assigned t)"
    using assigned_grows [OF assms(1,3)] by (auto simp: dom_def)
  note f = fresh_grows [OF assms(1,3,5)] and l = looking_step [OF assms(1,2)]
  have A': "set_mset (fresh s) \<inter> (stored view s \<union> ack_tried s) = {}" "ack_tried s \<subseteq> dom (assigned s)"
    "set_mset (across acking (flight s)) \<inter> stored view s = {}"
    "fst ` set_mset (guards s) \<union> set_mset (across looking (flight s)) \<subseteq> stored view s"
    using A by (auto simp only: acct_sets_def)
  have ack: "set_mset (across acking (flight s)) \<subseteq> ack_tried s"
    by (rule acking_tried [OF assms(3)])
  show ?thesis
    unfolding acct_sets_def
  proof (intro conjI)
    show "set_mset (fresh t) \<inter> (stored view t \<union> ack_tried t) = {}"
    proof (rule equals0I)
      fix x assume x: "x \<in> set_mset (fresh t) \<inter> (stored view t \<union> ack_tried t)"
      then consider "x \<in> stored view t" | "x \<in> ack_tried t" by blast
      then have "x \<in> stored view s \<union> ack_tried s"
        using gain(2) quiet(2) A'(4) x by cases blast+
      moreover have "stored view s \<union> ack_tried s \<subseteq> dom (assigned s)" using b(1) A'(2) by blast
      moreover have "x \<in> set_mset (fresh s) \<or> x \<notin> dom (assigned s)" using f x by blast
      ultimately show False using A'(1) by blast
    qed
    have "fst ` set_mset (guards s) \<subseteq> dom (assigned s)" using A'(4) b(1) by blast
    then show "ack_tried t \<subseteq> dom (assigned t)"
      by (rule order.trans [OF order.trans [OF quiet(2) Un_least [OF A'(2)]] grow])
    show "set_mset (across acking (flight t)) \<inter> stored view t = {}"
    proof (rule equals0I)
      fix x assume x: "x \<in> set_mset (across acking (flight t)) \<inter> stored view t"
      then have "x \<in> set_mset (across acking (flight s))" using quiet(3) by blast
      moreover have "x \<in> stored view s \<or> x \<in># fresh s" using gain(2) x by blast
      ultimately show False using A'(1,3) ack by blast
    qed
    show "fst ` set_mset (guards t) \<union> set_mset (across looking (flight t)) \<subseteq> stored view t"
    proof (rule Un_least)
      have below: "fst ` set_mset (guards s) \<union> set_mset (across looking (flight s)) \<subseteq> stored view t"
        using A'(4) gain(1) by (rule order.trans)
      with quiet(4) show "fst ` set_mset (guards t) \<subseteq> stored view t" by (rule order.trans)
      have "set_mset (across looking (flight s)) \<union> stored view s \<subseteq> stored view t"
        by (rule Un_least [OF _ gain(1)]) (use below in \<open>simp only: Un_subset_iff\<close>)
      with l show "set_mset (across looking (flight t)) \<subseteq> stored view t" by (rule order.trans)
    qed
  qed
qed

end

section \<open>The accounting invariant: counts\<close>

definition counted :: "('s \<Rightarrow> key \<rightharpoonup> val) \<Rightarrow> 's Sys \<Rightarrow> u64 set" where
  "counted view s = stored view s \<union> (set_mset (puts s) - ack_tried s) \<union> set_mset (across acking (flight s))"

definition load :: "(u64 \<rightharpoonup> val) \<Rightarrow> u64 set \<Rightarrow> nat" where
  "load m A = (\<Sum>q \<in> A. length (the (m q)))"

definition acct_count :: "('s \<Rightarrow> key \<rightharpoonup> val) \<Rightarrow> 's Sys \<Rightarrow> bool" where
  "acct_count view s \<longleftrightarrow>
     len (inner (shared s)) = card (counted view s) \<and>
     bytes (inner (shared s)) = load (assigned s) (counted view s)"

lemma load_insert [simp]: "q \<notin> A \<Longrightarrow> load m (insert q A) = length (the (m q)) + load m A"
  by (simp add: load_def)

lemma load_upd [simp]: "q \<notin> A \<Longrightarrow> load (m(q \<mapsto> v)) A = load m A"
  unfolding load_def by (intro sum.cong) auto

lemma count_keep:
  assumes "acct_count view s" and "inner (shared t) = inner (shared s)" and "counted view t = counted view s"
    and "assigned t = assigned s"
  shows "acct_count view t"
  using assms by (simp add: acct_count_def)

lemma count_add:
  assumes "acct_count view s" and "counted view t = insert q (counted view s)" and "q \<notin> counted view s"
    and "assigned t = (assigned s)(q \<mapsto> v)" and "len (inner (shared t)) = len (inner (shared s)) + 1"
    and "bytes (inner (shared t)) = bytes (inner (shared s)) + length v"
  shows "acct_count view t"
  using assms by (simp add: acct_count_def)

lemma count_drop:
  assumes "acct_count view s" and "counted view s = insert q (counted view t)" and "q \<notin> counted view t"
    and "assigned t = assigned s" and "assigned s q = Some v"
    and "len (inner (shared s)) = len (inner (shared t)) + 1"
    and "bytes (inner (shared s)) = bytes (inner (shared t)) + length v"
  shows "acct_count view t"
  using assms by (simp add: acct_count_def)

lemma count_covers:
  assumes "acct_count view s" and "q \<in> counted view s" and "assigned s q = Some v"
  shows "1 \<le> len (inner (shared s))" "length v \<le> bytes (inner (shared s))"
proof -
  let ?A = "counted view s - {q}"
  have A: "counted view s = insert q ?A" "q \<notin> ?A" using assms(2) by auto
  have "card (counted view s) = Suc (card ?A)"
    using card.remove [OF finite_words assms(2)] .
  moreover have "load (assigned s) (counted view s) = length v + load (assigned s) ?A"
    using load_insert [OF A(2), of "assigned s"] A(1) assms(3) by simp
  ultimately show "1 \<le> len (inner (shared s))" "length v \<le> bytes (inner (shared s))"
    using assms(1) by (simp_all add: acct_count_def)
qed

lemma once_out:
  assumes "count M q \<le> 1" and "M = add_mset q N"
  shows "q \<notin># N"
  using assms by (simp add: not_in_iff)

lemma boot_acct:
  assumes "wf_queue (view (store sh)) sh" and "reserved (inner sh) = {}"
  shows "acct_sets view (boot (items_of (view (store sh))) sh)"
    "acct_count view (boot (items_of (view (store sh))) sh)"
    "owned_ok (boot (items_of (view (store sh))) sh)"
    "single_consumer (boot (items_of (view (store sh))) sh)"
  using wf_queueD(6-8) [OF assms(1)] assms(2)
  by (auto simp: acct_sets_def acct_count_def owned_ok_def owners_def fresh_def puts_def counted_def load_def
      weight_def group_default_def single_consumer_def)

context atomic_store begin

lemma counted_assigned:
  assumes "pairs_ok view s" and "batch_ok s" and "cursors_ok s" and "acct_sets view s"
  shows "counted view s \<subseteq> dom (assigned s)"
proof -
  have "set_mset (puts s) \<subseteq> dom (assigned s)" using assms(2) by (simp add: batch_ok_def)
  moreover have "set_mset (across acking (flight s)) \<subseteq> dom (assigned s)"
    using acking_tried [OF assms(3)] assms(4) unfolding acct_sets_def by (meson order.trans)
  ultimately show ?thesis
    using stored_bounds(1) [OF assms(1-3)] unfolding counted_def by blast
qed

text \<open>A number that is still fresh or being acked is in exactly one of the three groups.\<close>

lemma fresh_alone:
  assumes "acct_sets view s" and "cursors_ok s" and "q \<in># fresh s"
  shows "q \<notin> stored view s" "q \<notin> ack_tried s" "q \<notin># across acking (flight s)"
  using assms(1,3) acking_tried [OF assms(2)] unfolding acct_sets_def by blast+

text \<open>The store gains only numbers that were counted already.\<close>

lemma counted_gain:
  assumes "stored view t = stored view s \<union> N" and "N \<subseteq> set_mset (fresh s)"
    and "puts t = puts s" and "ack_tried t = ack_tried s" and "across acking (flight t) = across acking (flight s)"
    and "acct_sets view s" and "batch_ok s"
  shows "counted view t = counted view s"
proof -
  have "N \<subseteq> set_mset (puts s) - ack_tried s"
    using set_mset_mono [OF fresh_puts [OF assms(7)]] assms(2,6) unfolding acct_sets_def by blast
  then show ?thesis
    unfolding counted_def assms(1,3-5) by blast
qed

lemma put_lands:
  assumes "puts s = add_mset q (puts t)" and "q \<in># fresh s" and "stored view t = insert q (stored view s)"
    and "ack_tried t = ack_tried s" and "across acking (flight t) = across acking (flight s)"
    and "acct_sets view s" and "cursors_ok s"
  shows "counted view t = counted view s"
  using fresh_alone [OF assms(6,7,2)] unfolding counted_def assms(1,3-5) by auto

lemma put_returns:
  assumes "puts s = add_mset q (puts t)" and "q \<in> stored view s \<union> ack_tried s"
    and "stored view t = stored view s" and "ack_tried t = ack_tried s"
    and "across acking (flight t) = across acking (flight s)"
  shows "counted view t = counted view s"
  using assms(2) unfolding counted_def assms(1,3-5) by auto

lemma claim_counts:
  assumes "acct_count view s" and "q = tail (inner (shared s))" and "cursors_ok s" and "pairs_ok view s"
    and "batch_ok s" and "acct_sets view s"
    and "puts t = add_mset q (puts s)" and "stored view t = stored view s" and "ack_tried t = ack_tried s"
    and "across acking (flight t) = across acking (flight s)" and "assigned t = (assigned s)(q \<mapsto> v)"
    and "len (inner (shared t)) = len (inner (shared s)) + 1"
    and "bytes (inner (shared t)) = bytes (inner (shared s)) + length v"
  shows "acct_count view t"
proof (rule count_add [OF assms(1) _ _ assms(11-13)])
  have "q \<notin> dom (assigned s)" using assms(2,3) by (auto simp: cursors_ok_def Let_def)
  then show "q \<notin> counted view s" using counted_assigned [OF assms(4,5,3,6)] by blast
  have "q \<notin> ack_tried s" using \<open>q \<notin> dom (assigned s)\<close> assms(6) unfolding acct_sets_def by blast
  then show "counted view t = insert q (counted view s)"
    unfolding counted_def assms(7-10) by auto
qed

lemma landed_counted:
  assumes "kept_ok (\<lambda>st k v. view st k = Some v) s" and "(q, v) \<in> landed s"
  shows "q \<in> stored view s \<union> ack_tried s"
  using assms by (auto simp: kept_ok_def items_of_def)

lemma acking_once:
  assumes "owned_ok s"
  shows "count (across acking (flight s)) q \<le> 1"
proof -
  have "acking p \<subseteq># owner p + {#}" for p by (cases p) auto
  then have "across acking (flight s) \<subseteq># across owner (flight s) + across (\<lambda>_. {#}) (flight s)"
    by (rule across_mono)
  then have "across acking (flight s) \<subseteq># across owner (flight s)"
    using across_empty [of "flight s" "\<lambda>_. {#} :: u64 multiset"] by simp
  also have "\<dots> \<subseteq># owners s" by (simp add: owners_def)
  also have "\<dots> \<subseteq># mset_set (reserved (inner (shared s)))" using assms by (simp add: owned_ok_def)
  finally show ?thesis using mset_subset_eq_count [of _ _ q] by (fastforce split: if_splits)
qed

text \<open>The decrements never underflow: a section that gives a slot back or ends an ack succeeds.\<close>

lemma section_no_underflow:
  assumes "cursors_ok s" and "pairs_ok view s" and "batch_ok s" and "acct_sets view s"
    and "acct_count view s" and "p \<in># flight s"
  shows "p = Failed q v \<Longrightarrow> give_back (inner (shared s)) (length v) \<noteq> None"
    "p = AckFin q v \<Longrightarrow> ack_finish (inner (shared s)) q (length v) \<noteq> None"
proof -
  assume p: "p = Failed q v"
  then have f: "q \<in># fresh s" "q \<in># puts s" using assms(6) by (force simp: fresh_def puts_def)+
  have "assigned s q = Some v" using pairsD(1) [OF assms(2,6)] p by simp
  moreover have "q \<in> counted view s"
    using f fresh_alone(2) [OF assms(4,1) f(1)] by (simp add: counted_def)
  ultimately show "give_back (inner (shared s)) (length v) \<noteq> None"
    using count_covers [OF assms(5), of q v] by (simp add: give_back_eq_None)
next
  assume p: "p = AckFin q v"
  have v: "assigned s q = Some v" using pairsD(1) [OF assms(2,6)] p by simp
  have "q \<in> counted view s" using p assms(6) by (force simp: counted_def)
  note c = count_covers [OF assms(5) this v]
  have i: "q < tail (inner (shared s))" "acked_above (inner (shared s)) \<subseteq> {..<tail (inner (shared s))}"
    "head (inner (shared s)) \<le> tail (inner (shared s))"
    using v assms(1) by (auto simp: cursors_ok_def Let_def)
  from ack_finish_total [OF c i] show "ack_finish (inner (shared s)) q (length v) \<noteq> None" by auto
qed

lemma acct_count_step:
  assumes "step S s t" and "sinv (store (shared s))" and "cursors_ok s" and "pairs_ok view s"
    and "kept_ok (\<lambda>st k v. view st k = Some v) s" and "batch_ok s" and "owned_ok s"
    and "acct_sets view s" and cnt: "acct_count view s"
  shows "acct_count view t"
  using assms(1)
proof cases
  case (push_claim v q i)
  show ?thesis
    by (rule claim_counts [OF cnt _ assms(3,4,6,8), of q t v]) (use push_claim in \<open>simp_all add: puts_def\<close>)
next
  case (wake_claim v F q i)
  show ?thesis
    by (rule claim_counts [OF cnt _ assms(3,4,6,8), of q t v]) (use wake_claim in \<open>simp_all add: puts_def\<close>)
next
  case (put_ok q v F u sh)
  note c = commit_to_sel(1,2) [OF put_ok(4)]
  have "counted view t = counted view s"
    by (rule put_lands [OF _ _ _ _ _ assms(8,3), of q])
      (use put_ok c commit_to_ok [OF put_ok(4) assms(2)] in \<open>simp_all add: puts_def fresh_def\<close>)
  then show ?thesis by (rule count_keep [OF cnt, rotated]) (use put_ok c in simp_all)
next
  case (retry_ok q v F u sh)
  note c = commit_to_sel(1,2) [OF retry_ok(3)]
  have "counted view t = counted view s"
    by (rule put_lands [OF _ _ _ _ _ assms(8,3), of q])
      (use retry_ok c commit_to_ok [OF retry_ok(3) assms(2)] in \<open>simp_all add: puts_def fresh_def\<close>)
  then show ?thesis by (rule count_keep [OF cnt, rotated]) (use retry_ok c in simp_all)
next
  case (group_flush q v b F r sh)
  note c = commit_to_sel(1,2) [OF group_flush(3)]
  have "\<exists>N. stored view t = stored view s \<union> N \<and> N \<subseteq> set_mset (fresh s)"
    using stored_step [OF assms(1,2,6)] group_flush by auto
  then obtain N where "stored view t = stored view s \<union> N" "N \<subseteq> set_mset (fresh s)" by blast
  then have "counted view t = counted view s"
    by (rule counted_gain [OF _ _ _ _ _ assms(8,6)]) (use group_flush in \<open>simp_all add: puts_def\<close>)
  then show ?thesis by (rule count_keep [OF cnt, rotated]) (use group_flush c in simp_all)
next
  case (failed_back q v F i)
  have p: "puts s = add_mset q (puts t)" "q \<in># fresh s"
    using failed_back by (simp_all add: puts_def fresh_def)
  have v: "assigned s q = Some v"
    using pairsD(1) [OF assms(4), of "Failed q v"] failed_back(3) by auto
  note al = fresh_alone [OF assms(8,3) p(2)] and o = once_out [OF puts_once [OF assms(6)] p(1)]
  show ?thesis
  proof (rule count_drop [OF cnt _ _ _ v])
    show "counted view s = insert q (counted view t)" "q \<notin> counted view t"
      using failed_back al o p(1) by (auto simp: counted_def)
  qed (use failed_back in auto)
next
  case (ack_finishes q v F i)
  have v: "assigned s q = Some v"
    using pairsD(1) [OF assms(4), of "AckFin q v"] ack_finishes(3) by auto
  have q: "q \<in> ack_tried s" "q \<notin> stored view s"
    using acking_tried [OF assms(3)] assms(8) ack_finishes(3) by (auto simp: acct_sets_def)
  have o: "q \<notin># across acking F"
  proof (rule once_out)
    show "count (across acking (flight s)) q \<le> 1" by (rule acking_once [OF assms(7)])
  qed (use ack_finishes in simp)
  show ?thesis
  proof (rule count_drop [OF cnt _ _ _ v])
    show "counted view s = insert q (counted view t)" "q \<notin> counted view t"
      using ack_finishes q o by (auto simp: counted_def puts_def)
  qed (use ack_finishes ack_finish_fields [OF ack_finishes(4)] in auto)
next
  case (group_end_ok q v b ok F g)
  have r: "GRecord q v b ok \<in># flight s" using group_end_ok by simp
  have "(q, v) \<in> landed s"
    using record_landed(2) [OF r assms(4)] assms(5) pairsD(1) [OF assms(4) r, of q v] group_end_ok(4)
    by (auto simp: kept_ok_def group_outcome_eq)
  then have "q \<in> stored view s \<union> ack_tried s" using landed_counted [OF assms(5)] by blast
  then have "counted view t = counted view s"
    by (rule put_returns [rotated]) (use group_end_ok in \<open>simp_all add: puts_def\<close>)
  then show ?thesis by (rule count_keep [OF cnt, rotated]) (use group_end_ok in simp_all)
next
  case (group_done_ok q v F g)
  have "(q, v) \<in> landed s"
    using pairsD(1) [OF assms(4), of "GWait q v" q v] group_done_ok by (auto simp: landed_def group_outcome_eq)
  then have "q \<in> stored view s \<union> ack_tried s" using landed_counted [OF assms(5)] by blast
  then have "counted view t = counted view s"
    by (rule put_returns [rotated]) (use group_done_ok in \<open>simp_all add: puts_def\<close>)
  then show ?thesis by (rule count_keep [OF cnt, rotated]) (use group_done_ok in simp_all)
next
  case (section_panic p F)
  then have "p \<in># flight s" by simp
  then have "direct p = {#}" "waiter p = {#}" "acking p = {#}"
    using section_no_underflow [OF assms(3,4,6,8) cnt] section_panic(4) by (cases p; force)+
  with cnt section_panic show ?thesis by (simp add: acct_count_def counted_def puts_def)
next
  case (ack_deletes q v G u sh)
  have "stored view t = stored view s - {q}"
    using commit_to_ok [OF ack_deletes(3) assms(2)] ack_deletes(1) by auto
  moreover have "q \<in> stored view s" using assms(8) ack_deletes(2) by (auto simp: acct_sets_def)
  ultimately have "counted view t = counted view s"
    using ack_deletes by (auto simp: counted_def puts_def)
  then show ?thesis
    by (rule count_keep [OF cnt, rotated]) (use ack_deletes commit_to_sel(1) [OF ack_deletes(3)] in simp_all)
next
  case (put_err q v F e sh)
  with cnt commit_to_err [OF put_err(4) assms(2)] commit_to_sel(1) [OF put_err(4)] show ?thesis
    by (auto simp: acct_count_def counted_def puts_def)
next
  case (retry_err q v F e sh)
  with cnt commit_to_err [OF retry_err(3) assms(2)] commit_to_sel(1) [OF retry_err(3)] show ?thesis
    by (auto simp: acct_count_def counted_def puts_def)
next
  case (ack_fails q v G e sh)
  have "stored view t = stored view s" using commit_to_err [OF ack_fails(3) assms(2)] ack_fails(1) by simp
  moreover have "q \<in> stored view s" using assms(8) ack_fails(2) by (auto simp: acct_sets_def)
  ultimately have "counted view t = counted view s"
    using ack_fails by (auto simp: counted_def puts_def)
  then show ?thesis
    by (rule count_keep [OF cnt, rotated]) (use ack_fails commit_to_sel(1) [OF ack_fails(3)] in simp_all)
next
  case (seek_ends c F r st)
  with cnt seek_keeps [OF assms(2) seek_ends(3)] show ?thesis
    by (auto simp: acct_count_def counted_def puts_def)
next
  case (seek_finds c F k v st q)
  with cnt seek_keeps [OF assms(2) seek_finds(3)] show ?thesis
    by (auto simp: acct_count_def counted_def puts_def)
qed (use cnt in \<open>auto simp: acct_count_def counted_def puts_def close_def close_inner_def release_inner_def\<close>)

text \<open>All of it, in every state one consumer thread can reach.\<close>

lemma reach_acct:
  assumes "reach S single_consumer (boot (items_of (view (store sh))) sh) s"
    and "sinv (store sh)" and "wf_queue (view (store sh)) sh" and "reserved (inner sh) = {}"
  shows "sinv (store (shared s))" "cursors_ok s" "pairs_ok view s" "batch_ok s" "owned_ok s"
    "acct_sets view s" "acct_count view s" "kept_ok (\<lambda>st k v. view st k = Some v) s"
proof -
  let ?J = "\<lambda>s. sinv (store (shared s)) \<and> cursors_ok s \<and> pairs_ok view s \<and> batch_ok s \<and> owned_ok s \<and>
    kept_ok (\<lambda>st k v. view st k = Some v) s \<and> acct_sets view s \<and> acct_count view s"
  have start: "reach S single_consumer (boot (items_of (view (store sh))) sh) (boot (items_of (view (store sh))) sh)"
    by (rule reach_start)
  have kept0: "kept_ok (\<lambda>st k v. view st k = Some v) (boot (items_of (view (store sh))) sh)"
    by (rule live_kept(4) [OF start assms(2,3)]) (simp_all add: items_of_def)
  have "?J s"
    using assms(1)
  proof (rule reach_inv)
    show "?J (boot (items_of (view (store sh))) sh)"
      using assms(2) boot_cursors [OF assms(3)] boot_pairs [of view sh] boot_batch [OF assms(3)] assms(3) kept0
        boot_acct [of view sh] assms(4) by simp
  next
    fix s t assume st: "step S s t" "single_consumer t" and J: "?J s"
    have "kept_ok (\<lambda>st k v. view st k = Some v) t"
      by (rule live.kept_step [OF st(1)]) (use J in simp_all)
    then show "?J t"
      using J cursors_step [OF st(1), of view] pairs_step [OF st(1)] batch_step [OF st(1)] owned_step [OF st(1)]
        acct_sets_step [OF st(1)] acct_count_step [OF st(1)] st(2) by simp
  qed
  then show "sinv (store (shared s))" "cursors_ok s" "pairs_ok view s" "batch_ok s" "owned_ok s"
    "acct_sets view s" "acct_count view s" "kept_ok (\<lambda>st k v. view st k = Some v) s" by blast+
qed

end

end
