(* ===== verification/Concurrency.thy ===== *)
theory Concurrency imports Accounting begin

text \<open>
  What \<open>Batching\<close> and \<open>Accounting\<close> give, stated over runs of the thread machine: exclusive
  delivery, the capacity and byte bounds, and exact counters without underflow. The limits of
  these are in \<open>Traces\<close> and \<open>Flush\<close>.
\<close>

section \<open>A run with a delivery\<close>

lemma demo_same: "demo_queue\<lparr>store := demo_store, inner := i\<rparr> = demo_queue\<lparr>inner := i\<rparr>"
  "demo_queue\<lparr>inner := i, store := demo_store\<rparr> = demo_queue\<lparr>inner := i\<rparr>"
  by (simp_all add: demo_queue_def)

lemma demo_held:
  "\<exists>s. reach (MemStore :: (mem_store, unit) Store) single_consumer
     (boot (items_of (map_of (store demo_queue))) demo_queue) s \<and> guards s = {#(0, [7])#} \<and> flight s = {#}"
proof -
  let ?S = "MemStore :: (mem_store, unit) Store"
  let ?i = "inner demo_queue"
  let ?st = "\<lambda>r F G d. \<lparr>shared = demo_queue\<lparr>inner := ?i\<lparr>reserved := r\<rparr>\<rparr>, flight = F, guards = G,
    poisoned = False, assigned = [0 \<mapsto> [7]], accepted = [0 \<mapsto> [7]], ack_tried = {}, delivered = d\<rparr>"
  have next0: "bt_next (entry_key 0) demo_store = Some (entry_key 0, [7])"
    by (simp add: demo_store_def not_le)
  have 0: "boot [0 \<mapsto> [7]] demo_queue = ?st {} {#} {#} []"
    by (simp add: boot_def demo_queue_def)
  have 1: "step ?S (?st {} {#} {#} []) (?st {} {#RSeek (entry_key 0)#} {#} [])"
    using reserve_start [of "?st {} {#} {#} []" ?S] by (simp add: demo_queue_def)
  have 2: "step ?S (?st {} {#RSeek (entry_key 0)#} {#} []) (?st {} {#RCheck 0 [7]#} {#} [])"
    using seek_finds [of "?st {} {#RSeek (entry_key 0)#} {#} []" "entry_key 0" "{#}" ?S "entry_key 0" "[7]" demo_store 0]
    by (simp add: mem_seek_def next0 demo_same)
  have 3: "step ?S (?st {} {#RCheck 0 [7]#} {#} []) (?st {0} {#} {#(0, [7])#} [0])"
    using check_takes [of "?st {} {#RCheck 0 [7]#} {#} []" 0 "[7]" "{#}" "?i\<lparr>reserved := {0}\<rparr>" ?S]
    by simp
  have "reach ?S single_consumer (boot [0 \<mapsto> [7]] demo_queue) (?st {0} {#} {#(0, [7])#} [0])"
    unfolding 0
    by (rule reach_step [OF reach_step [OF reach_step [OF reach_start 1] 2] 3])
      (simp_all add: single_consumer_def)
  then show ?thesis
    unfolding demo_sel demo_items by (intro exI conjI, assumption) simp_all
qed

section \<open>Bounds\<close>

lemma bounds_step:
  assumes "step S s t" and "len (inner (shared s)) \<le> max (capacity sh) n"
    and "bytes (inner (shared s)) \<le> max (max_bytes sh) m \<or> len (inner (shared s)) \<le> 1"
    and "capacity (shared s) = capacity sh" and "max_bytes (shared s) = max_bytes sh"
  shows "len (inner (shared t)) \<le> max (capacity sh) n \<and>
    (bytes (inner (shared t)) \<le> max (max_bytes sh) m \<or> len (inner (shared t)) \<le> 1)"
  using assms(1)
proof cases
  case (push_claim v q i)
  then show ?thesis using assms(2-5) by (auto simp: admits_def saturating_add_def)
next
  case (wake_claim v F q i)
  then show ?thesis using assms(2-5) by (auto simp: admits_def saturating_add_def)
next
  case (ack_finishes q v F i)
  with ack_finish_fields(2,3) [OF ack_finishes(4)] show ?thesis using assms(2,3) by auto
next
  case (put_ok q v F u sh)
  with assms(2,3) commit_to_sel(1) [OF put_ok(4)] show ?thesis by simp
next
  case (put_err q v F e sh)
  with assms(2,3) commit_to_sel(1) [OF put_err(4)] show ?thesis by simp
next
  case (retry_ok q v F u sh)
  with assms(2,3) commit_to_sel(1) [OF retry_ok(3)] show ?thesis by simp
next
  case (retry_err q v F e sh)
  with assms(2,3) commit_to_sel(1) [OF retry_err(3)] show ?thesis by simp
next
  case (group_flush q v b F r sh)
  with assms(2,3) commit_to_sel(1) [OF group_flush(3)] show ?thesis by simp
next
  case (ack_deletes q v G u sh)
  with assms(2,3) commit_to_sel(1) [OF ack_deletes(3)] show ?thesis by simp
next
  case (ack_fails q v G e sh)
  with assms(2,3) commit_to_sel(1) [OF ack_fails(3)] show ?thesis by simp
qed (use assms(2,3) in \<open>auto simp: close_def close_inner_def release_inner_def\<close>)

section \<open>Properties\<close>

text \<open>C4. Exclusive delivery. Whatever the interleaving and the store, no two live guards hold the
  same number, a held number is marked in \<open>reserved\<close>, and no ack or release of it is pending.\<close>

theorem delivery_exclusive:
  assumes "reserved (inner sh) = {}" and "reach S C (boot m sh) s"
  shows "count (image_mset fst (guards s)) q \<le> 1 \<and>
    (\<forall>(q, v) \<in># guards s. q \<in> reserved (inner (shared s)) \<and>
       Release q \<notin># flight s \<and> (\<forall>u. AckFin q u \<notin># flight s))"
proof -
  have o: "owned_ok s"
    using assms(2)
  proof (rule reach_inv)
    show "owned_ok (boot m sh)" by (simp add: owned_ok_def owners_def assms(1))
  qed (rule owned_step)
  have "count (image_mset fst (guards s)) q \<le> count (owners s) q"
    by (simp add: owners_def)
  also have "\<dots> \<le> count (mset_set (reserved (inner (shared s)))) q"
    using o unfolding owned_ok_def by (rule mset_subset_eq_count)
  also have "\<dots> \<le> 1" by simp
  finally have "count (image_mset fst (guards s)) q \<le> 1" .
  moreover have "q \<in> reserved (inner (shared s)) \<and> Release q \<notin># flight s \<and> (\<forall>u. AckFin q u \<notin># flight s)"
    if "(q, v) \<in># guards s" for q v
  proof -
    from that obtain G where G: "guards s = add_mset (q, v) G" by (metis insert_DiffM)
    note g = guard_once [OF o G]
    then show ?thesis by force
  qed
  ultimately show ?thesis by blast
qed

theorem delivery_exclusive_witness:
  "\<exists>s. reach (MemStore :: (mem_store, unit) Store) single_consumer
     (boot (items_of (map_of (store demo_queue))) demo_queue) s \<and>
     count (image_mset fst (guards s)) 0 = 1 \<and> 0 \<in> reserved (inner (shared s))"
proof -
  have r: "reserved (inner demo_queue) = {}" by (simp add: demo_queue_def)
  from demo_held obtain s where s: "reach (MemStore :: (mem_store, unit) Store) single_consumer
     (boot (items_of (map_of (store demo_queue))) demo_queue) s" "guards s = {#(0, [7])#}" by blast
  from delivery_exclusive [OF r s(1), of 0] s show ?thesis by auto
qed

text \<open>C13. The bounds of the builder hold at every moment, whatever the interleaving and the store:
  \<open>len\<close> never exceeds the capacity (or what \<open>open\<close> found, if more), and \<open>bytes\<close> exceeds
  \<open>max_bytes\<close> only while the queue holds a single item.\<close>

theorem capacity_respected:
  assumes "reach S C (boot m sh) s"
  shows "len (inner (shared s)) \<le> max (capacity sh) (len (inner sh)) \<and>
    (bytes (inner (shared s)) \<le> max (max_bytes sh) (bytes (inner sh)) \<or> len (inner (shared s)) \<le> 1)"
proof -
  let ?J = "\<lambda>s. (len (inner (shared s)) \<le> max (capacity sh) (len (inner sh)) \<and>
    (bytes (inner (shared s)) \<le> max (max_bytes sh) (bytes (inner sh)) \<or> len (inner (shared s)) \<le> 1)) \<and>
    capacity (shared s) = capacity sh \<and> max_bytes (shared s) = max_bytes sh"
  have "?J s"
    using assms
  proof (rule reach_inv)
    fix s t assume st: "step S s t" and J: "?J s"
    show "?J t"
      using bounds_step [OF st, of sh "len (inner sh)" "bytes (inner sh)"] step_conf [OF st] J
      by (simp add: fixed_conf_def)
  qed simp
  then show ?thesis by blast
qed

theorem capacity_respected_witness:
  "\<exists>s. reach (MemStore :: (mem_store, unit) Store) single_consumer
     (boot (items_of (map_of (store demo_queue))) demo_queue) s \<and>
     guards s \<noteq> {#} \<and> len (inner (shared s)) \<le> 4"
proof -
  from demo_held obtain s where s: "reach (MemStore :: (mem_store, unit) Store) single_consumer
     (boot (items_of (map_of (store demo_queue))) demo_queue) s" "guards s = {#(0, [7])#}" by blast
  from capacity_respected [OF s(1)] s show ?thesis by (auto simp: demo_queue_def)
qed

text \<open>C3. Exact counters. Over a store whose failed commits change nothing, with one consumer
  thread and any number of producers: \<open>len\<close> is the number of items in the store, of claims that
  have not landed and of acks not yet booked, \<open>bytes\<close> their total size; with no operation in
  flight they are exactly the item count and the byte count of the store; and the item of every
  live guard is in the store with its value.\<close>

theorem counters_exact:
  assumes "atomic_store S sinv view" and "sinv (store sh)" and "wf_queue (view (store sh)) sh"
    and "reserved (inner sh) = {}"
    and "reach S single_consumer (boot (items_of (view (store sh))) sh) s"
  shows "len (inner (shared s)) = card (counted view s) \<and>
    bytes (inner (shared s)) = load (assigned s) (counted view s) \<and>
    (flight s = {#} \<longrightarrow> len (inner (shared s)) = card (dom (items_of (view (store (shared s))))) \<and>
       bytes (inner (shared s)) = weight length (items_of (view (store (shared s))))) \<and>
    (\<forall>(q, v) \<in># guards s. items_of (view (store (shared s))) q = Some v)"
proof -
  note r = atomic_store.reach_acct [OF assms(1,5,2-4)]
  let ?it = "items_of (view (store (shared s)))"
  have own: "assigned s q = Some v" if "?it q = Some v" for q v
    using pairsD(5) [OF r(3)] that by (simp add: items_of_def)
  have "load (assigned s) (dom ?it) = weight length ?it"
    unfolding load_def weight_def
  proof (rule sum.cong)
    fix x assume "x \<in> dom ?it"
    then obtain y where "?it x = Some y" by blast
    with own [OF this] show "length (the (assigned s x)) = length (the (?it x))" by simp
  qed simp
  moreover have "counted view s = dom ?it" if "flight s = {#}"
    using that by (simp add: counted_def puts_def)
  moreover have "?it q = Some v" if "(q, v) \<in># guards s" for q v
  proof -
    have "q \<in> dom ?it" using r(6) that by (force simp: acct_sets_def)
    then obtain u where "?it q = Some u" by blast
    with own [OF this] pairsD(2) [OF r(3) that] show ?thesis by simp
  qed
  ultimately show ?thesis
    using r(7) by (auto simp: acct_count_def)
qed

theorem counters_exact_witness:
  "\<exists>s. reach (MemStore :: (mem_store, unit) Store) single_consumer
     (boot (items_of (map_of (store demo_queue))) demo_queue) s \<and>
     items_of (map_of (store (shared s))) 0 = Some [7] \<and>
     len (inner (shared s)) = card (dom (items_of (map_of (store (shared s)))))"
proof -
  have hyps: "atomic_store (MemStore :: (mem_store, unit) Store) bt_ordered map_of"
    "bt_ordered (store demo_queue)" "wf_queue (map_of (store demo_queue)) demo_queue"
    "reserved (inner demo_queue) = {}"
    using mem.atomic_store_axioms demo_ordered demo_wf by (simp_all add: demo_queue_def)
  from demo_held obtain s where s: "reach (MemStore :: (mem_store, unit) Store) single_consumer
     (boot (items_of (map_of (store demo_queue))) demo_queue) s" "guards s = {#(0, [7])#}" "flight s = {#}"
    by blast
  from counters_exact [OF hyps s(1)] s show ?thesis by auto
qed

text \<open>C12. No underflow. Under the same conditions no critical section that decrements the counters
  panics: giving a slot back after a failed write and finishing an ack always succeed, so the
  lock is never poisoned by them.\<close>

theorem counters_never_underflow:
  assumes "atomic_store S sinv view" and "sinv (store sh)" and "wf_queue (view (store sh)) sh"
    and "reserved (inner sh) = {}"
    and "reach S single_consumer (boot (items_of (view (store sh))) sh) s"
  shows "(Failed q v \<in># flight s \<longrightarrow> give_back (inner (shared s)) (length v) \<noteq> None) \<and>
    (AckFin q v \<in># flight s \<longrightarrow> ack_finish (inner (shared s)) q (length v) \<noteq> None)"
proof -
  note r = atomic_store.reach_acct [OF assms(1,5,2-4)]
  note n = atomic_store.section_no_underflow [OF assms(1) r(2-4,6,7)]
  show ?thesis using n by blast
qed

lemma demo_booking:
  "\<exists>s. reach (MemStore :: (mem_store, unit) Store) single_consumer
     (boot (items_of (map_of (store demo_queue))) demo_queue) s \<and> AckFin 0 [7] \<in># flight s"
proof -
  let ?S = "MemStore :: (mem_store, unit) Store"
  from demo_held obtain s where s: "reach ?S single_consumer
     (boot (items_of (map_of (store demo_queue))) demo_queue) s" "guards s = {#(0, [7])#}" "flight s = {#}"
    by blast
  obtain sh where "commit_to ?S (shared s) [Delete (entry_key 0)] (ack_durable (shared s)) = (Inr (), sh)"
    by (simp add: commit_to_def mem_commit_def)
  from ack_deletes [OF s(2) this] have "step ?S s (s\<lparr>shared := sh, guards := {#},
      flight := {#AckFin 0 [7]#}, ack_tried := insert 0 (ack_tried s)\<rparr>)" (is "step _ _ ?t")
    by (simp add: s(3))
  moreover have "single_consumer ?t" by (simp add: single_consumer_def)
  ultimately have "reach ?S single_consumer (boot (items_of (map_of (store demo_queue))) demo_queue) ?t"
    by (rule reach_step [OF s(1)])
  then show ?thesis by (intro exI conjI, assumption) simp
qed

theorem counters_never_underflow_witness:
  "\<exists>s. reach (MemStore :: (mem_store, unit) Store) single_consumer
     (boot (items_of (map_of (store demo_queue))) demo_queue) s \<and>
     AckFin 0 [7] \<in># flight s \<and> ack_finish (inner (shared s)) 0 1 \<noteq> None"
proof -
  have hyps: "atomic_store (MemStore :: (mem_store, unit) Store) bt_ordered map_of"
    "bt_ordered (store demo_queue)" "wf_queue (map_of (store demo_queue)) demo_queue"
    "reserved (inner demo_queue) = {}"
    using mem.atomic_store_axioms demo_ordered demo_wf by (simp_all add: demo_queue_def)
  from demo_booking obtain s where s: "reach (MemStore :: (mem_store, unit) Store) single_consumer
     (boot (items_of (map_of (store demo_queue))) demo_queue) s" "AckFin 0 [7] \<in># flight s" by blast
  from counters_never_underflow [OF hyps s(1), of 0 "[7]"] s show ?thesis by auto
qed

end
