(* ===== verification/Traces.thy ===== *)
theory Traces imports Concurrency begin

text \<open>
  The limits of the accounting, as runs of the code. \<open>reserve\<close> looks an item up outside the
  lock and checks \<open>reserved\<close> afterwards (\<open>src/src/queue.rs\<close>, lines 383--407), so an ack of a
  guard on another thread that falls in between makes the check pass for an item that is gone.
\<close>

section \<open>An ack between the lookup and the check of a reserve\<close>

definition demo_gone :: mem_store where
  "demo_gone = [(META_KEY, [FORMAT_VERSION])]"

lemma demo_remove [simp]:
  "bt_remove (entry_key 0) demo_store = demo_gone" "bt_remove (entry_key 0) demo_gone = demo_gone"
  by (simp_all add: demo_store_def demo_gone_def)

text \<open>The states of the run: the store, the in-memory state, the threads and the guards.\<close>

definition race_shared :: "mem_store \<Rightarrow> Inner \<Rightarrow> mem_store Shared" where
  "race_shared st i = \<lparr>store = st, capacity = 4, max_bytes = 100, durable = True, ack_durable = True,
     group = False, inner = i, group_state = group_default\<rparr>"

lemma race_shared_simps [simp]:
  "store (race_shared st i) = st" "inner (race_shared st i) = i"
  "(race_shared st i)\<lparr>store := st'\<rparr> = race_shared st' i"
  "(race_shared st i)\<lparr>inner := i'\<rparr> = race_shared st i'"
  by (simp_all add: race_shared_def)

definition race ::
  "mem_store \<Rightarrow> Inner \<Rightarrow> pc multiset \<Rightarrow> (u64 \<times> val) multiset \<Rightarrow> u64 set \<Rightarrow> u64 list \<Rightarrow> bool \<Rightarrow> mem_store Sys" where
  "race st i F G A d p = \<lparr>shared = race_shared st i, flight = F, guards = G,
     poisoned = p, assigned = [0 \<mapsto> [7]], accepted = [0 \<mapsto> [7]], ack_tried = A, delivered = d\<rparr>"

definition inner0 :: Inner where
  "inner0 = \<lparr>tail = 1, head = 0, acked_above = {}, len = 1, bytes = 1, reserved = {}, closed = False\<rparr>"

definition inner1 :: "u64 set \<Rightarrow> Inner" where
  "inner1 R = \<lparr>tail = 1, head = 1, acked_above = {}, len = 0, bytes = 0, reserved = R, closed = False\<rparr>"

abbreviation MemS :: "(mem_store, unit) Store" where
  "MemS \<equiv> MemStore"

lemma race_reserve:
  "step MemS (race demo_store inner0 F G A d False)
     (race demo_store inner0 (add_mset (RSeek (entry_key 0)) F) G A d False)"
  using reserve_start [of "race demo_store inner0 F G A d False" MemS] by (simp add: race_def inner0_def)

lemma race_seek:
  "step MemS (race demo_store i (add_mset (RSeek (entry_key 0)) F) G A d p)
     (race demo_store i (add_mset (RCheck 0 [7]) F) G A d p)"
proof -
  have "bt_next (entry_key 0) demo_store = Some (entry_key 0, [7])"
    by (simp add: demo_store_def not_le)
  then show ?thesis
    using seek_finds [of "race demo_store i (add_mset (RSeek (entry_key 0)) F) G A d p" "entry_key 0" F MemS
      "entry_key 0" "[7]" demo_store 0]
    by (simp add: race_def mem_seek_def)
qed

lemma race_take:
  "0 \<notin> reserved i \<Longrightarrow>
   step MemS (race st i (add_mset (RCheck 0 [7]) F) G A d False)
     (race st (i\<lparr>reserved := insert 0 (reserved i)\<rparr>) F (add_mset (0, [7]) G) A (d @ [0]) False)"
  using check_takes [of "race st i (add_mset (RCheck 0 [7]) F) G A d False" 0 "[7]" F _ MemS]
  by (simp add: race_def)

lemma race_ack:
  "st \<in> {demo_store, demo_gone} \<Longrightarrow>
   step MemS (race st i F (add_mset (0, [7]) G) A d p)
     (race demo_gone i (add_mset (AckFin 0 [7]) F) G (insert 0 A) d p)"
  using ack_deletes [of "race st i F (add_mset (0, [7]) G) A d p" 0 "[7]" G MemS "()"
    "race_shared demo_gone i"]
  by (auto simp: race_def commit_to_def mem_commit_def)

lemma race_book:
  "step MemS (race st (inner0\<lparr>reserved := {0}\<rparr>) (add_mset (AckFin 0 [7]) F) G A d False)
     (race st (inner1 {}) (add_mset NotifyOne F) G A d False)"
proof -
  have "ack_finish (inner0\<lparr>reserved := {0}\<rparr>) 0 (length [7 :: byte]) = Some (inner1 {})"
    by (simp add: ack_finish_def inner0_def inner1_def checked_sub_def checked_inc_def jump.simps)
  then show ?thesis
    using ack_finishes [of "race st (inner0\<lparr>reserved := {0}\<rparr>) (add_mset (AckFin 0 [7]) F) G A d False"
      0 "[7]" F "inner1 {}" MemS]
    by (simp add: race_def)
qed

lemma race_ack':
  "st \<in> {demo_store, demo_gone} \<Longrightarrow>
   step MemS (race st i F {#(0, [7])#} A d p) (race demo_gone i (add_mset (AckFin 0 [7]) F) {#} (insert 0 A) d p)"
  by (rule race_ack)

lemma race_take':
  "step MemS (race st (inner1 {}) {#NotifyOne, RCheck 0 [7]#} G A d False)
     (race st (inner1 {0}) {#NotifyOne#} (add_mset (0, [7]) G) A (d @ [0]) False)"
  using race_take [of "inner1 {}" st "{#NotifyOne#}" G A d] by (simp add: inner1_def add_mset_commute)

lemma race_underflow:
  "step MemS (race st (inner1 R) (add_mset (AckFin 0 [7]) F) G A d False)
     (race st (inner1 R) F G A d True)"
  using section_panic [of "race st (inner1 R) (add_mset (AckFin 0 [7]) F) G A d False" "AckFin 0 [7]" F MemS]
  by (simp add: race_def ack_finish_def inner1_def checked_sub_def)

text \<open>C21. The limit of exact delivery. With the guard on one thread and the consumer on another, over
  the in-memory store: while the consumer is between the lookup and the check of \<open>reserve\<close>,
  the other thread acks the item; the check passes, the item is delivered a second time after
  its ack returned \<open>Ok\<close>, and acking the second guard underflows \<open>len\<close>: the thread panics with
  the lock held and the queue is unusable from then on.\<close>

theorem racing_ack_redelivers:
  "\<exists>s. reach MemS (\<lambda>_. True) (boot (items_of (map_of (store demo_queue))) demo_queue) s \<and>
    delivered s = [0, 0] \<and> 0 \<in> ack_tried s \<and> items_of (map_of (store (shared s))) 0 = None \<and> poisoned s"
proof -
  let ?t = "inner0\<lparr>reserved := {0}\<rparr>" and ?R = "reach MemS (\<lambda>_. True) (race demo_store inner0 {#} {#} {} [] False)"
  have start: "boot (items_of (map_of (store demo_queue))) demo_queue = race demo_store inner0 {#} {#} {} [] False"
    unfolding demo_sel demo_items by (simp add: boot_def race_def inner0_def demo_queue_def race_shared_def)
  have r: "?R a \<Longrightarrow> step MemS a b \<Longrightarrow> ?R b" for a b
    by (rule reach_step) simp_all
  have "?R (race demo_store ?t {#} {#(0, [7])#} {} [0] False)"
    using r [OF r [OF r [OF reach_start race_reserve] race_seek] race_take] by (simp add: inner0_def)
  note held = this
  have "?R (race demo_store ?t {#RSeek (entry_key 0)#} {#(0, [7])#} {} [0] False)"
    using r [OF held] reserve_start [of "race demo_store ?t {#} {#(0, [7])#} {} [0] False" MemS]
    by (simp add: race_def inner0_def)
  from r [OF r [OF this race_seek] race_ack' [of demo_store ?t "{#RCheck 0 [7]#}"]]
  have "?R (race demo_gone ?t {#AckFin 0 [7], RCheck 0 [7]#} {#} {0} [0] False)" by simp
  from r [OF r [OF this race_book] race_take'] 
  have "?R (race demo_gone (inner1 {0}) {#NotifyOne#} {#(0, [7])#} {0} [0, 0] False)" by simp
  from r [OF r [OF this race_ack'] race_underflow]
  have "?R (race demo_gone (inner1 {0}) {#NotifyOne#} {#} {0} [0, 0] True)" by simp
  then show ?thesis
    unfolding start by (intro exI conjI, assumption) (simp_all add: race_def demo_gone_def)
qed

end
