(* ===== verification/Wakeups.thy ===== *)
theory Wakeups imports Concurrency begin

text \<open>
  The condition variable \<open>room\<close> (\<open>src/src/queue.rs\<close>, lines 295--303, 338, 368, 457) and the cursor
  \<open>head\<close> in the long run. \<open>wakes_ok\<close>: with an item bound alone no producer sleeps while there is
  room for it, unless a notification is under way. \<open>burnt\<close>: a number whose push failed stops
  \<open>head\<close> for good, so \<open>acked_above\<close> keeps every later ack.
\<close>

section \<open>Wakeups\<close>

fun waking :: "pc \<Rightarrow> bool" where
  "waking NotifyOne = True"
| "waking (Woken v) = True"
| "waking _ = False"

definition wakes :: "'s Sys \<Rightarrow> nat" where
  "wakes s = size (filter_mset waking (flight s))"

definition wakes_ok :: "'s Sys \<Rightarrow> bool" where
  "wakes_ok s \<longleftrightarrow> poisoned s \<or> (\<forall>v. Parked v \<notin># flight s) \<or> NotifyAll \<in># flight s \<or>
     \<not> closed (inner (shared s)) \<and> capacity (shared s) \<le> len (inner (shared s)) + wakes s"

lemma wake_not_parked [simp]: "wake p \<noteq> Parked v" "Parked v \<noteq> wake p"
  by (cases p; simp)+

lemma Parked_in_wake: "Parked v \<in> wake ` A \<longleftrightarrow> False"
  by auto

lemma no_room_full:
  "enter sh n = NoRoom \<Longrightarrow> max_bytes sh = usize_max \<Longrightarrow> \<not> closed (inner sh) \<and> capacity sh \<le> len (inner sh)"
  by (auto simp: enter_def admits_def saturating_add_def split: if_splits option.splits)

lemma wakes_step:
  assumes "step S s t" and "wakes_ok s" and "max_bytes (shared s) = usize_max"
  shows "wakes_ok t"
  using assms(1)
proof cases
  case (push_park v)
  with no_room_full assms(3) show ?thesis by (auto simp: wakes_ok_def intro: trans_le_add1)
next
  case (wake_park v F)
  with no_room_full assms(3) show ?thesis by (auto simp: wakes_ok_def intro: trans_le_add1)
next
  case (ack_finishes q v F i)
  with ack_finish_fields(2,4) [OF ack_finishes(4)] assms(2) show ?thesis by (auto simp: wakes_ok_def wakes_def)
next
  case (put_ok q v F u sh)
  with assms(2) commit_to_sel(1,6) [OF put_ok(4)] show ?thesis by (simp add: wakes_ok_def wakes_def)
next
  case (put_err q v F e sh)
  with assms(2) commit_to_sel(1,6) [OF put_err(4)] show ?thesis by (simp add: wakes_ok_def wakes_def)
next
  case (retry_ok q v F u sh)
  with assms(2) commit_to_sel(1,6) [OF retry_ok(3)] show ?thesis by (simp add: wakes_ok_def wakes_def)
next
  case (retry_err q v F e sh)
  with assms(2) commit_to_sel(1,6) [OF retry_err(3)] show ?thesis by (simp add: wakes_ok_def wakes_def)
next
  case (group_flush q v b F r sh)
  with assms(2) commit_to_sel(1,6) [OF group_flush(3)] show ?thesis by (simp add: wakes_ok_def wakes_def)
next
  case (ack_deletes q v G u sh)
  with assms(2) commit_to_sel(1,6) [OF ack_deletes(3)] show ?thesis by (simp add: wakes_ok_def wakes_def)
next
  case (ack_fails q v G e sh)
  with assms(2) commit_to_sel(1,6) [OF ack_fails(3)] show ?thesis by (simp add: wakes_ok_def wakes_def)
next
  case (notify_all F)
  then show ?thesis by (auto simp: wakes_ok_def)
qed (use assms(2) in \<open>auto simp: wakes_ok_def wakes_def close_def release_inner_def\<close>)

lemma reach_wakes:
  assumes "reach S C (boot m sh) s" and "max_bytes sh = usize_max"
  shows "wakes_ok s" "max_bytes (shared s) = usize_max" "capacity (shared s) = capacity sh"
proof -
  let ?J = "\<lambda>s. wakes_ok s \<and> max_bytes (shared s) = usize_max \<and> capacity (shared s) = capacity sh"
  have "?J s"
    using assms(1)
  proof (rule reach_inv)
    fix s t assume st: "step S s t" and "?J s"
    with wakes_step [OF st] step_conf [OF st] show "?J t" by (simp add: fixed_conf_def)
  qed (simp add: wakes_ok_def boot_def assms(2))
  then show "wakes_ok s" "max_bytes (shared s) = usize_max" "capacity (shared s) = capacity sh" by blast+
qed


section \<open>A burnt number at the head\<close>

definition burnt :: "('s \<Rightarrow> key \<rightharpoonup> val) \<Rightarrow> u64 \<Rightarrow> 's Sys \<Rightarrow> bool" where
  "burnt view q s \<longleftrightarrow> head (inner (shared s)) = q \<and> q < tail (inner (shared s)) \<and> q \<notin> fst ` pairs view s"

lemma burnt_pairs:
  assumes "burnt view q s" and "pairs view t \<subseteq> pairs view s \<or>
    (\<exists>v. pairs view t \<subseteq> insert (tail (inner (shared s)), v) (pairs view s))"
  shows "q \<notin> fst ` pairs view t"
  using assms by (auto simp: burnt_def)

lemma ack_finish_above:
  "ack_finish i q n = Some j \<Longrightarrow> q \<noteq> head i \<Longrightarrow> head j = head i \<and> acked_above j = insert q (acked_above i)"
  by (auto simp: ack_finish_eq_Some Let_def)

text \<open>The cursors move only by a claim and by an ack of another number.\<close>

lemma burnt_cursors:
  assumes "step S s t" and "burnt view q s"
  shows "head (inner (shared t)) = q \<and> q < tail (inner (shared t)) \<and>
    acked_above (inner (shared s)) \<subseteq> acked_above (inner (shared t))"
proof -
  note b = assms(2) [unfolded burnt_def]
  show ?thesis
    using assms(1)
  proof cases
    case (push_claim v q' i)
    then have "tail (inner (shared s)) \<noteq> - 1" "i = (inner (shared s))\<lparr>tail := tail (inner (shared s)) + 1,
        len := len (inner (shared s)) + 1, bytes := bytes (inner (shared s)) + length v\<rparr>" by auto
    with b push_claim show ?thesis by (auto simp: less_inc_iff intro: less_imp_le)
  next
    case (wake_claim v F q' i)
    then have "tail (inner (shared s)) \<noteq> - 1" "i = (inner (shared s))\<lparr>tail := tail (inner (shared s)) + 1,
        len := len (inner (shared s)) + 1, bytes := bytes (inner (shared s)) + length v\<rparr>" by auto
    with b wake_claim show ?thesis by (auto simp: less_inc_iff intro: less_imp_le)
  next
    case (ack_finishes q' v F i)
    have "(q', v) \<in> pairs view s" using ack_finishes(3) by (auto simp: pairs_def)
    with b have "q' \<noteq> head (inner (shared s))" by force
    with ack_finish_above [OF ack_finishes(4)] ack_finish_fields(1) [OF ack_finishes(4)] b ack_finishes(1)
    show ?thesis by auto
  next
    case (put_ok q' v F u sh)
    with b commit_to_sel(1) [OF put_ok(4)] show ?thesis by simp
  next
    case (put_err q' v F e sh)
    with b commit_to_sel(1) [OF put_err(4)] show ?thesis by simp
  next
    case (retry_ok q' v F u sh)
    with b commit_to_sel(1) [OF retry_ok(3)] show ?thesis by simp
  next
    case (retry_err q' v F e sh)
    with b commit_to_sel(1) [OF retry_err(3)] show ?thesis by simp
  next
    case (group_flush q' v b' F r sh)
    with b commit_to_sel(1) [OF group_flush(3)] show ?thesis by simp
  next
    case (ack_deletes q' v G u sh)
    with b commit_to_sel(1) [OF ack_deletes(3)] show ?thesis by simp
  next
    case (ack_fails q' v G e sh)
    with b commit_to_sel(1) [OF ack_fails(3)] show ?thesis by simp
  qed (use b in \<open>auto simp: close_def close_inner_def release_inner_def\<close>)
qed

context store_contract begin

lemma reach_burnt:
  assumes "reach S C s0 s" and "sinv (store (shared s0))" and "burnt view q s0"
  shows "burnt view q s" "acked_above (inner (shared s0)) \<subseteq> acked_above (inner (shared s))" "sinv (store (shared s))"
proof -
  let ?J = "\<lambda>s. sinv (store (shared s)) \<and> burnt view q s \<and>
    acked_above (inner (shared s0)) \<subseteq> acked_above (inner (shared s))"
  have "?J s"
    using assms(1)
  proof (rule reach_inv)
    fix s t assume st: "step S s t" and J: "?J s"
    then have p: "sinv (store (shared t)) \<and> (pairs view t \<subseteq> pairs view s \<or>
        (\<exists>v. pairs view t \<subseteq> insert (tail (inner (shared s)), v) (pairs view s)))"
      using pairs_move [OF st] by blast
    with burnt_pairs [of view q s t] burnt_cursors [OF st, of view q] J show "?J t"
      unfolding burnt_def by blast
  qed (use assms in auto)
  then show "burnt view q s" "acked_above (inner (shared s0)) \<subseteq> acked_above (inner (shared s))"
    "sinv (store (shared s))" by blast+
qed

end

context atomic_store begin

lemma failed_push_head:
  assumes "sinv (store sh)" and "wf_queue (view (store sh)) sh"
    and "try_push S sh v = Some (Err (Try_Store e), sh1)"
  shows "head (inner sh1) = head (inner sh) \<and> tail (inner sh1) = tail (inner sh) + 1 \<and> tail (inner sh) \<noteq> - 1 \<and>
    sinv (store sh1) \<and> items_of (view (store sh1)) = items_of (view (store sh))"
proof -
  obtain q i where en: "enter sh (length v) = Admitted q i"
    using assms(3) by (cases "enter sh (length v)") (auto simp: try_push_def)
  then have i: "tail (inner sh) \<noteq> - 1" "head i = head (inner sh)" by auto
  obtain r sh2 where w: "(if group (sh\<lparr>inner := i\<rparr>) then group_commit S (sh\<lparr>inner := i\<rparr>) q v
      else Some (commit_to S (sh\<lparr>inner := i\<rparr>) [Put (entry_key q) v] (durable (sh\<lparr>inner := i\<rparr>)))) = Some (r, sh2)"
    "sh2 = sh\<lparr>inner := i\<rparr>\<lparr>store := store sh2\<rparr>"
  proof -
    have "sinv (store (sh\<lparr>inner := i\<rparr>))" "group_state (sh\<lparr>inner := i\<rparr>) = group_default"
      using assms(1) wf_queueD(8) [OF assms(2)] by simp_all
    then show thesis by (rule entry_write) (rule that)
  qed
  have "inner sh2 = i" by (subst w(2)) simp
  with assms(3) en w(1) i have "head (inner sh1) = head (inner sh)"
    by (auto simp: try_push_def write_entry_def simp del: enter_eq_Admitted split: sum.splits option.splits)
  moreover have "sinv (store sh1) \<and>
      abs_queue (view (store sh1)) sh1 = a_burn (abs_queue (view (store sh)) sh)"
    using try_push_abs [OF assms(1,2), of v] assms(3) by auto
  ultimately show ?thesis using i(1) by (auto simp: abs_queue_def a_burn_def)
qed

end

section \<open>Properties\<close>

text \<open>C9. No lost wakeup. With no byte bound, in every reachable state of every interleaving (over any
  store, unless a counter overflowed): while a producer sleeps on \<open>room\<close>, either the
  notification of \<open>close\<close> is on its way, or the queue is open and every free slot has a wakeup
  under way (a \<open>notify_one\<close> not yet sent or a producer woken and not yet run). So once none is
  under way, a sleeping producer means a full, open queue.\<close>

theorem no_lost_wakeup:
  assumes "max_bytes sh = usize_max" and "reach S C (boot m sh) s" and "\<not> poisoned s"
    and "Parked v \<in># flight s"
  shows "NotifyAll \<in># flight s \<or>
    \<not> closed (inner (shared s)) \<and> capacity sh \<le> len (inner (shared s)) + wakes s"
  using reach_wakes [OF assms(2,1)] assms(3,4) by (auto simp: wakes_ok_def)

definition demo_narrow :: "mem_store Shared" where
  "demo_narrow = demo_queue\<lparr>capacity := 1, max_bytes := usize_max\<rparr>"

theorem no_lost_wakeup_witness:
  "\<exists>s. reach (MemStore :: (mem_store, unit) Store) single_consumer (boot Map.empty demo_narrow) s \<and>
    Parked [8] \<in># flight s \<and> len (inner (shared s)) = 1 \<and> 1 \<le> len (inner (shared s)) + wakes s"
proof -
  let ?s = "(boot Map.empty demo_narrow)\<lparr>flight := {#Parked [8]#}\<rparr>"
  have "enter demo_narrow (length [8 :: byte]) = NoRoom"
    by (simp add: demo_narrow_def demo_queue_def enter_def admits_def)
  then have "step (MemStore :: (mem_store, unit) Store) (boot Map.empty demo_narrow) ?s"
    using push_park [of "boot Map.empty demo_narrow" "[8]"] by (simp add: boot_def)
  from reach_step [OF reach_start this, of single_consumer]
  have r: "reach (MemStore :: (mem_store, unit) Store) single_consumer (boot Map.empty demo_narrow) ?s"
    by (simp add: single_consumer_def)
  have "max_bytes demo_narrow = usize_max" "\<not> poisoned ?s" "Parked [8] \<in># flight ?s"
    by (simp_all add: demo_narrow_def boot_def)
  from no_lost_wakeup [OF this(1) r this(2,3)] r show ?thesis
    by (intro exI [of _ ?s]) (simp add: boot_def demo_narrow_def demo_queue_def)
qed

text \<open>C33. A limit of \<open>head\<close>. If a push into a drained queue fails in the store, its number is burnt
  and stays the \<open>head\<close>, whatever happens next, even when the store recovers: \<open>head\<close> never again
  is the number of an item, and no number is ever taken out of \<open>acked_above\<close>: whatever the set holds in
  a state \<open>u\<close> of the run, it holds in every state \<open>s\<close> after \<open>u\<close>.\<close>

theorem burnt_number_stops_head:
  assumes "atomic_store S sinv view" and "sinv (store sh)" and "wf_queue (view (store sh)) sh"
    and "head (inner sh) = tail (inner sh)" and "try_push S sh v = Some (Err (Try_Store e), sh1)"
    and "sinv st" and "view st = view (store sh1)"
    and "reach S C (boot (items_of (view st)) (sh1\<lparr>store := st\<rparr>)) u" and "reach S C u s"
  shows "head (inner (shared s)) = tail (inner sh) \<and>
    items_of (view (store (shared s))) (head (inner (shared s))) = None \<and>
    acked_above (inner (shared u)) \<subseteq> acked_above (inner (shared s))"
proof -
  have ct: "store_contract S sinv view" using assms(1) by (simp add: atomic_store_def)
  note f = atomic_store.failed_push_head [OF assms(1-3,5)]
  let ?b = "boot (items_of (view st)) (sh1\<lparr>store := st\<rparr>)"
  have none: "items_of (view st) (tail (inner sh)) = None"
    using f wf_queue_fresh [OF assms(3)] assms(7) by simp
  have "wf_queue (view (store sh1)) sh1"
    using atomic_store.try_push_abs [OF assms(1-3), of v] assms(5) by auto
  then have "group_state sh1 = group_default" by (rule wf_queueD(8))
  then have "pairs view ?b = Map.graph (items_of (view st))"
    by (simp add: pairs_def boot_def group_default_def)
  with none have "tail (inner sh) \<notin> fst ` pairs view ?b" by (auto simp: image_iff graph_def)
  moreover have "tail (inner sh) < tail (inner sh1)" using f by (simp add: less_inc_iff)
  ultimately have "burnt view (tail (inner sh)) ?b" using f assms(4) by (simp add: burnt_def boot_def)
  from store_contract.reach_burnt [OF ct assms(8) _ this] assms(6)
  have "burnt view (tail (inner sh)) u" "sinv (store (shared u))" by simp_all
  note later = store_contract.reach_burnt [OF ct assms(9) this(2,1)]
  moreover from later(1) have "(tail (inner sh), x) \<notin> pairs view s" for x by (force simp: burnt_def)
  then have "items_of (view (store (shared s))) (tail (inner sh)) \<noteq> Some x" for x
    by (simp add: pairs_def)
  ultimately show ?thesis by (auto simp: burnt_def)
qed

text \<open>A drained queue on a disk that refuses the first push and recovers for the second.\<close>

definition demo_disk_at :: "mem_store \<Rightarrow> usize option \<Rightarrow> usize \<Rightarrow> shared_mem" where
  "demo_disk_at m f c = \<lparr>live = m, synced = m, commits = c, fail_at = f\<rparr>"

definition demo_stuck :: "mem_store \<Rightarrow> usize option \<Rightarrow> usize \<Rightarrow> u64 \<Rightarrow> usize \<Rightarrow> shared_mem Shared" where
  "demo_stuck m f c t n = \<lparr>store = demo_disk_at m f c, capacity = 4,
     max_bytes = 100, durable = True, ack_durable = True, group = False,
     inner = \<lparr>tail = t, head = 0, acked_above = {}, len = n, bytes = n, reserved = {}, closed = False\<rparr>,
     group_state = group_default\<rparr>"

abbreviation demo_base :: mem_store where
  "demo_base \<equiv> [(META_KEY, [FORMAT_VERSION])]"

lemma demo_stuck_fails:
  "try_push SharedMem (demo_stuck demo_base (Some 0) 0 0 0) [9] =
     Some (Err (Try_Store FaultError), demo_stuck demo_base (Some 0) 1 1 0)"
  by (simp add: try_push_def enter_def admits_def claim_def write_entry_def commit_to_def sm_commit_def
      demo_stuck_def demo_disk_at_def checked_inc_def checked_add_def saturating_add_def Let_def give_back_def
      checked_sub_def)

lemma demo_stuck_reach:
  "\<exists>s. reach SharedMem (\<lambda>_. True) (boot Map.empty (demo_stuck demo_base None 1 1 0)) s \<and>
    items_of (sm_view (store (shared s))) = [1 \<mapsto> [8]] \<and> accepted s = [1 \<mapsto> [8]]"
proof -
  let ?s = "boot Map.empty (demo_stuck demo_base None 1 1 0)"
  have en: "enter (shared ?s) (length [8 :: byte]) = Admitted 1 ((inner (shared ?s))\<lparr>tail := 2, len := 1, bytes := 1\<rparr>)"
    by (simp add: boot_def demo_stuck_def enter_def admits_def claim_def checked_inc_def checked_add_def saturating_add_def)
  have c: "commit_to SharedMem ((shared ?s)\<lparr>inner := (inner (shared ?s))\<lparr>tail := 2, len := 1, bytes := 1\<rparr>\<rparr>)
      [Put (entry_key 1) [8]] (durable (shared ?s)) =
    (Inr (), demo_stuck (bt_insert (entry_key 1) [8] demo_base) None 2 2 1)"
    by (simp add: boot_def demo_stuck_def demo_disk_at_def commit_to_def sm_commit_def Let_def)
  have "\<not> poisoned ?s" "\<not> group (shared ?s)" by (simp_all add: boot_def demo_stuck_def)
  from reach_push [OF reach_start this en c] show ?thesis
    by (intro exI conjI, assumption) (simp_all add: boot_def demo_stuck_def demo_disk_at_def)
qed

theorem burnt_number_stops_head_witness:
  "\<exists>s. reach SharedMem (\<lambda>_. True) (boot Map.empty (demo_stuck demo_base None 1 1 0)) s \<and>
    items_of (sm_view (store (shared s))) = [1 \<mapsto> [8]] \<and> head (inner (shared s)) = 0"
proof -
  let ?sh = "demo_stuck demo_base (Some 0) 0 0 0" and ?st = "demo_disk_at demo_base None 1"
  obtain s where s: "reach SharedMem (\<lambda>_. True) (boot Map.empty (demo_stuck demo_base None 1 1 0)) s"
    "items_of (sm_view (store (shared s))) = [1 \<mapsto> [8]]" using demo_stuck_reach by blast
  have keys: "only_queue_keys (map_of demo_base)" "items_of (map_of demo_base) = Map.empty" by simp_all
  have hyps: "sm_inv (store ?sh)" "wf_queue (sm_view (store ?sh)) ?sh" "head (inner ?sh) = tail (inner ?sh)"
    "sm_inv ?st" "sm_view ?st = sm_view (store (demo_stuck demo_base (Some 0) 1 1 0))"
    using keys by (simp_all add: demo_stuck_def demo_disk_at_def sm_inv_def wf_queue_def Let_def)
  have eq: "(demo_stuck demo_base (Some 0) 1 1 0)\<lparr>store := ?st\<rparr> = demo_stuck demo_base None 1 1 0"
    "items_of (sm_view ?st) = Map.empty" "tail (inner ?sh) = 0"
    using keys by (simp_all add: demo_stuck_def demo_disk_at_def)
  from burnt_number_stops_head [OF sm.atomic_store_axioms hyps(1-3) demo_stuck_fails hyps(4,5) reach_start] s eq show ?thesis
    by auto
qed

section \<open>A wakeup spent on the wrong producer\<close>

definition strand_store :: "bool \<Rightarrow> mem_store" where
  "strand_store b = (META_KEY, [FORMAT_VERSION]) # (if b then [(entry_key 0, [7])] else []) @ [(entry_key 1, [7])]"

definition strand_shared :: "mem_store \<Rightarrow> Inner \<Rightarrow> mem_store Shared" where
  "strand_shared st i = \<lparr>store = st, capacity = 4, max_bytes = 2, durable = True, ack_durable = True,
     group = False, inner = i, group_state = group_default\<rparr>"

definition strand_inner :: "u64 \<Rightarrow> nat \<Rightarrow> u64 set \<Rightarrow> Inner" where
  "strand_inner h n R = \<lparr>tail = 2, head = h, acked_above = {}, len = n, bytes = n, reserved = R, closed = False\<rparr>"

definition strand ::
  "mem_store \<Rightarrow> Inner \<Rightarrow> pc multiset \<Rightarrow> (u64 \<times> val) multiset \<Rightarrow> u64 set \<Rightarrow> u64 list \<Rightarrow> mem_store Sys" where
  "strand st i F G A d = \<lparr>shared = strand_shared st i, flight = F, guards = G, poisoned = False,
     assigned = [0 \<mapsto> [7], 1 \<mapsto> [7]], accepted = [0 \<mapsto> [7], 1 \<mapsto> [7]], ack_tried = A, delivered = d\<rparr>"

lemma strand_simps [simp]:
  "store (strand_shared st i) = st" "inner (strand_shared st i) = i"
  "(strand_shared st i)\<lparr>store := st'\<rparr> = strand_shared st' i"
  "(strand_shared st i)\<lparr>inner := i'\<rparr> = strand_shared st i'"
  by (simp_all add: strand_shared_def)

abbreviation MemW :: "(mem_store, unit) Store" where
  "MemW \<equiv> MemStore"

abbreviation strand_reach :: "mem_store Sys \<Rightarrow> bool" where
  "strand_reach \<equiv> reach MemW single_consumer (strand (strand_store True) (strand_inner 0 2 {}) {#} {#} {} [])"

text \<open>An item of one byte is taken; producers of two bytes and of one byte go to sleep; the item is
  acked; the wakeup goes to the first producer, whose value still does not fit.\<close>

lemma strand_enter:
  "enter (strand_shared st (strand_inner h 2 R)) (Suc n) = NoRoom"
  "enter (strand_shared st (strand_inner h 1 R)) 2 = NoRoom"
  "enter (strand_shared st (strand_inner h 1 R)) 1 \<noteq> NoRoom"
  by (simp_all add: enter_def admits_def saturating_add_def strand_shared_def strand_inner_def split: option.split)

lemma strand_taken:
  "strand_reach (strand (strand_store True) (strand_inner 0 2 {0}) {#} {#(0, [7])#} {} [0])"
proof -
  let ?i = "strand_inner 0 2 {}" and ?st = "strand_store True"
  have "bt_next (entry_key 0) ?st = Some (entry_key 0, [7])"
    by (simp add: strand_store_def not_le)
  then have 1: "step MemW (strand ?st ?i {#} {#} {} []) (strand ?st ?i {#RSeek (entry_key 0)#} {#} {} [])"
    "step MemW (strand ?st ?i {#RSeek (entry_key 0)#} {#} {} []) (strand ?st ?i {#RCheck 0 [7]#} {#} {} [])"
    using reserve_start [of "strand ?st ?i {#} {#} {} []" MemW]
      seek_finds [of "strand ?st ?i {#RSeek (entry_key 0)#} {#} {} []" "entry_key 0" "{#}" MemW "entry_key 0" "[7]" ?st 0]
    by (simp_all add: strand_def strand_inner_def mem_seek_def)
  have 2: "step MemW (strand ?st ?i {#RCheck 0 [7]#} {#} {} []) (strand ?st (strand_inner 0 2 {0}) {#} {#(0, [7])#} {} [0])"
    using check_takes [of "strand ?st ?i {#RCheck 0 [7]#} {#} {} []" 0 "[7]" "{#}" "strand_inner 0 2 {0}" MemW]
    by (simp add: strand_def strand_inner_def reserve_check_def)
  have r: "strand_reach a \<Longrightarrow> step MemW a b \<Longrightarrow> single_consumer b \<Longrightarrow> strand_reach b" for a b
    by (rule reach_step)
  have c: "single_consumer (strand st i F G A d) \<longleftrightarrow> size (filter_mset consumer_side F) \<le> 1" for st i F G A d
    by (simp add: single_consumer_def strand_def)
  show ?thesis
    by (rule r [OF r [OF r [OF reach_start 1(1)] 1(2)] 2]) (simp_all add: c)
qed

lemma strand_asleep:
  "strand_reach (strand (strand_store True) (strand_inner 0 2 {0}) {#Parked [9], Parked [8, 8]#} {#(0, [7])#} {} [0])"
proof -
  let ?s = "strand (strand_store True) (strand_inner 0 2 {0})"
  have p: "step MemW (?s F G A d) (?s (add_mset (Parked (v # vs)) F) G A d)" for F G A d v vs
    using push_park [of "?s F G A d" "v # vs" MemW] strand_enter(1) by (simp add: strand_def)
  have c: "single_consumer (?s F G A d) \<longleftrightarrow> size (filter_mset consumer_side F) \<le> 1" for F G A d
    by (simp add: single_consumer_def strand_def)
  from reach_step [OF reach_step [OF strand_taken p [of _ _ _ _ 8 "[8]"]] p [of _ _ _ _ 9 "[]"]]
  show ?thesis by (simp add: c)
qed

lemma wake_sleeps:
  "step MemW (strand st (strand_inner 1 1 {}) {#Woken [8, 8], Parked [9]#} {#} {0} [0])
    (strand st (strand_inner 1 1 {}) {#Parked [8, 8], Parked [9]#} {#} {0} [0])"
proof -
  have "enter (strand_shared st (strand_inner 1 1 {})) (length [8 :: byte, 8]) = NoRoom"
    by (simp add: enter_def admits_def saturating_add_def strand_shared_def strand_inner_def)
  then show ?thesis
    using wake_park [of "strand st (strand_inner 1 1 {}) {#Woken [8, 8], Parked [9]#} {#} {0} [0]" "[8, 8]" "{#Parked [9]#}" MemW]
    unfolding strand_def by simp
qed

text \<open>C34. A limit of \<open>max_bytes\<close>. With a byte bound a wakeup can be spent on a producer whose value does
  not fit: one consumer acks an item, the single notification wakes a producer of two bytes, which
  goes back to sleep, and a producer of one byte, which would be admitted, keeps sleeping although
  nothing more is under way.\<close>

theorem byte_bound_strands_producer:
  "\<exists>s. strand_reach s \<and> Parked [9] \<in># flight s \<and> wakes s = 0 \<and> NotifyAll \<notin># flight s \<and>
    guards s = {#} \<and> (\<exists>q i. enter (shared s) (length [9 :: byte]) = Admitted q i)"
proof -
  let ?F = "{#Parked [9], Parked [8, 8]#}" and ?i = "strand_inner 1 1 {}"
  let ?s = "\<lambda>F. strand (strand_store False) ?i F {#} {0} [0]"
  have c: "single_consumer (strand st i F G A d) \<longleftrightarrow> size (filter_mset consumer_side F) \<le> 1" for st i F G A d
    by (simp add: single_consumer_def strand_def)
  have "bt_remove (entry_key 0) (strand_store True) = strand_store False"
    by (simp add: strand_store_def)
  then have 1: "step MemW (strand (strand_store True) (strand_inner 0 2 {0}) ?F {#(0, [7])#} {} [0])
      (strand (strand_store False) (strand_inner 0 2 {0}) (add_mset (AckFin 0 [7]) ?F) {#} {0} [0])"
    using ack_deletes [of "strand (strand_store True) (strand_inner 0 2 {0}) ?F {#(0, [7])#} {} [0]" 0 "[7]" "{#}" MemW "()"
      "strand_shared (strand_store False) (strand_inner 0 2 {0})"]
    by (simp add: strand_def commit_to_def mem_commit_def)
  have "ack_finish (strand_inner 0 2 {0}) 0 (length [7 :: byte]) = Some ?i"
    by (simp add: ack_finish_def strand_inner_def checked_sub_def checked_inc_def jump.simps)
  then have 2: "step MemW (strand (strand_store False) (strand_inner 0 2 {0}) (add_mset (AckFin 0 [7]) ?F) {#} {0} [0])
      (?s (add_mset NotifyOne ?F))"
    using ack_finishes [of "strand (strand_store False) (strand_inner 0 2 {0}) (add_mset (AckFin 0 [7]) ?F) {#} {0} [0]"
      0 "[7]" ?F ?i MemW]
    by (simp add: strand_def)
  have 3: "step MemW (?s (add_mset NotifyOne ?F)) (?s {#Woken [8, 8], Parked [9]#})"
    using notify_one_wakes [of "?s (add_mset NotifyOne ?F)" "[8, 8]" "{#Parked [9]#}" MemW]
    by (simp add: strand_def add_mset_commute)
  have 4: "step MemW (?s {#Woken [8, 8], Parked [9]#}) (?s {#Parked [8, 8], Parked [9]#})"
    by (rule wake_sleeps)
  have "strand_reach (?s {#Parked [8, 8], Parked [9]#})"
    by (rule reach_step [OF reach_step [OF reach_step [OF reach_step [OF strand_asleep 1] 2] 3] 4]) (simp_all add: c)
  moreover have "enter (strand_shared (strand_store False) ?i) (length [9 :: byte]) =
      Admitted 2 (?i\<lparr>tail := 3, len := 2, bytes := 2\<rparr>)"
    by (simp add: enter_def admits_def saturating_add_def strand_shared_def strand_inner_def claim_def
        checked_inc_def checked_add_def)
  ultimately show ?thesis
    by (intro exI [of _ "?s {#Parked [8, 8], Parked [9]#}"]) (auto simp: strand_def wakes_def)
qed

end
