(* ===== verification/Closing.thy ===== *)
theory Closing imports Accounting begin





section \<open>Property\<close>




end
