(* ===== verification/Sessions.thy ===== *)
theory Sessions imports Reopen begin

text \<open>
  Whole sessions of one producer and one consumer (\<open>src/src/queue.rs\<close>): pushing a list of values
  and then draining the queue gives back, in order, what was there followed by what was pushed,
  and leaves nothing. \<open>push_all\<close> and \<open>drain\<close> are client programs over the operations of \<open>Queue\<close>.
\<close>

fun push_all :: "('s, 'e) Store \<Rightarrow> 's Shared \<Rightarrow> val list \<Rightarrow> 's Shared option" where
  "push_all S sh [] = Some sh"
| "push_all S sh (v # vs) =
     (case push S sh v of Some (Ok _, sh1) \<Rightarrow> push_all S sh1 vs | _ \<Rightarrow> None)"

fun drain :: "('s, 'e) Store \<Rightarrow> 's Shared \<Rightarrow> nat \<Rightarrow> (val list \<times> 's Shared) option" where
  "drain S sh 0 = Some ([], sh)"
| "drain S sh (Suc n) =
     (case reserve S sh of
        Some (Ok (Some r), sh1) \<Rightarrow>
          (case ack S sh1 r of
             (Ok _, sh2) \<Rightarrow> map_option (\<lambda>(vs, sh3). (res_value r # vs, sh3)) (drain S sh2 n)
           | _ \<Rightarrow> None)
      | _ \<Rightarrow> None)"

text \<open>The values of an abstract queue in the order of their numbers.\<close>

definition a_list :: "AQueue \<Rightarrow> val list" where
  "a_list q = map (\<lambda>s. the (a_items q s)) (sorted_list_of_set (dom (a_items q)))"

lemma sorted_list_snoc:
  fixes A :: "u64 set"
  assumes "\<forall>x \<in> A. x < y"
  shows "sorted_list_of_set (insert y A) = sorted_list_of_set A @ [y]"
proof -
  have "A - {y} = A" using assms by auto
  moreover have "insort y (sorted_list_of_set A) = sorted_list_of_set A @ [y]"
    using assms by (intro sorted_insort_is_snoc) (auto simp: less_imp_le)
  ultimately show ?thesis by simp
qed

lemma sorted_list_Min:
  fixes A :: "u64 set"
  assumes "A \<noteq> {}"
  shows "sorted_list_of_set A = Min A # sorted_list_of_set (A - {Min A})"
  using assms by (simp add: sorted_list_of_set_nonempty)

lemma a_list_push:
  assumes "\<forall>x \<in> dom (a_items q). x < a_next q"
  shows "a_list (a_push q v) = a_list q @ [v]"
proof -
  have d: "dom (a_items (a_push q v)) = insert (a_next q) (dom (a_items q))"
    by (simp add: a_push_def a_burn_def)
  have "map (\<lambda>s. the (a_items (a_push q v) s)) (sorted_list_of_set (dom (a_items q))) = a_list q"
    using assms by (auto simp: a_list_def a_push_def a_burn_def)
  then show ?thesis
    unfolding a_list_def [of "a_push q v"] d sorted_list_snoc [OF assms] by (simp add: a_push_def)
qed

lemma a_list_take:
  assumes "a_reserve q = Some (s, v, q1)" and "a_taken q = {}"
  shows "a_list q = v # a_list (a_ack q1 s)" "a_taken (a_ack q1 s) = {}"
    "dom (a_items (a_ack q1 s)) = dom (a_items q) - {s}" "s \<in> dom (a_items q)"
proof -
  have r: "dom (a_items q) \<noteq> {}" "s = Min (dom (a_items q))" "v = the (a_items q s)" "q1 = q\<lparr>a_taken := {s}\<rparr>"
    using assms by (auto simp: a_reserve_def a_ready_def Let_def split: if_splits)
  then show s: "s \<in> dom (a_items q)" by (simp add: Min_in)
  show d: "dom (a_items (a_ack q1 s)) = dom (a_items q) - {s}" "a_taken (a_ack q1 s) = {}"
    by (auto simp: a_ack_def a_nack_def r(4))
  have "map (\<lambda>x. the (a_items (a_ack q1 s) x)) (sorted_list_of_set (dom (a_items q) - {s})) =
      map (\<lambda>x. the (a_items q x)) (sorted_list_of_set (dom (a_items q) - {s}))"
    by (auto simp: a_ack_def a_nack_def r(4))
  then show "a_list q = v # a_list (a_ack q1 s)"
    using sorted_list_Min [OF r(1)] by (simp add: a_list_def d r(3) flip: r(2))
qed

context atomic_store begin

lemma push_with_room:
  assumes "sinv (store sh)" and "wf_queue (view (store sh)) sh" and "store_errors S = {}"
    and "\<not> closed (inner sh)" and "len (inner sh) < capacity sh" and "capacity sh \<le> usize_max"
    and "bytes (inner sh) + length v \<le> max_bytes sh" and "max_bytes sh \<le> usize_max" and "tail (inner sh) \<noteq> - 1"
  obtains sh1 where "push S sh v = Some (Ok (), sh1)" "sinv (store sh1)" "wf_queue (view (store sh1)) sh1"
    "abs_queue (view (store sh1)) sh1 = a_push (abs_queue (view (store sh)) sh) v"
    "capacity sh1 = capacity sh" "max_bytes sh1 = max_bytes sh"
proof -
  have ad: "admits sh (len (inner sh)) (bytes (inner sh)) (length v)"
    using assms(5-8) by (simp add: admits_def saturating_add_def)
  define i where "i = (inner sh)\<lparr>tail := tail (inner sh) + 1, len := len (inner sh) + 1,
    bytes := bytes (inner sh) + length v\<rparr>"
  have cl: "claim (inner sh) (length v) = Some (tail (inner sh), i)"
    using assms(5-9) by (simp add: i_def)
  obtain res sh1 where w: "write_entry S (sh\<lparr>inner := i\<rparr>) (tail (inner sh)) v = Some (res, sh1)" "sinv (store sh1)"
    "wf_queue (view (store sh1)) sh1" "res \<noteq> Panic"
    "res = Ok () \<longrightarrow> abs_queue (view (store sh1)) sh1 = a_push (abs_queue (view (store sh)) sh) v"
    "\<forall>e. res = Err e \<longrightarrow> (\<exists>st ops d. fst (commit S st ops d) = Inl e)"
    "capacity sh1 = capacity sh" "max_bytes sh1 = max_bytes sh"
    by (rule write_refines [OF assms(1,2) cl], rule that) (assumption | blast)+
  have "res = Ok ()"
    using w(4,6) assms(3) by (cases res) (auto simp: store_errors_def)
  moreover have en: "enter sh (length v) = Admitted (tail (inner sh)) i"
    unfolding enter_def cl using assms(4) ad by simp
  moreover have "push S sh v = map_option (\<lambda>(r, sh1). (map_err Push_Store r, sh1))
      (write_entry S (sh\<lparr>inner := i\<rparr>) (tail (inner sh)) v)"
    unfolding push_def en by simp
  ultimately show thesis
    using w by (intro that [of sh1]) simp_all
qed

lemma push_all_abs:
  assumes "sinv (store sh)" and "wf_queue (view (store sh)) sh" and "store_errors S = {}"
    and "\<not> closed (inner sh)" and "len (inner sh) + length vs \<le> capacity sh" and "capacity sh \<le> usize_max"
    and "bytes (inner sh) + sum_list (map length vs) \<le> max_bytes sh" and "max_bytes sh \<le> usize_max"
    and "unat (tail (inner sh)) + length vs < 2 ^ 64"
  shows "\<exists>sh1. push_all S sh vs = Some sh1 \<and> sinv (store sh1) \<and> wf_queue (view (store sh1)) sh1 \<and>
    a_list (abs_queue (view (store sh1)) sh1) = a_list (abs_queue (view (store sh)) sh) @ vs \<and>
    a_taken (abs_queue (view (store sh1)) sh1) = a_taken (abs_queue (view (store sh)) sh) \<and>
    len (inner sh1) = len (inner sh) + length vs"
  using assms
proof (induction vs arbitrary: sh)
  case (Cons v vs)
  let ?q = "abs_queue (view (store sh)) sh"
  have "tail (inner sh) \<noteq> - 1" using Cons.prems(9) by (auto simp: unsigned_minus_1_eq_mask mask_eq_exp_minus_1)
  then obtain sh1 where p: "push S sh v = Some (Ok (), sh1)" "sinv (store sh1)" "wf_queue (view (store sh1)) sh1"
    "abs_queue (view (store sh1)) sh1 = a_push ?q v" "capacity sh1 = capacity sh" "max_bytes sh1 = max_bytes sh"
    using push_with_room [of sh v] Cons.prems by auto
  have below: "\<forall>x \<in> dom (a_items ?q). x < a_next ?q"
    using wf_queueD(4) [OF Cons.prems(2)] by (auto simp: abs_queue_def)
  have new: "items_of (view (store sh1)) = (items_of (view (store sh)))(tail (inner sh) \<mapsto> v)"
    "reserved (inner sh1) = reserved (inner sh)" "tail (inner sh1) = tail (inner sh) + 1" "closed (inner sh1) = closed (inner sh)"
    using p(4) by (simp_all add: abs_queue_def a_push_def a_burn_def)
  have out: "tail (inner sh) \<notin> dom (items_of (view (store sh)))" using wf_queue_fresh [OF Cons.prems(2)] by auto
  have "len (inner sh1) = len (inner sh) + 1" "bytes (inner sh1) = bytes (inner sh) + length v"
    using wf_queueD(6,7) [OF p(3)] wf_queueD(6,7) [OF Cons.prems(2)] weight_fresh [OF out, of length v] out
    by (simp_all add: new(1))
  moreover from this obtain sh2 where "push_all S sh1 vs = Some sh2" "sinv (store sh2)" "wf_queue (view (store sh2)) sh2"
    "a_list (abs_queue (view (store sh2)) sh2) = a_list (abs_queue (view (store sh1)) sh1) @ vs"
    "a_taken (abs_queue (view (store sh2)) sh2) = a_taken (abs_queue (view (store sh1)) sh1)"
    "len (inner sh2) = len (inner sh1) + length vs"
    using Cons.IH [OF p(2,3)] Cons.prems p(5,6) new(3,4) unat_inc [OF \<open>tail (inner sh) \<noteq> - 1\<close>] by auto
  ultimately show ?case
    using p(1,4) a_list_push [OF below, of v] by (simp add: a_push_def a_burn_def)
qed simp

lemma take_one:
  assumes "sinv (store sh)" and "wf_queue (view (store sh)) sh" and "store_errors S = {}"
    and "reserved (inner sh) = {}" and "dom (items_of (view (store sh))) \<noteq> {}"
  obtains r sh1 sh2 where "reserve S sh = Some (Ok (Some r), sh1)" "ack S sh1 r = (Ok (), sh2)"
    "sinv (store sh2)" "wf_queue (view (store sh2)) sh2" "reserved (inner sh2) = {}"
    "a_list (abs_queue (view (store sh)) sh) = res_value r # a_list (abs_queue (view (store sh2)) sh2)"
    "card (dom (items_of (view (store sh)))) = Suc (card (dom (items_of (view (store sh2)))))"
    "a_reserve (abs_queue (view (store sh)) sh) = Some (res_seq r, res_value r, abs_queue (view (store sh1)) sh1)"
    "abs_queue (view (store sh2)) sh2 = a_ack (abs_queue (view (store sh1)) sh1) (res_seq r)"
proof -
  let ?q = "abs_queue (view (store sh)) sh"
  obtain res sh1 where r: "reserve S sh = Some (res, sh1)" "sinv (store sh1)"
    "view (store sh1) = view (store sh)" "wf_queue (view (store sh1)) sh1" "res \<noteq> Panic"
    "\<forall>r. res = Ok (Some r) \<longrightarrow> \<not> res_done r \<and>
      a_reserve ?q = Some (res_seq r, res_value r, abs_queue (view (store sh1)) sh1)"
    "res = Ok None \<longrightarrow> a_reserve ?q = None"
    "\<forall>e. res = Err e \<longrightarrow> (\<exists>s c. fst (seek S s c) = Inl e)"
    by (rule reserve_refines [OF assms(1,2)], rule that) (assumption | blast)+
  have some: "a_reserve ?q \<noteq> None"
    using assms(4,5) by (simp add: a_reserve_def a_ready_def abs_queue_def Let_def)
  obtain g where g: "res = Ok (Some g)"
  proof (cases res)
    case (Ok x)
    with some r(7) that show thesis by (cases x) auto
  next
    case (Err e)
    then obtain st c where "fst (seek S st c) = Inl e" using r(8) by blast
    then have "e \<in> store_errors S" by (auto simp: store_errors_def)
    with assms(3) show thesis by simp
  qed (use r(5) in simp)
  with r(6) have q: "\<not> res_done g" "a_reserve ?q = Some (res_seq g, res_value g, abs_queue (view (store sh1)) sh1)"
    by blast+
  have taken: "a_taken ?q = {}" using assms(4) by (simp add: abs_queue_def)
  note one = a_list_take [OF q(2) taken]
  have "items_of (view (store sh)) (res_seq g) = Some (res_value g)" "res_seq g \<in> reserved (inner sh1)"
    using q(2) one(4) taken by (auto simp: a_reserve_def a_ready_def Let_def abs_queue_def split: if_splits)
  then have held: "res_seq g \<in> reserved (inner sh1)" "items_of (view (store sh1)) (res_seq g) = Some (res_value g)"
    using r(3) by simp_all
  obtain k sh2 where k: "ack S sh1 g = (k, sh2)" "sinv (store sh2)" "wf_queue (view (store sh2)) sh2" "k \<noteq> Panic"
    "k = Ok () \<longrightarrow> abs_queue (view (store sh2)) sh2 = a_ack (abs_queue (view (store sh1)) sh1) (res_seq g)"
    "\<forall>e. k = Err e \<longrightarrow> (\<exists>st ops d. fst (commit S st ops d) = Inl e)"
    by (rule ack_refines [OF r(2,4) held q(1)], rule that) (assumption | blast)+
  have "k = Ok ()"
  proof (cases k)
    case (Err e)
    then obtain st ops d where "fst (commit S st ops d) = Inl e" using k(6) by blast
    then have "e \<in> store_errors S" by (auto simp: store_errors_def)
    with assms(3) show ?thesis by simp
  qed (use k(4) in simp_all)
  with k(5) have a: "abs_queue (view (store sh2)) sh2 = a_ack (abs_queue (view (store sh1)) sh1) (res_seq g)" by blast
  have "dom (items_of (view (store sh2))) = dom (items_of (view (store sh))) - {res_seq g}"
    using one(3) unfolding a [symmetric] by (simp add: abs_queue_def)
  moreover have "res_seq g \<in> dom (items_of (view (store sh)))" using one(4) by (simp add: abs_queue_def)
  ultimately have "card (dom (items_of (view (store sh)))) = Suc (card (dom (items_of (view (store sh2)))))"
    by (metis card_Suc_Diff1 finite_words)
  moreover have "reserved (inner sh2) = {}" using one(2) unfolding a [symmetric] by (simp add: abs_queue_def)
  ultimately show thesis
    using that [of g sh1 sh2] r(1) g k \<open>k = Ok ()\<close> one(1) a q(2) by simp
qed

lemma drain_abs:
  assumes "sinv (store sh)" and "wf_queue (view (store sh)) sh" and "store_errors S = {}"
    and "reserved (inner sh) = {}" and "n = card (dom (items_of (view (store sh))))"
  shows "\<exists>sh2. drain S sh n = Some (a_list (abs_queue (view (store sh)) sh), sh2) \<and> sinv (store sh2) \<and>
    wf_queue (view (store sh2)) sh2 \<and> items_of (view (store sh2)) = Map.empty \<and> reserved (inner sh2) = {}"
  using assms
proof (induction n arbitrary: sh)
  case 0
  then have "items_of (view (store sh)) = Map.empty" by simp
  with 0 show ?case by (simp add: a_list_def abs_queue_def)
next
  case (Suc n)
  then have ne: "dom (items_of (view (store sh))) \<noteq> {}" by auto
  obtain r sh1 sh2 where t: "reserve S sh = Some (Ok (Some r), sh1)" "ack S sh1 r = (Ok (), sh2)"
    "sinv (store sh2)" "wf_queue (view (store sh2)) sh2" "reserved (inner sh2) = {}"
    "a_list (abs_queue (view (store sh)) sh) = res_value r # a_list (abs_queue (view (store sh2)) sh2)"
    "card (dom (items_of (view (store sh)))) = Suc (card (dom (items_of (view (store sh2)))))"
    by (rule take_one [OF Suc.prems(1-4) ne], rule that) assumption+
  then have "n = card (dom (items_of (view (store sh2))))" using Suc.prems(5) by simp
  with Suc.IH [OF t(3,4) Suc.prems(3) t(5)] t show ?case by auto
qed

lemma reserve_empty:
  assumes "sinv (store sh)" and "wf_queue (view (store sh)) sh" and "store_errors S = {}"
    and "items_of (view (store sh)) = Map.empty"
  shows "\<exists>sh1. reserve S sh = Some (Ok None, sh1)"
proof -
  let ?q = "abs_queue (view (store sh)) sh"
  obtain res sh1 where r: "reserve S sh = Some (res, sh1)" "res \<noteq> Panic"
    "\<forall>r. res = Ok (Some r) \<longrightarrow> a_reserve ?q \<noteq> None" "\<forall>e. res = Err e \<longrightarrow> (\<exists>s c. fst (seek S s c) = Inl e)"
    by (rule reserve_refines [OF assms(1,2)], rule that) (assumption | blast | simp)+
  have "a_reserve ?q = None" using assms(4) by (simp add: a_reserve_def a_ready_def abs_queue_def)
  with r assms(3) show ?thesis
    by (cases res) (auto simp: store_errors_def split: option.splits intro: option.exhaust)
qed

end

text \<open>C6. FIFO, end to end. Over an atomic store that reports no error, in an open queue with nothing in
  flight and with room for them: every push of a list of values returns \<open>Ok\<close>, and reserving and
  acking until the count is used up returns, and yields the values that were queued in the order
  of their numbers followed by the pushed ones in the order of the pushes; then the queue is
  empty, \<open>len\<close> is zero and \<open>reserve\<close> reports nothing.\<close>

theorem fifo_end_to_end:
  assumes "atomic_store S sinv view" and "sinv (store sh)" and "wf_queue (view (store sh)) sh"
    and "store_errors S = {}" and "\<not> closed (inner sh)" and "reserved (inner sh) = {}"
    and "len (inner sh) + length vs \<le> capacity sh" and "capacity sh \<le> usize_max"
    and "bytes (inner sh) + sum_list (map length vs) \<le> max_bytes sh" and "max_bytes sh \<le> usize_max"
    and "unat (tail (inner sh)) + length vs < 2 ^ 64"
  shows "\<exists>sh1 sh2 sh3. push_all S sh vs = Some sh1 \<and>
    drain S sh1 (queue_len sh1) = Some (a_list (abs_queue (view (store sh)) sh) @ vs, sh2) \<and>
    queue_len sh1 = queue_len sh + length vs \<and> queue_len sh2 = 0 \<and> reserve S sh2 = Some (Ok None, sh3)"
proof -
  obtain sh1 where p: "push_all S sh vs = Some sh1" "sinv (store sh1)" "wf_queue (view (store sh1)) sh1"
    "a_list (abs_queue (view (store sh1)) sh1) = a_list (abs_queue (view (store sh)) sh) @ vs"
    "a_taken (abs_queue (view (store sh1)) sh1) = a_taken (abs_queue (view (store sh)) sh)"
    "len (inner sh1) = len (inner sh) + length vs"
    using atomic_store.push_all_abs [OF assms(1-5,7-11)] by blast
  have "reserved (inner sh1) = {}" using p(5) assms(6) by (simp add: abs_queue_def)
  from atomic_store.drain_abs [OF assms(1) p(2,3) assms(4) this wf_queueD(6) [OF p(3)]] obtain sh2 where
    d: "drain S sh1 (len (inner sh1)) = Some (a_list (abs_queue (view (store sh)) sh) @ vs, sh2)"
    "sinv (store sh2)" "wf_queue (view (store sh2)) sh2" "items_of (view (store sh2)) = Map.empty"
    unfolding p(4) by blast
  moreover have "len (inner sh2) = 0" using wf_queueD(6) [OF d(3)] d(4) by simp
  ultimately show ?thesis
    using p(1,6) atomic_store.reserve_empty [OF assms(1) d(2,3) assms(4) d(4)]
    by (auto simp: queue_len_def)
qed

theorem fifo_end_to_end_witness:
  "\<exists>sh1 sh2. push_all MemR demo_queue [[8], [9, 9]] = Some sh1 \<and> drain MemR sh1 3 = Some ([[7], [8], [9, 9]], sh2)"
proof -
  have hyps: "atomic_store MemR bt_ordered map_of" "bt_ordered (store demo_queue)"
    "wf_queue (map_of (store demo_queue)) demo_queue"
    using mem.atomic_store_axioms demo_ordered demo_wf by simp_all
  have i: "inner demo_queue = \<lparr>tail = 1, head = 0, acked_above = {}, len = 1, bytes = 1, reserved = {}, closed = False\<rparr>"
    "capacity demo_queue = 4" "max_bytes demo_queue = 100" by (simp_all add: demo_queue_def)
  have l: "a_list (abs_queue (map_of (store demo_queue)) demo_queue) = [[7]]" "queue_len demo_queue = 1"
    by (simp_all add: a_list_def abs_queue_def demo_items queue_len_def i)
  have more: "\<not> closed (inner demo_queue)" "reserved (inner demo_queue) = {}"
    "len (inner demo_queue) + length [[8 :: byte], [9, 9]] \<le> capacity demo_queue" "capacity demo_queue \<le> usize_max"
    "bytes (inner demo_queue) + sum_list (map length [[8 :: byte], [9, 9]]) \<le> max_bytes demo_queue"
    "max_bytes demo_queue \<le> usize_max" "unat (tail (inner demo_queue)) + length [[8 :: byte], [9, 9]] < 2 ^ 64"
    by (simp_all add: i)
  obtain sh1 sh2 where p: "push_all MemR demo_queue [[8], [9, 9]] = Some sh1"
    "drain MemR sh1 (queue_len sh1) = Some ([[7]] @ [[8], [9, 9]], sh2)"
    "queue_len sh1 = queue_len demo_queue + length [[8 :: byte], [9, 9]]"
    using fifo_end_to_end [OF hyps mem_no_errors more] unfolding l(1) by blast
  have n: "queue_len sh1 = 3" using p(3) l(2) by simp
  have "drain MemR sh1 3 = Some ([[7], [8], [9, 9]], sh2)"
    using p(2) unfolding n by (simp only: append_Cons append_Nil)
  with p(1) show ?thesis by blast
qed

end
