(* ===== verification/CrashSession.thy ===== *)
theory CrashSession imports Sessions Survival "HOL-Library.Sublist" begin

text \<open>
  Sessions that end in a crash (\<open>src/src/queue.rs\<close>, and what \<open>src/tests/fault.rs\<close> tries on two
  examples). One client pushes values and takes items (reserve and ack) in any order, reserves some
  more without acking them, and the machine crashes. Opening the store again and draining gives back
  what the session left, in order; only if acks are not durable may some of the acked items come
  first. The lemmas follow one picture of the store: the items are those of a log of all pushes from
  a bound on, and the disk holds them and nothing outside the log.
\<close>

section \<open>Client programs\<close>

datatype Client = Client_Push val | Client_Take

text \<open>A session collects the values it takes; it is None if a push does not return \<open>Ok\<close> or there is
  nothing to take. \<open>hold\<close> reserves and keeps the guards.\<close>

fun session :: "('s, 'e) Store \<Rightarrow> 's Shared \<Rightarrow> Client list \<Rightarrow> (val list \<times> 's Shared) option" where
  "session S sh [] = Some ([], sh)"
| "session S sh (Client_Push v # cs) =
     (case push S sh v of Some (Ok _, sh1) \<Rightarrow> session S sh1 cs | _ \<Rightarrow> None)"
| "session S sh (Client_Take # cs) =
     (case reserve S sh of
        Some (Ok (Some r), sh1) \<Rightarrow>
          (case ack S sh1 r of
             (Ok _, sh2) \<Rightarrow> map_option (\<lambda>(vs, sh3). (res_value r # vs, sh3)) (session S sh2 cs)
           | _ \<Rightarrow> None)
      | _ \<Rightarrow> None)"

fun hold :: "('s, 'e) Store \<Rightarrow> 's Shared \<Rightarrow> nat \<Rightarrow> 's Shared option" where
  "hold S sh 0 = Some sh"
| "hold S sh (Suc n) = (case reserve S sh of Some (_, sh1) \<Rightarrow> hold S sh1 n | None \<Rightarrow> None)"

text \<open>What a session does to a plain list: the values taken, and those left.\<close>

fun plain :: "val list \<Rightarrow> Client list \<Rightarrow> (val list \<times> val list) option" where
  "plain xs [] = Some ([], xs)"
| "plain xs (Client_Push v # cs) = plain (xs @ [v]) cs"
| "plain [] (Client_Take # cs) = None"
| "plain (x # xs) (Client_Take # cs) = map_option (\<lambda>(out, rest). (x # out, rest)) (plain xs cs)"

fun pushed :: "Client list \<Rightarrow> val list" where
  "pushed [] = []"
| "pushed (Client_Push v # cs) = v # pushed cs"
| "pushed (Client_Take # cs) = pushed cs"

section \<open>Listing the items of a map\<close>

definition listed :: "(u64 \<rightharpoonup> val) \<Rightarrow> val list" where
  "listed m = map (\<lambda>s. the (m s)) (sorted_list_of_set (dom m))"

lemma a_list_listed: "a_list q = listed (a_items q)"
  by (simp add: a_list_def listed_def)

lemma listed_Nil [simp]: "listed Map.empty = []"
  by (simp add: listed_def)

lemma listed_snoc:
  assumes "\<forall>x \<in> dom m. x < q"
  shows "listed (m(q \<mapsto> v)) = listed m @ [v]"
proof -
  have "map (\<lambda>s. the ((m(q \<mapsto> v)) s)) (sorted_list_of_set (dom m)) = listed m"
    using assms by (auto simp: listed_def)
  then show ?thesis by (simp add: listed_def sorted_list_snoc [OF assms])
qed

lemma sorted_list_append:
  fixes A B :: "u64 set"
  assumes "\<forall>x \<in> A. \<forall>y \<in> B. x < y"
  shows "sorted_list_of_set (A \<union> B) = sorted_list_of_set A @ sorted_list_of_set B"
proof (rule sorted_distinct_set_unique)
  show "sorted (sorted_list_of_set A @ sorted_list_of_set B)"
    using assms by (auto simp: sorted_append less_imp_le)
  show "distinct (sorted_list_of_set A @ sorted_list_of_set B)"
    using assms by auto
qed simp_all

lemma listed_split: "listed m = listed (m |` {..<b}) @ listed (m |` {b..})"
proof -
  have d: "dom m = (dom m \<inter> {..<b}) \<union> (dom m \<inter> {b..})" by auto
  have "sorted_list_of_set (dom m) = sorted_list_of_set (dom m \<inter> {..<b}) @ sorted_list_of_set (dom m \<inter> {b..})"
    by (subst d) (rule sorted_list_append, auto)
  then show ?thesis by (simp add: listed_def)
qed

lemma listed_subseq:
  assumes "m \<subseteq>\<^sub>m m'"
  shows "subseq (listed m) (listed m')"
proof -
  have "dom m \<subseteq> dom m'" using assms by (rule map_le_implies_dom_le)
  then have "sorted_list_of_set (dom m) = filter (\<lambda>x. x \<in> dom m) (sorted_list_of_set (dom m'))"
    by (intro sorted_distinct_set_unique) (auto intro: sorted_wrt_filter)
  moreover have "listed m = map (\<lambda>s. the (m' s)) (sorted_list_of_set (dom m))"
    using assms by (auto simp: listed_def map_le_def)
  ultimately have "listed m = map (\<lambda>s. the (m' s)) (filter (\<lambda>x. x \<in> dom m) (sorted_list_of_set (dom m')))"
    by simp
  then show ?thesis unfolding listed_def [of m'] by (simp add: subseq_map)
qed

lemma weight_mono:
  assumes "m \<subseteq>\<^sub>m m'"
  shows "weight length m \<le> weight length m'"
proof -
  have "weight length m = (\<Sum>q \<in> dom m. length (the (m' q)))"
    using assms by (auto simp: weight_def map_le_def intro: sum.cong)
  also have "\<dots> \<le> weight length m'"
    unfolding weight_def using map_le_implies_dom_le [OF assms] by (intro sum_mono2) simp_all
  finally show ?thesis .
qed

section \<open>The disk under one operation\<close>

text \<open>The store holds queue keys and this format version, the disk holds its items and others of \<open>m0\<close>
  only, and with durable acks just its items.\<close>

definition on_disk ::
  "('s \<Rightarrow> key \<rightharpoonup> val) \<Rightarrow> ('s \<Rightarrow> key \<rightharpoonup> val) \<Rightarrow> bool \<Rightarrow> (u64 \<rightharpoonup> val) \<Rightarrow> 's \<Rightarrow> bool" where
  "on_disk view disk acks m0 st \<longleftrightarrow> only_queue_keys (view st) \<and> only_queue_keys (disk st) \<and>
     {stored_version (view st), stored_version (disk st)} \<subseteq> {None, Some FORMAT_VERSION} \<and>
     items_of (view st) \<subseteq>\<^sub>m items_of (disk st) \<and> items_of (disk st) \<subseteq>\<^sub>m m0 \<and>
     (acks \<longrightarrow> items_of (disk st) = items_of (view st))"

lemma on_diskD:
  assumes "on_disk view disk acks m0 st"
  shows "only_queue_keys (view st)" "only_queue_keys (disk st)"
    "stored_version (view st) \<in> {None, Some FORMAT_VERSION}" "stored_version (disk st) \<in> {None, Some FORMAT_VERSION}"
    "items_of (view st) \<subseteq>\<^sub>m items_of (disk st)" "items_of (disk st) \<subseteq>\<^sub>m m0"
    "acks \<Longrightarrow> items_of (disk st) = items_of (view st)"
  using assms by (auto simp: on_disk_def)

lemma only_queue_keys_from:
  assumes "\<And>m. m \<in> M \<Longrightarrow> only_queue_keys m" and "\<And>j. \<exists>m \<in> M. m' j = m j"
  shows "only_queue_keys m'"
  unfolding only_queue_keys_def
proof
  fix j assume "j \<in> dom m'"
  moreover obtain m where m: "m \<in> M" "m' j = m j" using assms(2) [of j] by blast
  ultimately have "j \<in> dom m" by (simp add: domIff)
  with assms(1) [OF m(1)] show "j = META_KEY \<or> is_entry j" by (simp add: only_queue_keys_def)
qed

lemma map_leI:
  assumes "\<And>p u. m p = Some u \<Longrightarrow> m' p = Some u"
  shows "m \<subseteq>\<^sub>m m'"
  using assms by (force simp: map_le_def)

lemma map_leD: "m \<subseteq>\<^sub>m m' \<Longrightarrow> m p = Some u \<Longrightarrow> m' p = Some u"
  by (force simp: map_le_def)

text \<open>A read moves the disk towards the contents.\<close>

lemma on_disk_read:
  assumes "on_disk view disk acks m0 st" and "view st' = view st" and "\<And>j. disk st' j \<in> {disk st j, view st j}"
  shows "on_disk view disk acks m0 st'"
proof -
  note d = on_diskD [OF assms(1)]
  have i: "items_of (disk st') q = items_of (disk st) q \<or> items_of (disk st') q = items_of (view st) q" for q
    using assms(3) [of "entry_key q"] by (auto simp: items_of_def)
  have "stored_version (disk st') \<in> {None, Some FORMAT_VERSION}"
    using assms(3) [of META_KEY] d(3,4) by (auto simp: stored_version_def)
  moreover have "only_queue_keys (disk st')"
    by (rule only_queue_keys_from [of "{disk st, view st}"]) (use d(1,2) assms(3) in auto)
  moreover have "items_of (view st) \<subseteq>\<^sub>m items_of (disk st')" "items_of (disk st') \<subseteq>\<^sub>m m0"
    using i d(5,6) by (auto simp: map_le_def) (metis domI)+
  moreover have "items_of (disk st') = items_of (view st)" if acks
    using i d(7) [OF that] by (auto simp: fun_eq_iff)
  ultimately show ?thesis using d(1,3) assms(2) by (simp add: on_disk_def)
qed

text \<open>So does a write of one entry; it reaches the disk if it is durable, and otherwise only takes an item away.\<close>

lemma on_disk_write:
  assumes "on_disk view disk acks m0 st" and v: "view st' = (view st)(entry_key q := x)"
    and "\<And>j. disk st' j \<in> {disk st j, view st j, view st' j}"
    and dur: "d \<Longrightarrow> disk st' (entry_key q) = x" and "d \<or> x = None \<and> \<not> acks"
    and m: "m1 = (case x of None \<Rightarrow> m0 | Some u \<Rightarrow> m0(q \<mapsto> u))"
  shows "on_disk view disk acks m1 st'"
proof -
  note d = on_diskD [OF assms(1)]
  let ?v = "items_of (view st)" and ?d = "items_of (disk st)" and ?d' = "items_of (disk st')"
  have v': "items_of (view st') = ?v(q := x)" by (simp add: v)
  have i: "?d' p = ?d p \<or> ?d' p = ?v p" if "p \<noteq> q" for p
    using assms(3) [of "entry_key p"] that by (auto simp: items_of_def v)
  have q: "?d' q = x \<or> x = None \<and> (?d' q = ?d q \<or> ?d' q = ?v q)"
    using assms(3) [of "entry_key q"] dur assms(5) by (auto simp: items_of_def v)
  have "stored_version (disk st') \<in> {None, Some FORMAT_VERSION}" "stored_version (view st') \<in> {None, Some FORMAT_VERSION}"
    using assms(3) [of META_KEY] d(3,4) by (auto simp: stored_version_def v)
  moreover have keys: "only_queue_keys (view st')" using d(1) by (simp add: v)
  moreover have "only_queue_keys (disk st')"
    by (rule only_queue_keys_from [of "{disk st, view st, view st'}"]) (use d(1,2) keys assms(3) in auto)
  moreover have "?v(q := x) \<subseteq>\<^sub>m ?d'"
  proof (rule map_leI)
    fix p u assume "(?v(q := x)) p = Some u"
    then show "?d' p = Some u" using i [of p] q map_leD [OF d(5), of p u] by (cases "p = q") auto
  qed
  moreover have "?d' \<subseteq>\<^sub>m m1"
  proof (rule map_leI)
    fix p u assume a: "?d' p = Some u"
    show "m1 p = Some u"
    proof (cases "p = q")
      case True
      with a q map_leD [OF d(6), of q u] map_leD [OF d(5), of q u] show ?thesis
        by (auto simp: m split: option.split)
    next
      case False
      with a i [OF False] map_leD [OF d(6), of p u] map_leD [OF d(5), of p u] show ?thesis
        by (auto simp: m split: option.split)
    qed
  qed
  moreover have "?d' = ?v(q := x)" if acks
  proof
    fix p
    have "?d' q = x" using dur assms(5) that by (simp add: items_of_def)
    then show "?d' p = (?v(q := x)) p" using i [of p] d(7) [OF that] by (cases "p = q") auto
  qed
  ultimately show ?thesis by (simp add: on_disk_def v')
qed

text \<open>The settings of a queue stay.\<close>

definition same_policy :: "'s Shared \<Rightarrow> 's Shared \<Rightarrow> bool" where
  "same_policy sh sh' \<longleftrightarrow> durable sh' = durable sh \<and> ack_durable sh' = ack_durable sh \<and>
     capacity sh' = capacity sh \<and> max_bytes sh' = max_bytes sh"

lemma reserve_loop_keeps:
  assumes "reserve_loop S' sh c = Some y" and "S' = S" and "P (store sh)"
    and seek: "\<And>st k r st'. P st \<Longrightarrow> seek S st k = (r, st') \<Longrightarrow> P st'"
  shows "P (store (snd y)) \<and> same_policy sh (snd y)"
  using assms(1-3)
proof (induction S' sh c y rule: reserve_loop.raw_induct [rotated 1, consumes 1])
  case (1 loop S' sh c y)
  obtain r st where r: "seek S (store sh) c = (r, st)" by fastforce
  have p: "P st" by (rule seek [OF 1(4) r])
  have again: "P (store (snd y)) \<and> same_policy sh (snd y)" if "loop S (sh\<lparr>store := st\<rparr>) k = Some y" for k
    using 1(1) [OF that refl] p by (simp add: same_policy_def)
  show ?case
    using 1(2) r p unfolding 1(3)
    by (auto split: sum.splits option.splits if_splits dest!: again simp: same_policy_def)
qed

lemma reserve_keeps:
  assumes "reserve S sh = Some (res, sh')" and "P (store sh)"
    and "\<And>st k r st'. P st \<Longrightarrow> seek S st k = (r, st') \<Longrightarrow> P st'"
  shows "P (store sh')" "same_policy sh sh'"
  using reserve_loop_keeps [where P = P, OF assms(1) [unfolded reserve_def] refl assms(2,3)] by simp_all

lemma ack_commits:
  assumes "ack S sh r = (Ok u, sh')"
  shows "commit S (store sh) [Delete (entry_key (res_seq r))] (ack_durable sh) = (Inr (), store sh')"
    "same_policy sh sh'"
proof -
  obtain c st where c: "commit S (store sh) [Delete (entry_key (res_seq r))] (ack_durable sh) = (c, st)" by fastforce
  with assms obtain i where "c = Inr ()" "sh' = drop_reserved (sh\<lparr>store := st, inner := i\<rparr>) (r\<lparr>res_done := True\<rparr>)"
    by (cases c) (auto simp: ack_def commit_to_def split: option.splits)
  with c show "commit S (store sh) [Delete (entry_key (res_seq r))] (ack_durable sh) = (Inr (), store sh')"
    "same_policy sh sh'" by (simp_all add: drop_reserved_def same_policy_def)
qed

text \<open>A push alone is one durable commit of its entry.\<close>

lemma push_commits:
  assumes "push S sh v = Some (Ok (), sh')" and "durable sh" and "group_state sh = group_default" and "store_errors S = {}"
  shows "commit S (store sh) [Put (entry_key (tail (inner sh))) v] True = (Inr (), store sh')" "same_policy sh sh'"
proof -
  obtain s i where e: "enter sh (length v) = Admitted s i" and "s = tail (inner sh)"
    using assms(1) by (cases "enter sh (length v)") (auto simp: push_def)
  obtain c st where c: "commit S (store sh) [Put (entry_key s) v] True = (c, st)" by fastforce
  have ok: "c = Inr ()"
    using c assms(4) by (cases c) (auto simp: store_errors_def, metis fst_conv)
  let ?sh = "sh\<lparr>inner := i\<rparr>"
  have "write_entry S ?sh s v = Some (Ok (), ?sh\<lparr>store := st\<rparr>)"
    using c assms(2,3)
    by (cases "group sh") (simp_all add: ok write_entry_def commit_to_def group_commit_def group_lead.simps group_enqueue_def
      group_take_def group_record_def group_outcome_def group_default_def batch_ops_def Let_def fun_upd_idem)
  then have "sh' = ?sh\<lparr>store := st\<rparr>" using assms(1) e by (simp add: push_def)
  with c ok \<open>s = tail (inner sh)\<close> show "commit S (store sh) [Put (entry_key (tail (inner sh))) v] True = (Inr (), store sh')"
    "same_policy sh sh'" by (simp_all add: same_policy_def)
qed

section \<open>The log of a session\<close>

text \<open>\<open>m0\<close> logs all items of the session by number; those from \<open>b\<close> on are in the queue, those below
  were taken.\<close>

definition logged ::
  "('s \<Rightarrow> bool) \<Rightarrow> ('s \<Rightarrow> key \<rightharpoonup> val) \<Rightarrow> ('s \<Rightarrow> key \<rightharpoonup> val) \<Rightarrow> 's Shared \<Rightarrow> (u64 \<rightharpoonup> val) \<Rightarrow> u64 \<Rightarrow> bool" where
  "logged sinv view disk sh m0 b \<longleftrightarrow> sinv (store sh) \<and> wf_queue (view (store sh)) sh \<and>
     reserved (inner sh) = {} \<and> \<not> closed (inner sh) \<and> durable sh \<and>
     on_disk view disk (ack_durable sh) m0 (store sh) \<and> items_of (view (store sh)) = m0 |` {b..} \<and>
     (\<forall>x \<in> dom m0. x < tail (inner sh)) \<and> b \<le> tail (inner sh)"

lemma loggedD:
  assumes "logged sinv view disk sh m0 b"
  shows "sinv (store sh)" "wf_queue (view (store sh)) sh" "reserved (inner sh) = {}" "\<not> closed (inner sh)"
    "durable sh" "on_disk view disk (ack_durable sh) m0 (store sh)" "items_of (view (store sh)) = m0 |` {b..}"
    "\<forall>x \<in> dom m0. x < tail (inner sh)" "b \<le> tail (inner sh)"
  using assms by (auto simp: logged_def)

text \<open>Taking the least number above the bound moves the bound past it.\<close>

lemma log_take:
  fixes m :: "u64 \<rightharpoonup> val"
  assumes "m |` {b..} = n" and "n s = Some v" and "\<forall>x \<in> dom n. s \<le> x" and "s \<noteq> - 1"
  shows "n(s := None) = m |` {s + 1..}" and "listed (m |` {..<s + 1}) = listed (m |` {..<b}) @ [v]"
proof -
  have s: "b \<le> s" "m s = Some v" using assms(1,2) by (auto simp: restrict_map_def split: if_splits)
  note next_le = inc_le_iff [OF assms(4)]
  have gap: "m x = None" if "b \<le> x" "x < s" for x
  proof -
    have "n x = None" using assms(3) that(2) by (cases "n x") force+
    with that(1) show ?thesis by (simp add: assms(1) [symmetric])
  qed
  show "n(s := None) = m |` {s + 1..}"
    using gap by (auto simp: assms(1) [symmetric] restrict_map_def fun_eq_iff next_le s(1)) (use s(1) in force)+
  have up: "m |` {..<s + 1} = (m |` {..<b})(s \<mapsto> v)"
  proof
    fix x
    have "x < s + 1 \<longleftrightarrow> x \<le> s" using next_le [of x] by (simp add: not_le [symmetric])
    then show "(m |` {..<s + 1}) x = ((m |` {..<b})(s \<mapsto> v)) x"
      using gap [of x] s by (auto simp: restrict_map_def not_less)
  qed
  have "\<forall>x \<in> dom (m |` {..<b}). x < s" using s(1) by auto
  then show "listed (m |` {..<s + 1}) = listed (m |` {..<b}) @ [v]"
    unfolding up by (rule listed_snoc)
qed

context durable_store begin

lemma calm_atomic:
  assumes "store_errors S = {}"
  shows "atomic_store S sinv view"
proof
  fix st ops d e st'
  assume "commit S st ops d = (Inl e, st')"
  then have "e \<in> store_errors S" by (auto simp: store_errors_def) (metis fst_conv)
  with assms show "view st' = view st" by simp
qed

lemma seek_on_disk:
  assumes "sinv st \<and> on_disk view stable a m0 st" and "seek S st k = (r, st')"
  shows "sinv st' \<and> on_disk view stable a m0 st'"
  using assms seek_keeps [OF _ assms(2)] on_disk_read [of view stable a m0 st st'] seek_stable [OF _ assms(2)] by blast

lemma put_on_disk:
  assumes "sinv st" and "on_disk view stable a m0 st" and "commit S st [Put (entry_key q) v] True = (Inr (), st')"
  shows "on_disk view stable a (m0(q \<mapsto> v)) st'"
proof (rule on_disk_write [OF assms(2)])
  show v: "view st' = (view st)(entry_key q := Some v)" using commit_ok [OF assms(1,3)] by simp
  show "stable st' (entry_key q) = Some v" if "True"
    using commit_durable [OF assms(1,3), of "entry_key q"] v by simp
qed (use commit_stable [OF assms(1,3)] in simp_all)

lemma delete_on_disk:
  assumes "sinv st" and "on_disk view stable a m0 st" and "commit S st [Delete (entry_key q)] d = (Inr (), st')"
    and "a \<longrightarrow> d"
  shows "on_disk view stable a m0 st'"
proof (rule on_disk_write [OF assms(2)])
  show v: "view st' = (view st)(entry_key q := None)" using commit_ok [OF assms(1,3)] by simp
  show "stable st' (entry_key q) = None" if "d"
    using commit_durable [of st "[Delete (entry_key q)]" st' "entry_key q"] assms(1,3) that v by simp
qed (use commit_stable [OF assms(1,3)] assms(4) in auto)

lemma push_logged:
  assumes "store_errors S = {}" and "logged sinv view stable sh m0 b"
    and "len (inner sh) < capacity sh" and "capacity sh \<le> usize_max"
    and "bytes (inner sh) + length v \<le> max_bytes sh" and "max_bytes sh \<le> usize_max" and "tail (inner sh) \<noteq> - 1"
  obtains sh1 where "push S sh v = Some (Ok (), sh1)" "logged sinv view stable sh1 (m0(tail (inner sh) \<mapsto> v)) b"
    "same_policy sh sh1" "listed (items_of (view (store sh1))) = listed (items_of (view (store sh))) @ [v]"
    "tail (inner sh1) = tail (inner sh) + 1" "len (inner sh1) = len (inner sh) + 1"
    "bytes (inner sh1) = bytes (inner sh) + length v"
proof -
  let ?t = "tail (inner sh)"
  note l = loggedD [OF assms(2)]
  obtain sh1 where p: "push S sh v = Some (Ok (), sh1)" "sinv (store sh1)" "wf_queue (view (store sh1)) sh1"
    "abs_queue (view (store sh1)) sh1 = a_push (abs_queue (view (store sh)) sh) v"
    by (rule atomic_store.push_with_room [OF calm_atomic [OF assms(1)] l(1,2) assms(1) l(4) assms(3-7)], rule that) assumption+
  note c = push_commits [OF p(1) l(5) wf_queueD(8) [OF l(2)] assms(1)]
  have a: "items_of (view (store sh1)) = (items_of (view (store sh)))(?t \<mapsto> v)" "reserved (inner sh1) = {}"
    "tail (inner sh1) = ?t + 1" "\<not> closed (inner sh1)"
    using p(4) l(3,4) by (simp_all add: abs_queue_def a_push_def a_burn_def)
  have below: "\<forall>x \<in> dom (items_of (view (store sh))). x < ?t" using l(7,8) by auto
  have out: "?t \<notin> dom (items_of (view (store sh)))" using below by blast
  have "on_disk view stable (ack_durable sh1) (m0(?t \<mapsto> v)) (store sh1)"
    using put_on_disk [OF l(1,6) c(1)] c(2) by (simp add: same_policy_def)
  moreover have "(m0(?t \<mapsto> v)) |` {b..} = (items_of (view (store sh)))(?t \<mapsto> v)"
    using l(7,9) by (auto simp: restrict_map_def fun_eq_iff)
  moreover have "\<forall>x \<in> dom (m0(?t \<mapsto> v)). x < ?t + 1" "b \<le> ?t + 1"
    using l(8,9) less_inc_iff [OF assms(7)] by (auto simp: less_imp_le)
  ultimately have "logged sinv view stable sh1 (m0(?t \<mapsto> v)) b"
    using p(2,3) a c(2) l(5) by (simp add: logged_def same_policy_def)
  moreover have "len (inner sh1) = len (inner sh) + 1" "bytes (inner sh1) = bytes (inner sh) + length v"
    using wf_queueD(6,7) [OF p(3)] wf_queueD(6,7) [OF l(2)] weight_fresh [OF out, of length v] out by (simp_all add: a(1))
  ultimately show thesis
    using that [of sh1] p(1) c(2) a(1,3) listed_snoc [OF below] by simp
qed

lemma take_logged:
  assumes "store_errors S = {}" and "logged sinv view stable sh m0 b" and "items_of (view (store sh)) \<noteq> Map.empty"
  obtains r sh1 sh2 where "reserve S sh = Some (Ok (Some r), sh1)" "ack S sh1 r = (Ok (), sh2)"
    "logged sinv view stable sh2 m0 (res_seq r + 1)" "same_policy sh sh2"
    "listed (items_of (view (store sh))) = res_value r # listed (items_of (view (store sh2)))"
    "listed (m0 |` {..<res_seq r + 1}) = listed (m0 |` {..<b}) @ [res_value r]"
    "tail (inner sh2) = tail (inner sh)" "len (inner sh2) \<le> len (inner sh)" "bytes (inner sh2) \<le> bytes (inner sh)"
proof -
  let ?n = "items_of (view (store sh))" and ?q = "abs_queue (view (store sh)) sh"
  note l = loggedD [OF assms(2)]
  have "dom ?n \<noteq> {}" using assms(3) by simp
  obtain r sh1 sh2 where t: "reserve S sh = Some (Ok (Some r), sh1)" "ack S sh1 r = (Ok (), sh2)"
    "sinv (store sh2)" "wf_queue (view (store sh2)) sh2" "reserved (inner sh2) = {}"
    "a_list ?q = res_value r # a_list (abs_queue (view (store sh2)) sh2)"
    "a_reserve ?q = Some (res_seq r, res_value r, abs_queue (view (store sh1)) sh1)"
    "abs_queue (view (store sh2)) sh2 = a_ack (abs_queue (view (store sh1)) sh1) (res_seq r)"
    by (rule atomic_store.take_one [OF calm_atomic [OF assms(1)] l(1,2) assms(1) l(3) \<open>dom ?n \<noteq> {}\<close>], rule that)
      assumption+
  have q: "a_ready ?q = dom ?n" "a_items ?q = ?n" by (simp_all add: a_ready_def abs_queue_def l(3))
  have r: "Min (dom ?n) = res_seq r" "the (?n (res_seq r)) = res_value r"
    "abs_queue (view (store sh1)) sh1 = ?q\<lparr>a_taken := insert (res_seq r) (a_taken ?q)\<rparr>"
    using t(7) \<open>dom ?n \<noteq> {}\<close> unfolding a_reserve_def q Let_def by auto
  have "Min (dom ?n) \<in> dom ?n" "\<forall>x \<in> dom ?n. Min (dom ?n) \<le> x"
    using \<open>dom ?n \<noteq> {}\<close> by (auto intro: Min_in)
  then have s: "?n (res_seq r) = Some (res_value r)" "\<forall>x \<in> dom ?n. res_seq r \<le> x"
    unfolding r(1) using r(2) by auto
  have a: "items_of (view (store sh2)) = ?n(res_seq r := None)" "tail (inner sh2) = tail (inner sh)"
    "closed (inner sh2) = closed (inner sh)"
    using t(8) unfolding r(3) by (simp_all add: abs_queue_def a_ack_def a_nack_def)
  have below: "res_seq r < tail (inner sh)" using wf_queueD(4) [OF l(2) s(1)] by blast
  note log = log_take [OF l(7) [symmetric] s(1,2) less_not_max [OF below]]
  note k1 = reserve_keeps [where P = "\<lambda>st. sinv st \<and> on_disk view stable (ack_durable sh) m0 st",
      OF t(1) conjI [OF l(1,6)] seek_on_disk]
  note c = ack_commits [OF t(2)]
  have policy: "same_policy sh sh2" using k1(2) c(2) by (simp add: same_policy_def)
  have "on_disk view stable (ack_durable sh) m0 (store sh2)"
    using delete_on_disk [OF _ _ c(1)] k1 by (simp add: same_policy_def)
  then have "logged sinv view stable sh2 m0 (res_seq r + 1)"
    using t(3-5) a l(4,5,8) policy log(1) inc_le_iff [OF less_not_max [OF below]] below
    by (simp add: logged_def same_policy_def)
  moreover have "len (inner sh2) \<le> len (inner sh)" "bytes (inner sh2) \<le> bytes (inner sh)"
    using wf_queueD(6,7) [OF t(4)] wf_queueD(6,7) [OF l(2)] weight_mono [of "?n(res_seq r := None)" ?n] card_mono [of "dom ?n" "dom ?n - {res_seq r}"]
    by (simp_all add: a(1) map_le_def)
  moreover have "listed ?n = res_value r # listed (items_of (view (store sh2)))"
    using t(6) by (simp add: a_list_listed abs_queue_def)
  ultimately show thesis
    using that [of r sh1 sh2] t(1,2) policy log(2) a(2) by simp
qed

text \<open>A session runs as the plain list says, and leaves its values in the log.\<close>

lemma session_runs:
  assumes "store_errors S = {}" and "logged sinv view stable sh m0 b"
    and "plain (listed (items_of (view (store sh)))) cs = Some (out, rest)"
    and "len (inner sh) + length (pushed cs) \<le> capacity sh" and "capacity sh \<le> usize_max"
    and "bytes (inner sh) + sum_list (map length (pushed cs)) \<le> max_bytes sh" and "max_bytes sh \<le> usize_max"
    and "unat (tail (inner sh)) + length (pushed cs) < 2 ^ 64"
  shows "\<exists>sh1 m1 b1. session S sh cs = Some (out, sh1) \<and> logged sinv view stable sh1 m1 b1 \<and> same_policy sh sh1 \<and>
    listed (items_of (view (store sh1))) = rest \<and> listed (m1 |` {..<b1}) = listed (m0 |` {..<b}) @ out \<and>
    weight length m1 = weight length m0 + sum_list (map length (pushed cs))"
  using assms(2-)
proof (induction cs arbitrary: sh m0 b out)
  case Nil
  then show ?case by (auto simp: same_policy_def)
next
  case (Cons c cs)
  note l = loggedD [OF Cons.prems(1)]
  show ?case
  proof (cases c)
    case (Client_Push v)
    have t: "tail (inner sh) \<noteq> - 1"
      using Cons.prems(7) Client_Push by (auto simp: unsigned_minus_1_eq_mask mask_eq_exp_minus_1)
    have room: "len (inner sh) < capacity sh" "bytes (inner sh) + length v \<le> max_bytes sh"
      using Cons.prems(3,5) Client_Push by simp_all
    obtain sh1 where p: "push S sh v = Some (Ok (), sh1)" "logged sinv view stable sh1 (m0(tail (inner sh) \<mapsto> v)) b"
      "same_policy sh sh1" "listed (items_of (view (store sh1))) = listed (items_of (view (store sh))) @ [v]"
      "tail (inner sh1) = tail (inner sh) + 1" "len (inner sh1) = len (inner sh) + 1"
      "bytes (inner sh1) = bytes (inner sh) + length v"
      by (rule push_logged [OF assms(1) Cons.prems(1) room(1) Cons.prems(4) room(2) Cons.prems(6) t], rule that) assumption+
    have "plain (listed (items_of (view (store sh1)))) cs = Some (out, rest)"
      using Cons.prems(2) Client_Push p(4) by simp
    moreover have "unat (tail (inner sh1)) + length (pushed cs) < 2 ^ 64"
      using Cons.prems(7) Client_Push unat_inc [OF t] p(5) by simp
    moreover have "len (inner sh1) + length (pushed cs) \<le> capacity sh1" "capacity sh1 \<le> usize_max"
      "bytes (inner sh1) + sum_list (map length (pushed cs)) \<le> max_bytes sh1" "max_bytes sh1 \<le> usize_max"
      using Cons.prems(3-6) Client_Push p(3,6,7) by (simp_all add: same_policy_def)
    ultimately obtain sh2 m1 b1 where n: "session S sh1 cs = Some (out, sh2)" "logged sinv view stable sh2 m1 b1"
      "same_policy sh1 sh2" "listed (items_of (view (store sh2))) = rest"
      "listed (m1 |` {..<b1}) = listed ((m0(tail (inner sh) \<mapsto> v)) |` {..<b}) @ out"
      "weight length m1 = weight length (m0(tail (inner sh) \<mapsto> v)) + sum_list (map length (pushed cs))"
      using Cons.IH [OF p(2), of out] by blast
    have low: "(m0(tail (inner sh) \<mapsto> v)) |` {..<b} = m0 |` {..<b}"
      using l(9) by (auto simp: restrict_map_def fun_eq_iff)
    have "weight length (m0(tail (inner sh) \<mapsto> v)) = weight length m0 + length v"
      using l(8) by (subst weight_fresh) auto
    with n(6) have "weight length m1 = weight length m0 + sum_list (map length (pushed (c # cs)))"
      by (simp add: Client_Push)
    moreover have "session S sh (c # cs) = Some (out, sh2)" using p(1) n(1) by (simp add: Client_Push)
    moreover have "same_policy sh sh2" using p(3) n(3) by (simp add: same_policy_def)
    ultimately show ?thesis using n(2,4,5) unfolding low by blast
  next
    case Client_Take
    then obtain x xs out1 where x: "listed (items_of (view (store sh))) = x # xs" "plain xs cs = Some (out1, rest)" "out = x # out1"
      using Cons.prems(2) by (cases "listed (items_of (view (store sh)))") auto
    then have "items_of (view (store sh)) \<noteq> Map.empty" by auto
    from take_logged [OF assms(1) Cons.prems(1) this] obtain r sh1 sh2 where
      t: "reserve S sh = Some (Ok (Some r), sh1)" "ack S sh1 r = (Ok (), sh2)"
      "logged sinv view stable sh2 m0 (res_seq r + 1)" "same_policy sh sh2"
      "listed (items_of (view (store sh))) = res_value r # listed (items_of (view (store sh2)))"
      "listed (m0 |` {..<res_seq r + 1}) = listed (m0 |` {..<b}) @ [res_value r]"
      "tail (inner sh2) = tail (inner sh)" "len (inner sh2) \<le> len (inner sh)" "bytes (inner sh2) \<le> bytes (inner sh)"
      by blast
    have "plain (listed (items_of (view (store sh2)))) cs = Some (out1, rest)" using x t(5) by simp
    from Cons.IH [OF t(3) this] Cons.prems(3-7) Client_Take t x show ?thesis by (auto simp: same_policy_def)
  qed
qed

text \<open>Reserving without acking changes neither contents nor log.\<close>

lemma hold_runs:
  assumes "sinv (store sh)" and "wf_queue (view (store sh)) sh" and "on_disk view stable a m0 (store sh)"
    and "store_errors S = {}"
  shows "\<exists>sh1. hold S sh n = Some sh1 \<and> sinv (store sh1) \<and> on_disk view stable a m0 (store sh1) \<and>
    view (store sh1) = view (store sh)"
  using assms(1-3)
proof (induction n arbitrary: sh)
  case (Suc n)
  obtain res sh1 where r: "reserve S sh = Some (res, sh1)" "view (store sh1) = view (store sh)"
    "wf_queue (view (store sh1)) sh1"
    by (rule atomic_store.reserve_refines [OF calm_atomic [OF assms(4)] Suc.prems(1,2)], rule that) assumption+
  have "sinv (store sh1) \<and> on_disk view stable a m0 (store sh1)"
    by (rule reserve_keeps(1) [where P = "\<lambda>st. sinv st \<and> on_disk view stable a m0 st", OF r(1)])
      (use Suc.prems seek_on_disk in blast)+
  with Suc.IH [of sh1] r show ?case by simp
qed simp

text \<open>What is on disk lists as some of the taken values followed by the queue.\<close>

lemma disk_listed:
  assumes "on_disk view stable a m0 st" and "items_of (view st) = m0 |` {b..}"
  shows "\<exists>ys. listed (items_of (stable st)) = ys @ listed (items_of (view st)) \<and> subseq ys (listed (m0 |` {..<b})) \<and>
    (a \<longrightarrow> ys = [])"
proof -
  let ?d = "items_of (stable st)"
  note d = on_diskD [OF assms(1)]
  have up: "?d |` {b..} = items_of (view st)"
  proof
    fix x
    show "(?d |` {b..}) x = items_of (view st) x"
    proof (cases "m0 x")
      case None
      then have "?d x = None" using map_leD [OF d(6), of x] by (cases "?d x") auto
      with None show ?thesis by (simp add: assms(2) restrict_map_def)
    next
      case (Some v)
      then show ?thesis using map_leD [OF d(5), of x v] by (auto simp: assms(2) restrict_map_def)
    qed
  qed
  have low: "?d |` {..<b} \<subseteq>\<^sub>m m0 |` {..<b}" using d(6) by (auto simp: map_le_def restrict_map_def)
  have "listed (?d |` {..<b}) = []" if a
  proof -
    have "?d |` {..<b} = Map.empty" using d(7) [OF that] by (auto simp: assms(2) restrict_map_def fun_eq_iff)
    then show ?thesis by simp
  qed
  then show ?thesis
    using listed_split [of ?d b] listed_subseq [OF low] unfolding up by blast
qed

end

section \<open>Property\<close>

text \<open>C7. Sessions survive a crash in order. Take a crash-safe store that reports no error and a durable
  open queue with nothing in flight, whose items are on disk and no other format version. Any
  session of pushes and takes (reserve and ack) that a plain list allows and the bounds admit runs,
  takes the values the list gives, and then any number of items may be reserved without an ack.
  Crash there: opening the store again, with any settings, succeeds, and draining it returns
  exactly what the session left, in order. Values that were acked come back, first and in order,
  only if acks are not durable.\<close>

theorem session_survives_crash:
  assumes "durable_store S sinv view disk restart" and "store_errors S = {}"
    and "sinv (store sh)" and "wf_queue (view (store sh)) sh"
    and "\<not> closed (inner sh)" and "reserved (inner sh) = {}" and "durable sh"
    and "only_queue_keys (disk (store sh))" and "items_of (disk (store sh)) = items_of (view (store sh))"
    and "{stored_version (view (store sh)), stored_version (disk (store sh))} \<subseteq> {None, Some FORMAT_VERSION}"
    and "plain (a_list (abs_queue (view (store sh)) sh)) cs = Some (out, rest)"
    and "len (inner sh) + length (pushed cs) \<le> capacity sh" and "capacity sh \<le> usize_max"
    and "bytes (inner sh) + sum_list (map length (pushed cs)) \<le> max_bytes sh" and "max_bytes sh \<le> usize_max"
    and "unat (tail (inner sh)) + length (pushed cs) < 2 ^ 64"
  shows "\<exists>sh1 sh2. session S sh cs = Some (out, sh1) \<and> hold S sh1 n = Some sh2 \<and>
    (\<forall>b. b_store b = restart (store sh2) \<longrightarrow> (\<exists>sh3 st ys sh4. open_queue S b = Some (Ok sh3, st) \<and>
       drain S sh3 (queue_len sh3) = Some (ys @ rest, sh4) \<and> items_of (view (store sh4)) = Map.empty \<and>
       subseq ys out \<and> (ack_durable sh \<longrightarrow> ys = [])))"
proof -
  let ?m0 = "items_of (view (store sh))"
  have SC: "store_contract S sinv view" using assms(1) by (rule durable_store.axioms(1))
  have all: "{0 :: u64..} = UNIV" "{..<0 :: u64} = {}" by auto
  have none: "listed (?m0 |` {..<0}) = []" by (simp add: all)
  have log: "logged sinv view disk sh ?m0 0"
    using assms(3-10) wf_queueD(1) [OF assms(4)] wf_queueD(4) [OF assms(4)]
    by (auto simp: logged_def on_disk_def all)
  have "plain (listed ?m0) cs = Some (out, rest)"
    using assms(11) by (simp add: a_list_listed abs_queue_def)
  from durable_store.session_runs [OF assms(1,2) log this assms(12-16)] obtain sh1 m1 b1 where s: "session S sh cs = Some (out, sh1)" "logged sinv view disk sh1 m1 b1"
    "same_policy sh sh1" "listed (items_of (view (store sh1))) = rest" "listed (m1 |` {..<b1}) = out"
    "weight length m1 = weight length ?m0 + sum_list (map length (pushed cs))"
    unfolding none append_Nil by blast
  note l = loggedD [OF s(2)]
  obtain sh2 where h: "hold S sh1 n = Some sh2" "sinv (store sh2)"
    "on_disk view disk (ack_durable sh1) m1 (store sh2)" "view (store sh2) = view (store sh1)"
    using durable_store.hold_runs [OF assms(1) l(1,2,6) assms(2)] by blast
  note d = on_diskD [OF h(3)]
  let ?m = "items_of (disk (store sh2))"
  obtain ys where y: "listed ?m = ys @ rest" "subseq ys out" "ack_durable sh \<longrightarrow> ys = []"
    using durable_store.disk_listed [OF assms(1) h(3), of b1] l(7) s(3-5) by (auto simp: h(4) same_policy_def)
  have last: "?m (- 1) = None"
    using map_leD [OF d(6), of "- 1"] l(8) by (cases "?m (- 1)") (auto dest: less_not_max)
  have fits: "weight length ?m \<le> usize_max"
    using weight_mono [OF d(6)] s(6) wf_queueD(7) [OF assms(4)] assms(14,15) by simp
  have "\<exists>sh3 st sh4. open_queue S b = Some (Ok sh3, st) \<and> drain S sh3 (queue_len sh3) = Some (ys @ rest, sh4) \<and>
      items_of (view (store sh4)) = Map.empty" if b: "b_store b = restart (store sh2)" for b
  proof -
    have v: "sinv (b_store b)" "view (b_store b) = disk (store sh2)"
      using durable_store.crash_sinv [OF assms(1) h(2)] durable_store.crash_view [OF assms(1) h(2)] by (simp_all add: b)
    obtain res st where o: "open_queue S b = Some (res, st)" "case res of
       Ok sh' \<Rightarrow> store sh' = st \<and> sinv st \<and> wf_queue (view st) sh' \<and> stored_version (view st) = Some FORMAT_VERSION \<and>
         items_of (view st) = ?m \<and> reserved (inner sh') = {}
     | Err (Open_Store e) \<Rightarrow> e \<in> store_errors S
     | Err (UnsupportedVersion x) \<Rightarrow> False
     | Panic \<Rightarrow> usize_max < weight length ?m"
      using reopened [OF SC v(1), unfolded v(2), OF d(2,4) last] by blast
    then obtain sh3 where ok: "res = Ok sh3" using assms(2) fits by (cases res) (auto split: OpenError.splits)
    with o(2) have w: "sinv (store sh3)" "wf_queue (view (store sh3)) sh3" "reserved (inner sh3) = {}"
      "items_of (view (store sh3)) = ?m" by auto
    obtain sh4 where "drain S sh3 (queue_len sh3) = Some (a_list (abs_queue (view (store sh3)) sh3), sh4)"
      "items_of (view (store sh4)) = Map.empty"
      using atomic_store.drain_abs [OF durable_store.calm_atomic [OF assms(1,2)] w(1,2) assms(2) w(3) wf_queueD(6) [OF w(2)]]
      by (auto simp: queue_len_def)
    with o(1) ok y(1) show ?thesis by (auto simp: a_list_listed abs_queue_def w(4))
  qed
  with s(1) h(1) y(2,3) show ?thesis by blast
qed

section \<open>A run\<close>

text \<open>The tests' disk, told before every commit to stop failing, reports no error.\<close>

definition steady :: "(shared_mem, fault_error) Store" where
  "steady = SharedMem\<lparr>commit := \<lambda>s. sm_commit (sm_stop_failing s)\<rparr>"

lemma steady_sel:
  "get steady = sm_get" "seek steady = sm_seek" "seek_back steady = sm_seek_back"
  "commit steady s = commit SharedMem (sm_stop_failing s)"
  by (simp_all add: steady_def)

lemma stopped [simp]:
  "sm_inv (sm_stop_failing s) = sm_inv s" "live (sm_stop_failing s) = live s" "synced (sm_stop_failing s) = synced s"
  by (simp_all add: sm_stop_failing_def sm_inv_def)

lemma steady_calm: "store_errors steady = {}"
  by (simp add: store_errors_def steady_sel sm_defs sm_stop_failing_def Let_def)

lemma steady_commit:
  "commit steady s ops d = (Inr (), s\<lparr>live := foldl mem_apply (live s) ops,
     synced := (if d then foldl mem_apply (live s) ops else synced s),
     commits := (commits s + 1) mod (usize_max + 1), fail_at := None\<rparr>)"
  by (simp add: steady_sel sm_commit_def sm_stop_failing_def Let_def)

lemma steady_durable: "durable_store steady sm_inv sm_view sm_stable sm_crash"
  by unfold_locales
    (auto simp: steady_sel(1-3) steady_commit sm_get_def sm_seek_def sm_seek_back_def sm_crash_def sm_inv_def
      mem_apply_all bt_next_least bt_next_back_greatest)

lemma demo_session_state:
  "\<not> closed (inner demo_durable)" "reserved (inner demo_durable) = {}"
  "{stored_version (sm_view (store demo_durable)), stored_version (sm_stable (store demo_durable))} \<subseteq> {None, Some FORMAT_VERSION}"
  "a_list (abs_queue (sm_view (store demo_durable)) demo_durable) = [[7]]"
  "len (inner demo_durable) = 1" "bytes (inner demo_durable) = 1" "tail (inner demo_durable) = 1"
  "capacity demo_durable = 4" "max_bytes demo_durable = 100" "ack_durable demo_durable"
  by (simp_all add: demo_durable_def demo_queue_def demo_disk_def demo_store_def stored_version_def FORMAT_VERSION_def
      a_list_listed listed_def abs_queue_def items_of_def)

theorem session_survives_crash_witness:
  "\<exists>sh1 sh2 sh3 st sh4. session steady demo_durable [Client_Push [8], Client_Take, Client_Push [9]] = Some ([[7]], sh1) \<and>
    hold steady sh1 1 = Some sh2 \<and> open_queue steady (builder_new (sm_crash (store sh2))) = Some (Ok sh3, st) \<and>
    drain steady sh3 (queue_len sh3) = Some ([[8], [9]], sh4)"
proof -
  let ?cs = "[Client_Push [8], Client_Take, Client_Push [9]] :: Client list"
  have p: "plain (a_list (abs_queue (sm_view (store demo_durable)) demo_durable)) ?cs = Some ([[7]], [[8], [9]])"
    by (simp add: demo_session_state)
  have room: "len (inner demo_durable) + length (pushed ?cs) \<le> capacity demo_durable" "capacity demo_durable \<le> usize_max"
    "bytes (inner demo_durable) + sum_list (map length (pushed ?cs)) \<le> max_bytes demo_durable"
    "max_bytes demo_durable \<le> usize_max" "unat (tail (inner demo_durable)) + length (pushed ?cs) < 2 ^ 64"
    by (simp_all add: demo_session_state)
  from session_survives_crash [OF steady_durable steady_calm demo_durable_ok(1,2) demo_session_state(1,2) demo_durable_ok(3-5)
      demo_session_state(3) p room, of 1] obtain sh1 sh2 where s: "session steady demo_durable ?cs = Some ([[7]], sh1)"
    "hold steady sh1 1 = Some sh2" "\<And>b. b_store b = sm_crash (store sh2) \<Longrightarrow> \<exists>sh3 st ys sh4. open_queue steady b = Some (Ok sh3, st) \<and>
       drain steady sh3 (queue_len sh3) = Some (ys @ [[8], [9]], sh4) \<and> ys = []"
    using demo_session_state(10) by blast
  from s(3) [of "builder_new (sm_crash (store sh2))"] s(1,2) show ?thesis by auto
qed

end
