(* ===== verification/Alone.thy ===== *)
theory Alone imports Delivery begin

text \<open>
  Group commit with nobody else waiting (\<open>Shared::group_commit\<close> of \<open>src/src/queue.rs\<close>), over any
  store at all: the batch machinery is then a durable commit of the one entry, tried again once
  when it fails.
\<close>

section \<open>The reference\<close>

definition commit_retrying :: "('s, 'e) Store \<Rightarrow> 's Shared \<Rightarrow> Op list \<Rightarrow> ('e + unit) \<times> 's Shared" where
  "commit_retrying S sh ops =
     (case commit_to S sh ops True of
        (Inr u, sh1) \<Rightarrow> (Inr u, sh1)
      | (Inl e, sh1) \<Rightarrow> commit_to S sh1 ops True)"

text \<open>A commit neither reads nor writes the group state.\<close>

lemma commit_to_group_state:
  "commit_to S (sh\<lparr>group_state := g\<rparr>) ops d = apsnd (\<lambda>sh1. sh1\<lparr>group_state := g\<rparr>) (commit_to S sh ops d)"
  by (cases "commit S (store sh) ops d") (simp add: commit_to_def)

lemma commit_to_keeps_group: "commit_to S sh ops d = (r, sh1) \<Longrightarrow> group_state sh1 = group_state sh"
  by (auto simp: commit_to_def split: prod.splits)

lemma lone_lead:
  assumes "pending g = [(q, v)]" and "commit_to S sh [Put (entry_key q) v] True = (r, sh1)"
  shows "group_lead S (sh\<lparr>group_state := g\<rparr>) = Some (sh1\<lparr>group_state :=
    g\<lparr>pending := [], flushing := False, done_map := (done_map g)(q \<mapsto> r = Inr ())\<rparr>\<rparr>)"
  using assms
  by (simp add: group_lead.simps group_take_def batch_ops_def group_record_def commit_to_group_state)

section \<open>Property\<close>

text \<open>C24. A lone group commit. When no batch is pending, no leader is at work and no outcome is
  recorded for the number, \<open>group_commit\<close> returns, over any store: it is a durable commit of the
  entry with one retry, it returns the error of the retry, and leaves the group state as it was.\<close>

theorem lone_group_commit:
  assumes "pending (group_state sh) = []" and "\<not> flushing (group_state sh)"
    and "done_map (group_state sh) q = None"
  shows "group_commit S sh q v = Some (commit_retrying S sh [Put (entry_key q) v])"
proof -
  let ?g = "(group_state sh)\<lparr>pending := [(q, v)], flushing := True\<rparr>"
  obtain r sh1 where c: "commit_to S sh [Put (entry_key q) v] True = (r, sh1)" by fastforce
  note g = commit_to_keeps_group [OF c]
  have eqs: "sh1\<lparr>group_state := group_state sh\<rparr> = sh1"
    "(done_map (group_state sh))(q := None) = done_map (group_state sh)"
    "(group_state sh)\<lparr>pending := [], flushing := False\<rparr> = group_state sh"
    using assms by (auto simp: g [symmetric])
  have "group_enqueue (group_state sh) q v = (group_state sh)\<lparr>pending := [(q, v)]\<rparr>"
    using assms(1) by (simp add: group_enqueue_def)
  moreover have "group_lead S (sh\<lparr>group_state := ?g\<rparr>) = Some (sh1\<lparr>group_state :=
      (group_state sh)\<lparr>pending := [], flushing := False, done_map := (done_map (group_state sh))(q \<mapsto> r = Inr ())\<rparr>\<rparr>)"
    using lone_lead [of ?g q v S sh r sh1] c by simp
  ultimately show ?thesis
    using assms(2) c by (cases r) (simp_all add: group_commit_def commit_retrying_def group_outcome_def Let_def eqs)
qed

theorem lone_group_commit_witness:
  "group_commit SharedMem \<lparr>store = sm_new\<lparr>fail_at := Some 0\<rparr>, capacity = 4, max_bytes = 9, durable = True,
      ack_durable = True, group = True, inner = \<lparr>tail = 1, head = 0, acked_above = {}, len = 1, bytes = 1,
      reserved = {}, closed = False\<rparr>, group_state = group_default\<rparr> 0 [7] =
    Some (Inl FaultError, \<lparr>store = sm_new\<lparr>fail_at := Some 0, commits := 2\<rparr>, capacity = 4, max_bytes = 9,
      durable = True, ack_durable = True, group = True, inner = \<lparr>tail = 1, head = 0, acked_above = {},
      len = 1, bytes = 1, reserved = {}, closed = False\<rparr>, group_state = group_default\<rparr>)"
  by (subst lone_group_commit)
    (simp_all add: group_default_def commit_retrying_def commit_to_def sm_commit_def sm_new_def Let_def)

end
