(* ===== verification/Backends.thy ===== *)
theory Backends imports FaultStore begin

text \<open>
  What the three durable backends (\<open>src/src/store.rs\<close>, lines 104--354) share. Their databases
  (sled, redb, RocksDB) are not part of the repository, so each is a record of the functions its
  backend calls (\<open>Sled\<close>, \<open>Redb\<close>, \<open>Rocks\<close>), and what the library documents is a predicate on
  that record, put together here from laws on single calls. A call that can fail returns \<open>Inl\<close>
  with the library's error, and a range iterator's \<open>next\<close> is an optional result. The two lemmas
  at the end give the contracts of \<open>Store\<close> to any backend whose operations keep these laws.
\<close>

section \<open>A step of a range iterator\<close>

text \<open>\<open>Some(r) => Ok(Some(r?))\<close>, \<open>None => Ok(None)\<close>\<close>

fun transpose_next :: "('e + 'a) option \<Rightarrow> 'e + 'a option" where
  "transpose_next None = Inr None"
| "transpose_next (Some (Inl e)) = Inl e"
| "transpose_next (Some (Inr kv)) = Inr (Some kv)"

lemma transpose_next_Inr [simp]: "transpose_next (map_option Inr kv) = Inr kv"
  by (cases kv) simp_all

section \<open>Laws of a library call\<close>

text \<open>\<open>dinv\<close> is the library's invariant and \<open>view\<close> the map a reader sees. A read returns what
  the map holds; a write applies its batch as a whole or, when it fails, possibly not at all, and
  the last operation on a key wins.\<close>

definition next_lawful :: "('d \<Rightarrow> bool) \<Rightarrow> ('d \<Rightarrow> key \<rightharpoonup> val) \<Rightarrow>
    ((key \<rightharpoonup> val) \<Rightarrow> key \<Rightarrow> KeyValue option \<Rightarrow> bool) \<Rightarrow> ('d \<Rightarrow> key \<Rightarrow> ('e + KeyValue) option \<times> 'd) \<Rightarrow> bool" where
  "next_lawful dinv view ok f \<longleftrightarrow> (\<forall>d k r d'. dinv d \<longrightarrow> f d k = (r, d') \<longrightarrow> dinv d' \<and> view d' = view d \<and>
     (\<forall>kv. transpose_next r = Inr kv \<longrightarrow> ok (view d) k kv))"

definition get_lawful :: "('d \<Rightarrow> bool) \<Rightarrow> ('d \<Rightarrow> key \<rightharpoonup> val) \<Rightarrow> ('d \<Rightarrow> key \<Rightarrow> ('e + val option) \<times> 'd) \<Rightarrow> bool" where
  "get_lawful dinv view f \<longleftrightarrow> (\<forall>d k r d'. dinv d \<longrightarrow> f d k = (r, d') \<longrightarrow> dinv d' \<and> view d' = view d \<and>
     (\<forall>v. r = Inr v \<longrightarrow> v = view d k))"

definition batch_lawful :: "'b \<Rightarrow> ('b \<Rightarrow> key \<Rightarrow> val \<Rightarrow> 'b) \<Rightarrow> ('b \<Rightarrow> key \<Rightarrow> 'b) \<Rightarrow>
    ('b \<Rightarrow> (key \<rightharpoonup> val) \<Rightarrow> key \<rightharpoonup> val) \<Rightarrow> bool" where
  "batch_lawful new ins del upd \<longleftrightarrow> (\<forall>b k v m. upd new m = m \<and>
     upd (ins b k v) m = (upd b m)(k \<mapsto> v) \<and> upd (del b k) m = (upd b m)(k := None))"

definition write_lawful :: "('d \<Rightarrow> bool) \<Rightarrow> ('d \<Rightarrow> key \<rightharpoonup> val) \<Rightarrow>
    ('b \<Rightarrow> (key \<rightharpoonup> val) \<Rightarrow> key \<rightharpoonup> val) \<Rightarrow> ('d \<Rightarrow> 'b \<Rightarrow> ('e + unit) \<times> 'd) \<Rightarrow> bool" where
  "write_lawful dinv view upd f \<longleftrightarrow> (\<forall>d b r d'. dinv d \<longrightarrow> f d b = (r, d') \<longrightarrow> dinv d' \<and>
     (view d' = upd b (view d) \<or> view d' = view d \<and> r \<noteq> Inr ()))"

definition silent :: "('d \<Rightarrow> bool) \<Rightarrow> ('d \<Rightarrow> key \<rightharpoonup> val) \<Rightarrow> ('d \<Rightarrow> 'r \<times> 'd) \<Rightarrow> bool" where
  "silent dinv view f \<longleftrightarrow> (\<forall>d r d'. dinv d \<longrightarrow> f d = (r, d') \<longrightarrow> dinv d' \<and> view d' = view d)"

text \<open>For crashes: what is on disk is moved there by a write or in the background.\<close>

definition drains :: "('d \<Rightarrow> bool) \<Rightarrow> ('d \<Rightarrow> key \<rightharpoonup> val) \<Rightarrow> ('d \<Rightarrow> key \<rightharpoonup> val) \<Rightarrow> ('d \<Rightarrow> 'r \<times> 'd) \<Rightarrow> bool" where
  "drains dinv view disk f \<longleftrightarrow> (\<forall>d r d' j. dinv d \<longrightarrow> f d = (r, d') \<longrightarrow>
     disk d' j = disk d j \<or> disk d' j = view d j \<or> disk d' j = view d' j)"

lemma get_lawfulD:
  "get_lawful dinv view f \<Longrightarrow> dinv d \<Longrightarrow> f d k = (r, d') \<Longrightarrow>
     dinv d' \<and> view d' = view d \<and> (\<forall>v. r = Inr v \<longrightarrow> v = view d k)"
  unfolding get_lawful_def by blast

lemma next_lawfulD:
  "next_lawful dinv view ok f \<Longrightarrow> dinv d \<Longrightarrow> f d k = (r, d') \<Longrightarrow>
     dinv d' \<and> view d' = view d \<and> (\<forall>kv. transpose_next r = Inr kv \<longrightarrow> ok (view d) k kv)"
  unfolding next_lawful_def by blast

lemma write_lawfulD:
  "write_lawful dinv view upd f \<Longrightarrow> dinv d \<Longrightarrow> f d b = (r, d') \<Longrightarrow>
     dinv d' \<and> (view d' = upd b (view d) \<or> view d' = view d \<and> r \<noteq> Inr ())"
  unfolding write_lawful_def by blast

lemma silentD: "silent dinv view f \<Longrightarrow> dinv d \<Longrightarrow> f d = (r, d') \<Longrightarrow> dinv d' \<and> view d' = view d"
  unfolding silent_def by blast

lemma drainsD:
  "drains dinv view disk f \<Longrightarrow> dinv d \<Longrightarrow> f d = (r, d') \<Longrightarrow>
     disk d' j = disk d j \<or> disk d' j = view d j \<or> disk d' j = view d' j"
  unfolding drains_def by blast

lemma batch_updates:
  assumes "batch_lawful new ins del upd"
    and "\<And>b k v. add b (Put k v) = ins b k v" and "\<And>b k. add b (Delete k) = del b k"
  shows "upd (foldl add new ops) m = apply_ops m ops"
proof -
  have "upd (foldl add b ops) m = apply_ops (upd b m) ops" for b
  proof (induction ops arbitrary: b)
    case (Cons x ops)
    have "upd (add b x) m = apply_op (upd b m) x"
      using assms(1) by (cases x) (simp_all add: assms(2,3) batch_lawful_def)
    with Cons show ?case by simp
  qed simp
  moreover have "upd new m = m" using assms(1) by (simp add: batch_lawful_def)
  ultimately show ?thesis by simp
qed

section \<open>The contracts\<close>

text \<open>The three backends have the contract for the same reason: reads are lawful, and a commit does
  all of the batch or (when it fails) possibly none of it.\<close>

lemma backend_contract:
  assumes "get_lawful dinv view (get S)"
    and "\<And>d k r d'. dinv d \<Longrightarrow> seek S d k = (r, d') \<Longrightarrow>
      dinv d' \<and> view d' = view d \<and> (\<forall>kv. r = Inr kv \<longrightarrow> least_from (view d) k kv)"
    and "\<And>d k r d'. dinv d \<Longrightarrow> seek_back S d k = (r, d') \<Longrightarrow>
      dinv d' \<and> view d' = view d \<and> (\<forall>kv. r = Inr kv \<longrightarrow> greatest_upto (view d) k kv)"
    and "\<And>d ops e r d'. dinv d \<Longrightarrow> commit S d ops e = (r, d') \<Longrightarrow>
      dinv d' \<and> (view d' = view d \<or> view d' = apply_ops (view d) ops) \<and>
      (r = Inr () \<longrightarrow> view d' = apply_ops (view d) ops)"
  shows "store_contract S dinv view"
proof
  fix st k g st' assume "dinv st" "get S st k = (g, st')"
  from get_lawfulD [OF assms(1) this] show "dinv st' \<and> view st' = view st" by blast
next
  fix st k v st' assume "dinv st" "get S st k = (Inr v, st')"
  from get_lawfulD [OF assms(1) this] show "v = view st k" by blast
next
  fix st ops d e st' k assume "dinv st" "commit S st ops d = (Inl e, st')"
  from assms(4) [OF this] have "view st' k = apply_ops (view st) (take 0 ops) k \<or>
    view st' k = apply_ops (view st) (take (length ops) ops) k" by auto
  then show "\<exists>n. view st' k = apply_ops (view st) (take n ops) k" by blast
next
  fix st k q st' assume "dinv st" "seek S st k = (q, st')"
  from assms(2) [OF this] show "dinv st' \<and> view st' = view st" by blast
next
  fix st k kv st' assume "dinv st" "seek S st k = (Inr kv, st')"
  from assms(2) [OF this] show "least_from (view st) k kv" by blast
next
  fix st k q st' assume "dinv st" "seek_back S st k = (q, st')"
  from assms(3) [OF this] show "dinv st' \<and> view st' = view st" by blast
next
  fix st k kv st' assume "dinv st" "seek_back S st k = (Inr kv, st')"
  from assms(3) [OF this] show "greatest_upto (view st) k kv" by blast
next
  fix st ops d c st' assume "dinv st" "commit S st ops d = (c, st')"
  from assms(4) [OF this] show "dinv st'" by blast
next
  fix st ops d st' assume "dinv st" "commit S st ops d = (Inr (), st')"
  from assms(4) [OF this] show "view st' = apply_ops (view st) ops" by blast
qed

text \<open>If nothing but a write or the background moves data to the disk, and a successful durable
  commit moves everything there, the backend survives crashes.\<close>

lemma backend_durable:
  assumes "store_contract S dinv view"
    and "\<And>k. drains dinv view disk (\<lambda>d. get S d k)" "\<And>k. drains dinv view disk (\<lambda>d. seek S d k)"
    and "\<And>k. drains dinv view disk (\<lambda>d. seek_back S d k)"
    and "\<And>ops e. drains dinv view disk (\<lambda>d. commit S d ops e)"
    and "\<And>d ops d'. dinv d \<Longrightarrow> commit S d ops True = (Inr (), d') \<Longrightarrow> disk d' = view d'"
    and "\<And>d. dinv d \<Longrightarrow> dinv (restart d) \<and> view (restart d) = disk d"
  shows "durable_store S dinv view disk restart"
proof (intro durable_store.intro durable_store_axioms.intro)
  note keeps = store_contract.get_keeps [OF assms(1)] store_contract.seek_keeps [OF assms(1)]
    store_contract.seek_back_keeps [OF assms(1)]
  show "store_contract S dinv view" by (rule assms(1))
  fix st assume st: "dinv st"
  from assms(7) [OF st] show "dinv (restart st)" "view (restart st) = disk st" by blast+
  fix j
  show "disk st' j \<in> {disk st j, view st j}" if "get S st k = (r, st')" for k r st'
    using drainsD [OF assms(2) st that, of j] keeps(1) [OF st that] by auto
  show "disk st' j \<in> {disk st j, view st j}" if "seek S st k = (q, st')" for k q st'
    using drainsD [OF assms(3) st that, of j] keeps(2) [OF st that] by auto
  show "disk st' j \<in> {disk st j, view st j}" if "seek_back S st k = (q, st')" for k q st'
    using drainsD [OF assms(4) st that, of j] keeps(3) [OF st that] by auto
  show "disk st' j \<in> {disk st j, view st j, view st' j}" if "commit S st ops d = (c, st')" for ops d c st'
    using drainsD [OF assms(5) st that, of j] by auto
  show "disk st' j = view st' j" if "commit S st ops True = (Inr (), st')" for ops st'
    using assms(6) [OF st that] by simp
qed

section \<open>Calls that keep the laws\<close>

text \<open>The test suite's disk gives each library record concrete functions that keep these laws.\<close>

definition sm_next :: "(shared_mem \<Rightarrow> key \<Rightarrow> (fault_error + KeyValue option) \<times> shared_mem) \<Rightarrow>
    shared_mem \<Rightarrow> key \<Rightarrow> (fault_error + KeyValue) option \<times> shared_mem" where
  "sm_next f d k = (case f d k of (Inl e, d) \<Rightarrow> (Some (Inl e), d) | (Inr kv, d) \<Rightarrow> (map_option Inr kv, d))"

definition sm_updates :: "Op list \<Rightarrow> (key \<rightharpoonup> val) \<Rightarrow> key \<rightharpoonup> val" where
  "sm_updates ops m = apply_ops m ops"

lemma sm_next_lawful:
  "next_lawful sm_inv sm_view least_from (sm_next sm_seek)"
  "next_lawful sm_inv sm_view greatest_upto (sm_next sm_seek_back)"
  by (auto simp: next_lawful_def sm_next_def sm_seek_def sm_seek_back_def bt_next_least
      bt_next_back_greatest sm_inv_ordered)

lemma sm_get_lawful: "get_lawful sm_inv sm_view sm_get"
  by (simp add: get_lawful_def sm_get_def)

lemma sm_batch_lawful:
  "batch_lawful [] (\<lambda>b k v. b @ [Put k v]) (\<lambda>b k. b @ [Delete k]) sm_updates"
  by (simp add: batch_lawful_def sm_updates_def)

lemma sm_commit_effect:
  assumes "sm_inv d" and "sm_commit d b e = (r, d')"
  shows "sm_inv d'" "sm_view d' = sm_updates b (sm_view d) \<or> sm_view d' = sm_view d \<and> r \<noteq> Inr ()"
    "sm_stable d' = sm_stable d \<or> sm_stable d' = sm_view d'"
    "e \<Longrightarrow> r = Inr () \<Longrightarrow> sm_stable d' = sm_view d'"
proof -
  show "sm_inv d'" using assms by (rule sm_commit_keeps)
  have "(sm_view d' = sm_updates b (sm_view d) \<or> sm_view d' = sm_view d \<and> r \<noteq> Inr ()) \<and>
    (sm_stable d' = sm_stable d \<or> sm_stable d' = sm_view d') \<and>
    (e \<longrightarrow> r = Inr () \<longrightarrow> sm_stable d' = sm_view d')"
    using assms by (cases r) (auto simp: sm_inv_ordered mem_apply_all sm_updates_def
        dest!: sm_commit_Err sm_commit_Ok split: if_splits)
  then show "sm_view d' = sm_updates b (sm_view d) \<or> sm_view d' = sm_view d \<and> r \<noteq> Inr ()"
    "sm_stable d' = sm_stable d \<or> sm_stable d' = sm_view d'"
    "e \<Longrightarrow> r = Inr () \<Longrightarrow> sm_stable d' = sm_view d'" by blast+
qed

lemma sm_write_lawful: "write_lawful sm_inv sm_view sm_updates (\<lambda>d b. sm_commit d b e)"
  using sm_commit_effect(1,2) unfolding write_lawful_def by blast

lemma sm_drains:
  "drains sm_inv sm_view sm_stable (\<lambda>d. sm_get d k)"
  "drains sm_inv sm_view sm_stable (\<lambda>d. sm_next sm_seek d k)"
  "drains sm_inv sm_view sm_stable (\<lambda>d. sm_next sm_seek_back d k)"
  "drains sm_inv sm_view sm_stable (\<lambda>d. sm_commit d b e)"
proof -
  show "drains sm_inv sm_view sm_stable (\<lambda>d. sm_get d k)"
    "drains sm_inv sm_view sm_stable (\<lambda>d. sm_next sm_seek d k)"
    "drains sm_inv sm_view sm_stable (\<lambda>d. sm_next sm_seek_back d k)"
    by (auto simp: drains_def sm_get_def sm_next_def sm_seek_def sm_seek_back_def)
  show "drains sm_inv sm_view sm_stable (\<lambda>d. sm_commit d b e)"
    unfolding drains_def using sm_commit_effect(3) by metis
qed

lemma sm_flush_silent: "silent sm_inv sm_view (\<lambda>d. sm_commit d [] True)"
  unfolding silent_def using sm_commit_effect(1,2) [of _ "[]" True] by (simp add: sm_updates_def) blast

lemma sm_restart: "sm_inv d \<Longrightarrow> sm_inv (sm_crash d) \<and> sm_view (sm_crash d) = sm_stable d"
  by (simp add: sm_crash_def sm_inv_def)

end
