(* ===== verification/Sled.thy ===== *)
theory Sled imports Backends begin

text \<open>
  \<open>SledStore\<close> (\<open>src/src/store.rs\<close>, lines 104--175) over a sled database. \<open>sled_lawful\<close> and
  \<open>sled_survives\<close> are what sled documents of the functions called; under them the store keeps the
  contracts of \<open>Store\<close>. A commit is \<open>apply_batch\<close> and then, if durable, \<open>flush\<close>: when \<open>flush\<close>
  fails the batch stays applied, so this backend has no claim on \<open>atomic_store\<close>.
\<close>

section \<open>The backend\<close>

record ('d, 'b, 'e) sled =
  sled_open :: "string \<Rightarrow> 'e + 'd"
  sled_get :: "'d \<Rightarrow> key \<Rightarrow> ('e + val option) \<times> 'd"
  sled_range_next :: "'d \<Rightarrow> key \<Rightarrow> ('e + KeyValue) option \<times> 'd"
  sled_range_next_back :: "'d \<Rightarrow> key \<Rightarrow> ('e + KeyValue) option \<times> 'd"
  sled_batch :: 'b
  sled_insert :: "'b \<Rightarrow> key \<Rightarrow> val \<Rightarrow> 'b"
  sled_remove :: "'b \<Rightarrow> key \<Rightarrow> 'b"
  sled_apply_batch :: "'d \<Rightarrow> 'b \<Rightarrow> ('e + unit) \<times> 'd"
  sled_flush :: "'d \<Rightarrow> ('e + unit) \<times> 'd"

definition sled_seek :: "('d, 'b, 'e) sled \<Rightarrow> 'd \<Rightarrow> key \<Rightarrow> ('e + KeyValue option) \<times> 'd" where
  "sled_seek L db from = (case sled_range_next L db from of (r, db) \<Rightarrow> (transpose_next r, db))"

definition sled_seek_back :: "('d, 'b, 'e) sled \<Rightarrow> 'd \<Rightarrow> key \<Rightarrow> ('e + KeyValue option) \<times> 'd" where
  "sled_seek_back L db limit = (case sled_range_next_back L db limit of (r, db) \<Rightarrow> (transpose_next r, db))"

fun sled_add :: "('d, 'b, 'e) sled \<Rightarrow> 'b \<Rightarrow> Op \<Rightarrow> 'b" where
  "sled_add L batch (Put k v) = sled_insert L batch k v"
| "sled_add L batch (Delete k) = sled_remove L batch k"

definition sled_commit :: "('d, 'b, 'e) sled \<Rightarrow> 'd \<Rightarrow> Op list \<Rightarrow> bool \<Rightarrow> ('e + unit) \<times> 'd" where
  "sled_commit L db ops durable =
     (case sled_apply_batch L db (foldl (sled_add L) (sled_batch L) ops) of
        (Inl e, db) \<Rightarrow> (Inl e, db)
      | (Inr _, db) \<Rightarrow> if durable then sled_flush L db else (Inr (), db))"

text \<open>\<open>SledStore::open\<close>, and \<open>SledStore::from_db\<close>: the store is its database.\<close>

definition sled_from_db :: "'d \<Rightarrow> 'd" where
  "sled_from_db db = db"

definition sled_store_open :: "('d, 'b, 'e) sled \<Rightarrow> string \<Rightarrow> 'e + 'd" where
  "sled_store_open L path = (case sled_open L path of Inl e \<Rightarrow> Inl e | Inr db \<Rightarrow> Inr db)"

definition SledStore :: "('d, 'b, 'e) sled \<Rightarrow> ('d, 'e) Store" where
  "SledStore L = \<lparr>get = sled_get L, seek = sled_seek L, seek_back = sled_seek_back L, commit = sled_commit L\<rparr>"

section \<open>What sled documents\<close>

text \<open>\<open>flush\<close> changes nothing a reader sees; when it succeeds, all of it is on disk.\<close>

definition sled_lawful :: "('d, 'b, 'e) sled \<Rightarrow> ('d \<Rightarrow> bool) \<Rightarrow> ('d \<Rightarrow> key \<rightharpoonup> val) \<Rightarrow>
    ('b \<Rightarrow> (key \<rightharpoonup> val) \<Rightarrow> key \<rightharpoonup> val) \<Rightarrow> bool" where
  "sled_lawful L dinv view upd \<longleftrightarrow>
     get_lawful dinv view (sled_get L) \<and>
     next_lawful dinv view least_from (sled_range_next L) \<and>
     next_lawful dinv view greatest_upto (sled_range_next_back L) \<and>
     batch_lawful (sled_batch L) (sled_insert L) (sled_remove L) upd \<and>
     write_lawful dinv view upd (sled_apply_batch L) \<and>
     silent dinv view (sled_flush L)"

definition sled_survives :: "('d, 'b, 'e) sled \<Rightarrow> ('d \<Rightarrow> bool) \<Rightarrow> ('d \<Rightarrow> key \<rightharpoonup> val) \<Rightarrow>
    ('d \<Rightarrow> key \<rightharpoonup> val) \<Rightarrow> ('d \<Rightarrow> 'd) \<Rightarrow> bool" where
  "sled_survives L dinv view disk restart \<longleftrightarrow>
     (\<forall>k. drains dinv view disk (\<lambda>d. sled_get L d k)) \<and>
     (\<forall>k. drains dinv view disk (\<lambda>d. sled_range_next L d k)) \<and>
     (\<forall>k. drains dinv view disk (\<lambda>d. sled_range_next_back L d k)) \<and>
     (\<forall>b. drains dinv view disk (\<lambda>d. sled_apply_batch L d b)) \<and>
     drains dinv view disk (sled_flush L) \<and>
     (\<forall>d d'. dinv d \<longrightarrow> sled_flush L d = (Inr (), d') \<longrightarrow> disk d' = view d) \<and>
     (\<forall>d. dinv d \<longrightarrow> dinv (restart d) \<and> view (restart d) = disk d)"

section \<open>The contracts\<close>

lemma SledStore_sel [simp]:
  "get (SledStore L) = sled_get L" "seek (SledStore L) = sled_seek L"
  "seek_back (SledStore L) = sled_seek_back L" "commit (SledStore L) = sled_commit L"
  by (simp_all add: SledStore_def)

lemma sled_lawfulD:
  assumes "sled_lawful L dinv view upd"
  shows "get_lawful dinv view (sled_get L)" "next_lawful dinv view least_from (sled_range_next L)"
    "next_lawful dinv view greatest_upto (sled_range_next_back L)"
    "batch_lawful (sled_batch L) (sled_insert L) (sled_remove L) upd"
    "write_lawful dinv view upd (sled_apply_batch L)" "silent dinv view (sled_flush L)"
  using assms unfolding sled_lawful_def by blast+

lemma sled_survivesD:
  assumes "sled_survives L dinv view disk restart"
  shows "drains dinv view disk (\<lambda>d. sled_get L d k)" "drains dinv view disk (\<lambda>d. sled_range_next L d k)"
    "drains dinv view disk (\<lambda>d. sled_range_next_back L d k)" "drains dinv view disk (\<lambda>d. sled_apply_batch L d b)"
    "drains dinv view disk (sled_flush L)"
    "dinv d \<Longrightarrow> sled_flush L d = (Inr (), d') \<Longrightarrow> disk d' = view d"
    "dinv d \<Longrightarrow> dinv (restart d) \<and> view (restart d) = disk d"
  using assms unfolding sled_survives_def by blast+

lemma sled_commit_effect:
  assumes "sled_lawful L dinv view upd" and "dinv d" and "sled_commit L d ops durable = (r, d')"
  shows "dinv d'" "view d' = view d \<or> view d' = apply_ops (view d) ops"
    "r = Inr () \<Longrightarrow> view d' = apply_ops (view d) ops"
proof -
  note laws = sled_lawfulD [OF assms(1)]
  let ?b = "foldl (sled_add L) (sled_batch L) ops"
  obtain a d1 where a: "sled_apply_batch L d ?b = (a, d1)" by fastforce
  have u: "upd ?b (view d) = apply_ops (view d) ops"
    by (rule batch_updates [OF laws(4)]) simp_all
  have ap: "dinv d1 \<and> (view d1 = apply_ops (view d) ops \<or> view d1 = view d \<and> a \<noteq> Inr ())"
    using write_lawfulD [OF laws(5) assms(2) a] unfolding u .
  have fl: "dinv d2 \<and> view d2 = view d1" if "sled_flush L d1 = (x, d2)" for x d2
    using silentD [OF laws(6) _ that] ap by blast
  have "dinv d' \<and> (view d' = view d \<or> view d' = apply_ops (view d) ops) \<and>
    (r = Inr () \<longrightarrow> view d' = apply_ops (view d) ops)"
    using assms(3) ap fl a by (auto simp: sled_commit_def split: sum.splits if_splits)
  then show "dinv d'" "view d' = view d \<or> view d' = apply_ops (view d) ops"
    "r = Inr () \<Longrightarrow> view d' = apply_ops (view d) ops" by blast+
qed

lemma sled_store_contract:
  assumes "sled_lawful L dinv view upd"
  shows "store_contract (SledStore L) dinv view"
proof (rule backend_contract)
  show "get_lawful dinv view (get (SledStore L))" using sled_lawfulD(1) [OF assms] by simp
next
  fix d k r d' assume d: "dinv d" "seek (SledStore L) d k = (r, d')"
  then obtain x where x: "sled_range_next L d k = (x, d')" "r = transpose_next x"
    by (auto simp: sled_seek_def split: prod.splits)
  from next_lawfulD [OF sled_lawfulD(2) [OF assms] d(1) x(1)] x(2)
  show "dinv d' \<and> view d' = view d \<and> (\<forall>kv. r = Inr kv \<longrightarrow> least_from (view d) k kv)" by simp
next
  fix d k r d' assume d: "dinv d" "seek_back (SledStore L) d k = (r, d')"
  then obtain x where x: "sled_range_next_back L d k = (x, d')" "r = transpose_next x"
    by (auto simp: sled_seek_back_def split: prod.splits)
  from next_lawfulD [OF sled_lawfulD(3) [OF assms] d(1) x(1)] x(2)
  show "dinv d' \<and> view d' = view d \<and> (\<forall>kv. r = Inr kv \<longrightarrow> greatest_upto (view d) k kv)" by simp
next
  fix d ops e r d' assume "dinv d" "commit (SledStore L) d ops e = (r, d')"
  with sled_commit_effect [OF assms, of d ops e r d']
  show "dinv d' \<and> (view d' = view d \<or> view d' = apply_ops (view d) ops) \<and>
      (r = Inr () \<longrightarrow> view d' = apply_ops (view d) ops)" by auto
qed

lemma drains_sled_commit:
  assumes "sled_lawful L dinv view upd" and "sled_survives L dinv view disk restart"
  shows "drains dinv view disk (\<lambda>d. sled_commit L d ops e)"
    and "dinv d \<Longrightarrow> sled_commit L d ops True = (Inr (), d') \<Longrightarrow> disk d' = view d'"
proof -
  note laws = sled_lawfulD [OF assms(1)] and live = sled_survivesD [OF assms(2)]
  let ?b = "foldl (sled_add L) (sled_batch L) ops"
  have flush: "dinv d1 \<and> view d2 = view d1 \<and> (r = Inr () \<longrightarrow> disk d2 = view d2)"
    if "dinv d" "sled_apply_batch L d ?b = (a, d1)" "sled_flush L d1 = (r, d2)" for d a d1 r d2
    using write_lawfulD [OF laws(5) that(1,2)] silentD [OF laws(6) _ that(3)] live(6) [of d1 d2] that(3)
    by auto
  show "drains dinv view disk (\<lambda>d. sled_commit L d ops e)"
    unfolding drains_def
  proof (intro allI impI)
    fix d r d' j assume d: "dinv d" and c: "sled_commit L d ops e = (r, d')"
    obtain a d1 where a: "sled_apply_batch L d ?b = (a, d1)" by fastforce
    note dr = drainsD [OF live(4) d a, of j]
    show "disk d' j = disk d j \<or> disk d' j = view d j \<or> disk d' j = view d' j"
    proof (cases "d' = d1")
      case True
      with dr show ?thesis by blast
    next
      case False
      with c a have f: "sled_flush L d1 = (r, d')"
        by (auto simp: sled_commit_def split: sum.splits if_splits)
      from flush [OF d a f] drainsD [OF live(5) _ f, of j] dr show ?thesis by auto
    qed
  qed
  show "disk d' = view d'" if d: "dinv d" and c: "sled_commit L d ops True = (Inr (), d')"
  proof -
    obtain a d1 where a: "sled_apply_batch L d ?b = (a, d1)" by fastforce
    with c have f: "sled_flush L d1 = (Inr (), d')"
      by (auto simp: sled_commit_def split: sum.splits)
    from flush [OF d a f] show ?thesis by blast
  qed
qed

text \<open>C26. Over a sled database that behaves as documented, the \<open>SledStore\<close> backend keeps the whole
  contract of a durable \<open>Store\<close>: exact reads, exact forward and backward seeks, commits that
  apply the batch in order, and, once a durable commit has returned, contents that a crash keeps.\<close>

theorem sled_durable_store:
  assumes "sled_lawful L dinv view upd" and "sled_survives L dinv view disk restart"
  shows "durable_store (SledStore L) dinv view disk restart"
proof (rule backend_durable)
  note live = sled_survivesD [OF assms(2)]
  show "store_contract (SledStore L) dinv view" by (rule sled_store_contract [OF assms(1)])
  show "drains dinv view disk (\<lambda>d. get (SledStore L) d k)" for k using live(1) by simp
  show "drains dinv view disk (\<lambda>d. seek (SledStore L) d k)" for k
    using live(2) [of k] by (auto simp: drains_def sled_seek_def split: prod.splits)
  show "drains dinv view disk (\<lambda>d. seek_back (SledStore L) d k)" for k
    using live(3) [of k] by (auto simp: drains_def sled_seek_back_def split: prod.splits)
  show "drains dinv view disk (\<lambda>d. commit (SledStore L) d ops e)" for ops e
    using drains_sled_commit(1) [OF assms] by simp
  show "disk d' = view d'" if "dinv d" "commit (SledStore L) d ops True = (Inr (), d')" for d ops d'
    using drains_sled_commit(2) [OF assms] that by simp
  show "dinv (restart d) \<and> view (restart d) = disk d" if "dinv d" for d
    by (rule live(7) [OF that])
qed

section \<open>A library that keeps the laws\<close>

definition sm_sled :: "(shared_mem, Op list, fault_error) sled" where
  "sm_sled = \<lparr>sled_open = \<lambda>path. Inr sm_new, sled_get = sm_get, sled_range_next = sm_next sm_seek,
     sled_range_next_back = sm_next sm_seek_back, sled_batch = [],
     sled_insert = \<lambda>b k v. b @ [Put k v], sled_remove = \<lambda>b k. b @ [Delete k],
     sled_apply_batch = \<lambda>d b. sm_commit d b False, sled_flush = \<lambda>d. sm_commit d [] True\<rparr>"

lemma sm_sled_lawful: "sled_lawful sm_sled sm_inv sm_view sm_updates"
  by (simp add: sled_lawful_def sm_sled_def sm_get_lawful sm_next_lawful sm_batch_lawful
      sm_write_lawful sm_flush_silent)

lemma sm_sled_survives: "sled_survives sm_sled sm_inv sm_view sm_stable sm_crash"
proof -
  have "sm_stable d' = sm_view d" if "sm_inv d" "sm_commit d [] True = (Inr (), d')" for d d'
    using sm_commit_effect(2,4) [OF that] by (simp add: sm_updates_def)
  then show ?thesis
    by (simp add: sled_survives_def sm_sled_def sm_drains sm_restart)
qed

theorem sled_durable_store_witness:
  "durable_store (SledStore sm_sled) sm_inv sm_view sm_stable sm_crash \<and>
   fst (commit (SledStore sm_sled) sm_new [Put [1] [7]] True) = Inr ()"
proof
  show "durable_store (SledStore sm_sled) sm_inv sm_view sm_stable sm_crash"
    by (rule sled_durable_store [OF sm_sled_lawful sm_sled_survives])
  show "fst (commit (SledStore sm_sled) sm_new [Put [1] [7]] True) = Inr ()"
    by (simp add: sled_commit_def sm_sled_def sm_commit_def sm_new_def)
qed

end
