(* ===== verification/Flush.thy ===== *)
theory Flush imports Sled Recovery begin

text \<open>
  A failed \<open>flush\<close> of sled, as a run of the code. \<open>SledStore::commit\<close> applies the batch before it
  flushes (\<open>src/src/store.rs\<close>, lines 169--172), and \<open>Producer::write\<close> takes every error to mean
  that nothing was written (\<open>src/src/queue.rs\<close>, lines 362--366).
\<close>

text \<open>A sled whose \<open>flush\<close> fails while \<open>fail_at\<close> is set; it keeps all documented laws.\<close>

definition flaky_sled :: "(shared_mem, Op list, fault_error) sled" where
  "flaky_sled = sm_sled
     \<lparr>sled_apply_batch := \<lambda>d b. (Inr (), d\<lparr>live := foldl mem_apply (live d) b\<rparr>),
      sled_flush := \<lambda>d. if fail_at d = None then (Inr (), d\<lparr>synced := live d\<rparr>) else (Inl FaultError, d)\<rparr>"

lemma flaky_sled_lawful: "sled_lawful flaky_sled sm_inv sm_view sm_updates"
proof -
  have "write_lawful sm_inv sm_view sm_updates (sled_apply_batch flaky_sled)"
    by (simp add: write_lawful_def flaky_sled_def sm_updates_def sm_inv_def mem_apply_all)
  moreover have "silent sm_inv sm_view (sled_flush flaky_sled)"
    by (auto simp: silent_def flaky_sled_def sm_inv_def)
  ultimately show ?thesis
    using sm_sled_lawful by (simp add: sled_lawful_def flaky_sled_def)
qed

lemma flaky_sled_survives: "sled_survives flaky_sled sm_inv sm_view sm_stable sm_crash"
proof -
  have "sled_flush flaky_sled d = (Inr (), d') \<Longrightarrow> sm_stable d' = sm_view d" for d d'
    by (auto simp: flaky_sled_def split: if_splits)
  then show ?thesis
    using sm_sled_survives by (auto simp: sled_survives_def flaky_sled_def drains_def split: if_splits)
qed

abbreviation FlakyStore :: "(shared_mem, fault_error) Store" where
  "FlakyStore \<equiv> SledStore flaky_sled"

text \<open>The states of the run: \<open>m\<close> is what readers see, \<open>f\<close> whether flushes fail.\<close>

definition flaky_at :: "mem_store \<Rightarrow> usize option \<Rightarrow> shared_mem" where
  "flaky_at m f = \<lparr>live = m, synced = [(META_KEY, [FORMAT_VERSION])], commits = 0, fail_at = f\<rparr>"

definition flaky_queue :: "mem_store \<Rightarrow> usize option \<Rightarrow> u64 \<Rightarrow> u64 set \<Rightarrow> shared_mem Shared" where
  "flaky_queue m f t R = new_shared (builder_new sm_new) (flaky_at m f) t \<lparr>rec_head = 0, rec_len = 0, rec_bytes = 0\<rparr>
     \<lparr>inner := \<lparr>tail = t, head = 0, acked_above = {}, len = 0, bytes = 0, reserved = R, closed = False\<rparr>\<rparr>"

abbreviation META :: mem_store where "META \<equiv> [(META_KEY, [FORMAT_VERSION])]"
abbreviation LEFT :: mem_store where "LEFT \<equiv> [(META_KEY, [FORMAT_VERSION]), (entry_key 0, [7])]"

lemma flaky_open:
  "open_queue FlakyStore (builder_new sm_new) = Some (Ok (flaky_queue META None 0 {}), flaky_at META None)"
  by (simp add: open_queue_def check_meta_def find_tail_def recover_scan.simps sled_seek_def
      sled_seek_back_def sled_commit_def flaky_sled_def sm_sled_def sm_next_def sm_get_def sm_seek_def
      sm_seek_back_def builder_new_def sm_new_def flaky_queue_def flaky_at_def new_shared_def Let_def
      ENTRY_LOW_def ENTRY_PREFIX_def META_KEY_def ENTRY_HIGH_def is_entry_def)

lemma flaky_batch [simp]: "foldl (sled_add flaky_sled) (sled_batch flaky_sled) ops = ops"
proof -
  have "sled_add flaky_sled b x = b @ [x]" for b x
    by (cases x) (simp_all add: flaky_sled_def sm_sled_def)
  then have "foldl (sled_add flaky_sled) b ops = b @ ops" for b
    by (induction ops arbitrary: b) simp_all
  then show ?thesis by (simp add: flaky_sled_def sm_sled_def)
qed

lemma flaky_commit [simp]:
  "sled_commit flaky_sled (flaky_at m f) ops True =
     (if f = None then (Inr (), \<lparr>live = foldl mem_apply m ops, synced = foldl mem_apply m ops,
                                 commits = 0, fail_at = f\<rparr>)
      else (Inl FaultError, flaky_at (foldl mem_apply m ops) f))"
proof -
  have "sled_apply_batch flaky_sled (flaky_at m f) ops = (Inr (), flaky_at (foldl mem_apply m ops) f)"
    "sled_flush flaky_sled (flaky_at (foldl mem_apply m ops) f) =
      (if f = None then (Inr (), \<lparr>live = foldl mem_apply m ops, synced = foldl mem_apply m ops,
                                 commits = 0, fail_at = f\<rparr>)
       else (Inl FaultError, flaky_at (foldl mem_apply m ops) f))"
    by (simp_all add: flaky_sled_def flaky_at_def)
  then show ?thesis by (simp add: sled_commit_def)
qed

lemma META_before [simp]: "\<not> entry_key q < META_KEY"
  by (simp add: not_less less_imp_le)

lemma flaky_try_push:
  "try_push FlakyStore (flaky_queue META (Some 0) 0 {}) [7] =
     Some (Err (Try_Store FaultError), flaky_queue LEFT (Some 0) 1 {})"
  by (simp add: try_push_def enter_def admits_def claim_def write_entry_def commit_to_def
      flaky_queue_def new_shared_def builder_new_def Let_def checked_inc_def checked_add_def give_back_def checked_sub_def)

lemma flaky_reserve:
  "reserve FlakyStore (flaky_queue LEFT f 1 {}) =
     Some (Ok (Some \<lparr>res_seq = 0, res_value = [7], res_done = False\<rparr>), flaky_queue LEFT f 1 {0})"
  by (simp add: reserve_def reserve_loop.simps sled_seek_def flaky_sled_def sm_sled_def sm_next_def sm_seek_def
      flaky_queue_def new_shared_def builder_new_def Let_def flaky_at_def not_le reserve_check_def)

lemma flaky_ack:
  "fst (ack FlakyStore (flaky_queue LEFT None 1 {0}) \<lparr>res_seq = 0, res_value = [7], res_done = False\<rparr>) = Panic"
  by (simp add: ack_def commit_to_def flaky_queue_def new_shared_def builder_new_def Let_def
      ack_finish_def checked_sub_def)

text \<open>C23. A limit of the error path. Over a sled database that keeps every documented law but whose \<open>flush\<close>
  fails once, \<open>try_push\<close> returns the error and gives the slot back, so the queue counts no item;
  but the batch was applied, the rejected item is delivered to the consumer all the same, and
  acking it underflows \<open>len\<close>: the thread panics.\<close>

theorem failed_flush_still_delivers:
  "sled_lawful flaky_sled sm_inv sm_view sm_updates \<and>
   sled_survives flaky_sled sm_inv sm_view sm_stable sm_crash \<and>
   (\<exists>sh st sh1 r sh2.
      open_queue FlakyStore (builder_new sm_new) = Some (Ok sh, st) \<and>
      try_push FlakyStore (sh\<lparr>store := sm_fail_commit_number (store sh) 0\<rparr>) [7] =
        Some (Err (Try_Store FaultError), sh1) \<and>
      queue_len sh1 = 0 \<and>
      reserve FlakyStore (sh1\<lparr>store := sm_stop_failing (store sh1)\<rparr>) = Some (Ok (Some r), sh2) \<and>
      res_value r = [7] \<and> fst (ack FlakyStore sh2 r) = Panic)"
proof (intro conjI exI)
  have f: "sm_fail_commit_number (flaky_at m None) 0 = flaky_at m (Some 0)"
    "sm_stop_failing (flaky_at m (Some 0)) = flaky_at m None" for m
    by (simp_all add: sm_fail_commit_number_def sm_stop_failing_def flaky_at_def)
  have sel: "store (flaky_queue m g t R) = flaky_at m g"
    "(flaky_queue m g t R)\<lparr>store := flaky_at m g'\<rparr> = flaky_queue m g' t R" for m g t R g'
    by (simp_all add: flaky_queue_def new_shared_def Let_def)
  show "try_push FlakyStore ((flaky_queue META None 0 {})\<lparr>store := sm_fail_commit_number
      (store (flaky_queue META None 0 {})) 0\<rparr>) [7] = Some (Err (Try_Store FaultError), flaky_queue LEFT (Some 0) 1 {})"
    using flaky_try_push by (simp only: sel f)
  show "reserve FlakyStore ((flaky_queue LEFT (Some 0) 1 {})\<lparr>store := sm_stop_failing
      (store (flaky_queue LEFT (Some 0) 1 {}))\<rparr>) =
    Some (Ok (Some \<lparr>res_seq = 0, res_value = [7], res_done = False\<rparr>), flaky_queue LEFT None 1 {0})"
    using flaky_reserve by (simp only: sel f)
  show "queue_len (flaky_queue LEFT (Some 0) 1 {}) = 0"
    by (simp add: queue_len_def flaky_queue_def)
qed (use flaky_open flaky_sled_lawful flaky_sled_survives flaky_ack in simp_all)

end
