(* ===== verification/Codec.thy ===== *)
theory Codec imports Errors begin

text \<open>
  The \<open>Codec\<close> trait and its two implementations (\<open>src/src/codec.rs\<close>). A codec is a record of its
  two functions; \<open>codec_lawful\<close> is what a codec is for: bytes it produced decode to the value. The
  libraries behind \<open>Bincode\<close> (serde with bincode) and \<open>Rkyv\<close> are not part of the repository, so
  each is a record of the functions called, with the printing of its error.
\<close>

datatype CodecError = CodecError string

definition codec_error_new :: "('x \<Rightarrow> string) \<Rightarrow> 'x \<Rightarrow> CodecError" where
  "codec_error_new to_string e = CodecError (to_string e)"

fun codec_error_display :: "CodecError \<Rightarrow> string" where
  "codec_error_display (CodecError m) = ''codec error: '' @ m"

record 't Codec =
  encode :: "'t \<Rightarrow> CodecError + byte list"
  decode :: "byte list \<Rightarrow> CodecError + 't"

definition codec_lawful :: "'t Codec \<Rightarrow> bool" where
  "codec_lawful C \<longleftrightarrow> (\<forall>v b. encode C v = Inr b \<longrightarrow> decode C b = Inr v)"

text \<open>\<open>Result::map_err\<close> and \<open>Result::map\<close>\<close>

fun sum_map_err :: "('e \<Rightarrow> 'f) \<Rightarrow> 'e + 'a \<Rightarrow> 'f + 'a" where
  "sum_map_err f (Inl e) = Inl (f e)"
| "sum_map_err f (Inr a) = Inr a"

fun sum_map :: "('a \<Rightarrow> 'b) \<Rightarrow> 'e + 'a \<Rightarrow> 'e + 'b" where
  "sum_map f (Inl e) = Inl e"
| "sum_map f (Inr a) = Inr (f a)"

lemma sum_map_eq_Inr [simp]:
  "sum_map_err f r = Inr a \<longleftrightarrow> r = Inr a" "sum_map g r = Inr b \<longleftrightarrow> (\<exists>a. r = Inr a \<and> b = g a)"
  by (cases r; auto)+

section \<open>Bincode\<close>

text \<open>\<open>decode_from_slice\<close> also returns how many bytes it read.\<close>

record ('t, 'x) bincode =
  encode_to_vec :: "'t \<Rightarrow> 'x + byte list"
  decode_from_slice :: "byte list \<Rightarrow> 'x + ('t \<times> nat)"
  bincode_to_string :: "'x \<Rightarrow> string"

definition bincode_encode :: "('t, 'x) bincode \<Rightarrow> 't \<Rightarrow> CodecError + byte list" where
  "bincode_encode L v = sum_map_err (codec_error_new (bincode_to_string L)) (encode_to_vec L v)"

definition bincode_decode :: "('t, 'x) bincode \<Rightarrow> byte list \<Rightarrow> CodecError + 't" where
  "bincode_decode L b =
     sum_map_err (codec_error_new (bincode_to_string L)) (sum_map (\<lambda>(v, _). v) (decode_from_slice L b))"

definition Bincode :: "('t, 'x) bincode \<Rightarrow> 't Codec" where
  "Bincode L = \<lparr>encode = bincode_encode L, decode = bincode_decode L\<rparr>"

section \<open>Rkyv\<close>

text \<open>\<open>to_bytes\<close> and the validating readers; \<open>access_unchecked\<close> reads without validating.\<close>

record ('t, 'a, 'x) rkyv =
  to_bytes :: "'t \<Rightarrow> 'x + byte list"
  from_bytes :: "byte list \<Rightarrow> 'x + 't"
  access :: "byte list \<Rightarrow> 'x + 'a"
  access_unchecked :: "byte list \<Rightarrow> 'a"
  rkyv_to_string :: "'x \<Rightarrow> string"

definition rkyv_encode :: "('t, 'a, 'x) rkyv \<Rightarrow> 't \<Rightarrow> CodecError + byte list" where
  "rkyv_encode L v = sum_map_err (codec_error_new (rkyv_to_string L)) (to_bytes L v)"

text \<open>An \<open>AlignedVec\<close> holds the same bytes at an aligned address.\<close>

definition rkyv_decode :: "('t, 'a, 'x) rkyv \<Rightarrow> byte list \<Rightarrow> CodecError + 't" where
  "rkyv_decode L b =
     (let aligned = [] @ b
      in sum_map_err (codec_error_new (rkyv_to_string L)) (from_bytes L aligned))"

definition Rkyv :: "('t, 'a, 'x) rkyv \<Rightarrow> 't Codec" where
  "Rkyv L = \<lparr>encode = rkyv_encode L, decode = rkyv_decode L\<rparr>"

section \<open>Round trips\<close>

text \<open>The codec built on a serialization library round-trips every value the library does, and
  an error it reports carries the library's message.\<close>

theorem builtin_codecs_lawful:
  assumes "\<And>v b. encode_to_vec B v = Inr b \<Longrightarrow> \<exists>n. decode_from_slice B b = Inr (v, n)"
    and "\<And>v b. to_bytes R v = Inr b \<Longrightarrow> from_bytes R b = Inr v"
  shows "codec_lawful (Bincode B) \<and> codec_lawful (Rkyv R) \<and>
    (\<forall>v x. encode_to_vec B v = Inl x \<longrightarrow> (\<exists>e. encode (Bincode B) v = Inl e \<and>
      codec_error_display e = ''codec error: '' @ bincode_to_string B x)) \<and>
    (\<forall>b x. from_bytes R b = Inl x \<longrightarrow> (\<exists>e. decode (Rkyv R) b = Inl e \<and>
      codec_error_display e = ''codec error: '' @ rkyv_to_string R x))"
  using assms by (fastforce simp: codec_lawful_def Bincode_def Rkyv_def bincode_encode_def
      bincode_decode_def rkyv_encode_def rkyv_decode_def codec_error_new_def)

text \<open>A library on single bytes, which refuses the zero byte.\<close>

definition byte_bincode :: "(byte, unit) bincode" where
  "byte_bincode = \<lparr>encode_to_vec = \<lambda>v. if v = 0 then Inl () else Inr [v],
     decode_from_slice = \<lambda>b. (case b of v # _ \<Rightarrow> Inr (v, 1) | [] \<Rightarrow> Inl ()),
     bincode_to_string = \<lambda>_. ''bad byte''\<rparr>"

definition byte_rkyv :: "(byte, byte, unit) rkyv" where
  "byte_rkyv = \<lparr>to_bytes = \<lambda>v. if v = 0 then Inl () else Inr [v],
     from_bytes = \<lambda>b. (case b of [v] \<Rightarrow> Inr v | _ \<Rightarrow> Inl ()),
     access = \<lambda>b. (case b of [v] \<Rightarrow> Inr v | _ \<Rightarrow> Inl ()),
     access_unchecked = \<lambda>b. (case b of v # _ \<Rightarrow> v | [] \<Rightarrow> 0),
     rkyv_to_string = \<lambda>_. ''bad byte''\<rparr>"

theorem builtin_codecs_lawful_witness:
  "codec_lawful (Bincode byte_bincode) \<and> codec_lawful (Rkyv byte_rkyv) \<and>
   (\<exists>e. encode (Bincode byte_bincode) 0 = Inl e \<and> codec_error_display e = ''codec error: '' @ ''bad byte'') \<and>
   (\<exists>e. decode (Rkyv byte_rkyv) [] = Inl e \<and> codec_error_display e = ''codec error: '' @ ''bad byte'')"
proof -
  have laws: "\<And>v b. encode_to_vec byte_bincode v = Inr b \<Longrightarrow> \<exists>n. decode_from_slice byte_bincode b = Inr (v, n)"
    "\<And>v b. to_bytes byte_rkyv v = Inr b \<Longrightarrow> from_bytes byte_rkyv b = Inr v"
    by (auto simp: byte_bincode_def byte_rkyv_def split: if_splits)
  have "encode_to_vec byte_bincode 0 = Inl ()" "from_bytes byte_rkyv [] = Inl ()"
    "bincode_to_string byte_bincode () = ''bad byte''" "rkyv_to_string byte_rkyv () = ''bad byte''"
    by (simp_all add: byte_bincode_def byte_rkyv_def)
  with builtin_codecs_lawful [OF laws] show ?thesis by metis
qed

end
