(* ===== verification/Typed.thy ===== *)
theory Typed imports Codec Delivery begin

text \<open>
  The typed layer (\<open>src/src/typed.rs\<close>): \<open>TypedProducer\<close> encodes and pushes, \<open>TypedConsumer\<close>
  reserves and decodes, \<open>TypedReserved\<close> wraps the guard with the decoded value. The handles hold
  the queue's end and the codec; here the operations take the shared state and the codec. A guard
  whose item does not decode is dropped by the early return, which releases the item; \<open>typed_calls\<close>
  are runs of calls, in which such an item is met again and again.
\<close>

section \<open>Errors\<close>

datatype 'e TypedPushError = Typed_Encode CodecError | Typed_Closed | Typed_Store 'e
datatype 'e ReserveError = Reserve_Store 'e | Reserve_Decode CodecError

fun typed_push_error_display :: "('e \<Rightarrow> string) \<Rightarrow> 'e TypedPushError \<Rightarrow> string" where
  "typed_push_error_display disp (Typed_Encode e) = codec_error_display e"
| "typed_push_error_display disp Typed_Closed = ''queue is closed''"
| "typed_push_error_display disp (Typed_Store e) = ''store error: '' @ disp e"

fun typed_push_error_source :: "'e TypedPushError \<Rightarrow> (CodecError + 'e) option" where
  "typed_push_error_source (Typed_Encode e) = Some (Inl e)"
| "typed_push_error_source (Typed_Store e) = Some (Inr e)"
| "typed_push_error_source Typed_Closed = None"

fun reserve_error_display :: "('e \<Rightarrow> string) \<Rightarrow> 'e ReserveError \<Rightarrow> string" where
  "reserve_error_display disp (Reserve_Store e) = ''store error: '' @ disp e"
| "reserve_error_display disp (Reserve_Decode e) = codec_error_display e"

fun reserve_error_source :: "'e ReserveError \<Rightarrow> (CodecError + 'e) option" where
  "reserve_error_source (Reserve_Store e) = Some (Inr e)"
| "reserve_error_source (Reserve_Decode e) = Some (Inl e)"

section \<open>Operations\<close>

text \<open>Both ends get the codec.\<close>

definition open_typed ::
  "('s, 'e) Store \<Rightarrow> 's Builder \<Rightarrow> 't Codec \<Rightarrow> (('e OpenError, 's Shared \<times> 't Codec \<times> 't Codec) outcome \<times> 's) option" where
  "open_typed S b codec =
     map_option (\<lambda>(r, st). (case r of
         Ok sh \<Rightarrow> Ok (sh, codec, codec)
       | Err e \<Rightarrow> Err e
       | Panic \<Rightarrow> Panic, st)) (open_queue S b)"

fun typed_error_of_push :: "'e PushError \<Rightarrow> 'e TypedPushError" where
  "typed_error_of_push Push_Closed = Typed_Closed"
| "typed_error_of_push (Push_Store e) = Typed_Store e"

definition typed_push ::
  "('s, 'e) Store \<Rightarrow> 't Codec \<Rightarrow> 's Shared \<Rightarrow> 't \<Rightarrow> (('e TypedPushError, unit) outcome \<times> 's Shared) option" where
  "typed_push S codec sh v =
     (case encode codec v of
        Inl e \<Rightarrow> Some (Err (Typed_Encode e), sh)
      | Inr b \<Rightarrow> map_option (\<lambda>(r, sh1). (map_err typed_error_of_push r, sh1)) (push S sh b))"

definition typed_close :: "'s Shared \<Rightarrow> 's Shared" where
  "typed_close sh = close sh"

definition typed_len :: "'s Shared \<Rightarrow> usize" where
  "typed_len sh = queue_len sh"

definition typed_is_empty :: "'s Shared \<Rightarrow> bool" where
  "typed_is_empty sh = is_empty sh"

record 't TypedReserved =
  typed_inner :: Reserved
  typed_value :: 't

definition typed_reserve ::
  "('s, 'e) Store \<Rightarrow> 't Codec \<Rightarrow> 's Shared \<Rightarrow>
    (('e ReserveError, 't TypedReserved option) outcome \<times> 's Shared) option" where
  "typed_reserve S codec sh =
     (case reserve S sh of
        None \<Rightarrow> None
      | Some (Panic, sh1) \<Rightarrow> Some (Panic, sh1)
      | Some (Err e, sh1) \<Rightarrow> Some (Err (Reserve_Store e), sh1)
      | Some (Ok None, sh1) \<Rightarrow> Some (Ok None, sh1)
      | Some (Ok (Some r), sh1) \<Rightarrow>
          (case decode codec (res_value r) of
             Inl e \<Rightarrow> Some (Err (Reserve_Decode e), drop_reserved sh1 r)
           | Inr v \<Rightarrow> Some (Ok (Some \<lparr>typed_inner = r, typed_value = v\<rparr>), sh1)))"

definition typed_seq :: "'t TypedReserved \<Rightarrow> u64" where
  "typed_seq g = reserved_seq (typed_inner g)"

definition typed_deref :: "'t TypedReserved \<Rightarrow> 't" where
  "typed_deref g = typed_value g"

definition typed_ack :: "('s, 'e) Store \<Rightarrow> 's Shared \<Rightarrow> 't TypedReserved \<Rightarrow> ('e, unit) outcome \<times> 's Shared" where
  "typed_ack S sh g = ack S sh (typed_inner g)"

definition typed_nack :: "'s Shared \<Rightarrow> 't TypedReserved \<Rightarrow> 's Shared" where
  "typed_nack sh g = nack sh (typed_inner g)"

section \<open>Reserving with a decoder\<close>

text \<open>What \<open>typed_reserve\<close> and the archived one share: a reserved item is read by \<open>f\<close>, and one that
  cannot be read is released.\<close>

definition reserve_then ::
  "('s, 'e) Store \<Rightarrow> (Reserved \<Rightarrow> CodecError + 'g) \<Rightarrow> 's Shared \<Rightarrow>
    (('e ReserveError, 'g option) outcome \<times> 's Shared) option" where
  "reserve_then S f sh =
     (case reserve S sh of
        None \<Rightarrow> None
      | Some (Panic, sh1) \<Rightarrow> Some (Panic, sh1)
      | Some (Err e, sh1) \<Rightarrow> Some (Err (Reserve_Store e), sh1)
      | Some (Ok None, sh1) \<Rightarrow> Some (Ok None, sh1)
      | Some (Ok (Some r), sh1) \<Rightarrow>
          (case f r of Inl e \<Rightarrow> Some (Err (Reserve_Decode e), drop_reserved sh1 r)
           | Inr g \<Rightarrow> Some (Ok (Some g), sh1)))"

lemma typed_reserve_then:
  "typed_reserve S codec =
     reserve_then S (\<lambda>r. sum_map (\<lambda>v. \<lparr>typed_inner = r, typed_value = v\<rparr>) (decode codec (res_value r)))"
  by (auto simp: typed_reserve_def reserve_then_def fun_eq_iff split: option.split outcome.split sum.split)

text \<open>What it does to the abstract queue, outcome by outcome.\<close>

definition reserve_fits ::
  "('s, 'e) Store \<Rightarrow> (Reserved \<Rightarrow> CodecError + 'g) \<Rightarrow> AQueue \<Rightarrow> ('e ReserveError, 'g option) outcome \<Rightarrow> AQueue \<Rightarrow> bool" where
  "reserve_fits S f q res q' = (case res of
       Ok (Some g) \<Rightarrow> (\<exists>r. f r = Inr g \<and> \<not> res_done r \<and> a_reserve q = Some (res_seq r, res_value r, q'))
     | Ok None \<Rightarrow> a_reserve q = None \<and> q' = q
     | Err (Reserve_Decode e) \<Rightarrow> (\<exists>r q1. f r = Inl e \<and> \<not> res_done r \<and>
         a_reserve q = Some (res_seq r, res_value r, q1)) \<and> q' = q
     | Err (Reserve_Store e) \<Rightarrow> (\<exists>s c. fst (seek S s c) = Inl e) \<and> q' = q
     | Panic \<Rightarrow> False)"

text \<open>A value pushed on a queue with nothing ready is what the next reserve takes.\<close>

lemma a_reserve_pushed:
  assumes "wf_queue m sh" and "a_ready (abs_queue m sh) = {}"
  shows "\<exists>q. a_reserve (a_push (abs_queue m sh) b) = Some (tail (inner sh), b, q)"
proof -
  have "a_ready (a_push (abs_queue m sh) b) = {tail (inner sh)}"
    using assms(2) wf_queue_fresh [OF assms(1)] wf_queueD(5) [OF assms(1), of "tail (inner sh)"]
    by (auto simp: a_ready_def a_push_def a_burn_def abs_queue_def)
  moreover have "a_items (a_push (abs_queue m sh) b) (tail (inner sh)) = Some b"
    by (simp add: a_push_def abs_queue_def)
  ultimately show ?thesis by (simp add: a_reserve_def Let_def)
qed

lemma a_reserve_release:
  assumes "a_reserve q = Some (s, v, q')"
  shows "a_nack q' s = q" "s \<in> a_ready q" "a_items q s = Some v"
proof -
  have r: "a_ready q \<noteq> {}" "s = Min (a_ready q)" "v = the (a_items q s)"
    "q' = q\<lparr>a_taken := insert s (a_taken q)\<rparr>"
    using assms by (auto simp: a_reserve_def Let_def split: if_splits)
  then show s: "s \<in> a_ready q" by (simp add: Min_in)
  then show "a_items q s = Some v" using r by (auto simp: a_ready_def)
  from s have "s \<notin> a_taken q" by (simp add: a_ready_def)
  then show "a_nack q' s = q" by (cases q) (simp add: a_nack_def r(4))
qed

lemma drop_reserved_nack:
  assumes "\<not> res_done r" and "wf_queue m sh"
  shows "abs_queue m (drop_reserved sh r) = a_nack (abs_queue m sh) (res_seq r)"
    and "wf_queue m (drop_reserved sh r)" and "store (drop_reserved sh r) = store sh"
proof -
  have d: "drop_reserved sh r = release sh r" using assms(1) by (simp add: drop_reserved_def)
  show "abs_queue m (drop_reserved sh r) = a_nack (abs_queue m sh) (res_seq r)"
    by (simp add: d abs_queue_def a_nack_def release_def release_inner_def)
  show "wf_queue m (drop_reserved sh r)" unfolding d by (rule wf_release [OF assms(2)])
  show "store (drop_reserved sh r) = store sh" by (simp add: d release_def)
qed

context atomic_store begin

lemma reserve_then_abs:
  assumes "sinv (store sh)" and "wf_queue (view (store sh)) sh"
  shows "\<exists>res sh'. reserve_then S f sh = Some (res, sh') \<and> sinv (store sh') \<and>
    view (store sh') = view (store sh) \<and> wf_queue (view (store sh')) sh' \<and>
    reserve_fits S f (abs_queue (view (store sh)) sh) res (abs_queue (view (store sh')) sh')"
proof -
  obtain res sh1 where r: "reserve S sh = Some (res, sh1)" "sinv (store sh1)"
    "view (store sh1) = view (store sh)" "wf_queue (view (store sh1)) sh1" "res \<noteq> Panic"
    "\<forall>r. res = Ok (Some r) \<longrightarrow> \<not> res_done r \<and>
      a_reserve (abs_queue (view (store sh)) sh) =
        Some (res_seq r, res_value r, abs_queue (view (store sh1)) sh1)"
    "res = Ok None \<longrightarrow> a_reserve (abs_queue (view (store sh)) sh) = None"
    "\<forall>e. res = Err e \<longrightarrow> (\<exists>s c. fst (seek S s c) = Inl e)"
    "(\<forall>r. res \<noteq> Ok (Some r)) \<longrightarrow> abs_queue (view (store sh1)) sh1 = abs_queue (view (store sh)) sh"
    by (rule reserve_refines [OF assms], rule that) (assumption | blast)+
  show ?thesis
  proof (cases "\<exists>g e. res = Ok (Some g) \<and> f g = Inl e")
    case True
    then obtain g e where g: "res = Ok (Some g)" "f g = Inl e" by blast
    have q: "\<not> res_done g \<and> a_reserve (abs_queue (view (store sh)) sh) =
        Some (res_seq g, res_value g, abs_queue (view (store sh1)) sh1)" using r(6) g(1) by blast
    have "\<not> res_done g" using q by blast
    note d = drop_reserved_nack [OF this r(4)]
    have "reserve_then S f sh = Some (Err (Reserve_Decode e), drop_reserved sh1 g)"
      using g r(1) by (simp add: reserve_then_def)
    moreover have "abs_queue (view (store sh1)) (drop_reserved sh1 g) = abs_queue (view (store sh)) sh"
      using d(1) a_reserve_release(1) q by metis
    ultimately show ?thesis using r g q d by (auto simp: reserve_fits_def)
  next
    case False
    with r show ?thesis
      by (cases res) (auto simp: reserve_then_def reserve_fits_def split: option.splits sum.splits)
  qed
qed

end

text \<open>What a typed \<open>reserve\<close> does to the abstract queue, outcome by outcome.\<close>

definition typed_fits ::
  "('s, 'e) Store \<Rightarrow> 't Codec \<Rightarrow> AQueue \<Rightarrow> ('e ReserveError, 't TypedReserved option) outcome \<Rightarrow> AQueue \<Rightarrow> bool" where
  "typed_fits S codec q res q' = (case res of
       Ok (Some g) \<Rightarrow> decode codec (res_value (typed_inner g)) = Inr (typed_value g) \<and>
         a_reserve q = Some (typed_seq g, res_value (typed_inner g), q')
     | Ok None \<Rightarrow> a_reserve q = None \<and> q' = q
     | Err (Reserve_Decode e) \<Rightarrow> (\<exists>s b q1. a_reserve q = Some (s, b, q1) \<and> decode codec b = Inl e) \<and> q' = q
     | Err (Reserve_Store e) \<Rightarrow> (\<exists>s c. fst (seek S s c) = Inl e) \<and> q' = q
     | Panic \<Rightarrow> False)"

context atomic_store begin

lemma typed_push_abs:
  assumes "sinv (store sh)" and "wf_queue (view (store sh)) sh" and "encode codec v = Inr b"
    and "typed_push S codec sh v = Some (res, sh')"
  shows "sinv (store sh') \<and> wf_queue (view (store sh')) sh' \<and>
    (case res of
       Ok _ \<Rightarrow> abs_queue (view (store sh')) sh' = a_push (abs_queue (view (store sh)) sh) b
     | Err (Typed_Store e) \<Rightarrow> abs_queue (view (store sh')) sh' = a_burn (abs_queue (view (store sh)) sh)
     | Err Typed_Closed \<Rightarrow> closed (inner sh) \<and> sh' = sh
     | Err (Typed_Encode e) \<Rightarrow> False
     | Panic \<Rightarrow> enter sh (length b) = Overflow \<and> sh' = sh)"
proof -
  obtain r where p: "push S sh b = Some (r, sh')" "res = map_err typed_error_of_push r"
    using assms(3,4) by (auto simp: typed_push_def)
  obtain t sh1 where t: "try_push S sh b = Some (t, sh1)" "sinv (store sh1)" "wf_queue (view (store sh1)) sh1"
    "t = Err Try_Closed \<longleftrightarrow> closed (inner sh)"
    "t = Err Try_Full \<longleftrightarrow> \<not> closed (inner sh) \<and> \<not> admits sh (len (inner sh)) (bytes (inner sh)) (length b)"
    "t = Panic \<longleftrightarrow> enter sh (length b) = Overflow"
    "case t of
       Ok _ \<Rightarrow> abs_queue (view (store sh1)) sh1 = a_push (abs_queue (view (store sh)) sh) b
     | Err (Try_Store e) \<Rightarrow> abs_queue (view (store sh1)) sh1 = a_burn (abs_queue (view (store sh)) sh)
     | _ \<Rightarrow> sh1 = sh"
    using try_push_abs [OF assms(1,2), of b] by blast
  have "t \<noteq> Err Try_Full" "sh1 = sh'" "r = (case t of
      Ok u \<Rightarrow> Ok u | Err Try_Closed \<Rightarrow> Err Push_Closed | Err (Try_Store e) \<Rightarrow> Err (Push_Store e)
    | Err Try_Full \<Rightarrow> Panic | Panic \<Rightarrow> Panic)"
    using push_abs [OF assms(1,2), of b] p(1) t(1,5) by (auto split: if_splits)
  note t = t this
  show ?thesis
  proof (cases t)
    case (Err x)
    with t p(2) show ?thesis by (cases x) auto
  qed (use t p(2) in auto)
qed

lemma typed_reserve_abs:
  assumes "sinv (store sh)" and "wf_queue (view (store sh)) sh"
  shows "\<exists>res sh'. typed_reserve S codec sh = Some (res, sh') \<and> sinv (store sh') \<and>
    view (store sh') = view (store sh) \<and> wf_queue (view (store sh')) sh' \<and>
    typed_fits S codec (abs_queue (view (store sh)) sh) res (abs_queue (view (store sh')) sh')"
proof -
  let ?f = "\<lambda>r. sum_map (\<lambda>v. \<lparr>typed_inner = r, typed_value = v\<rparr>) (decode codec (res_value r))"
  have f: "?f r = Inl e \<longleftrightarrow> decode codec (res_value r) = Inl e" for r e
    by (cases "decode codec (res_value r)") auto
  obtain res sh' where r: "typed_reserve S codec sh = Some (res, sh')" "sinv (store sh')"
    "view (store sh') = view (store sh)" "wf_queue (view (store sh')) sh'"
    "reserve_fits S ?f (abs_queue (view (store sh)) sh) res (abs_queue (view (store sh')) sh')"
    using reserve_then_abs [OF assms, of ?f] unfolding typed_reserve_then by blast
  show ?thesis
  proof (intro exI conjI)
    show "typed_reserve S codec sh = Some (res, sh')" by (rule r(1))
    show "typed_fits S codec (abs_queue (view (store sh)) sh) res (abs_queue (view (store sh')) sh')"
      using r(5) unfolding reserve_fits_def f typed_fits_def
      by (cases res) (auto simp: typed_seq_def split: option.splits ReserveError.splits)
  qed (use r in auto)
qed

end

section \<open>Runs of typed calls\<close>

text \<open>What clients holding no guard may do, one call after the other. The run collects what its
  reserves report; it is None if a push waits for room, and ends with the queue if a call panics.\<close>

datatype 't Call = Call_Push 't | Call_Reserve

fun typed_calls ::
  "('s, 'e) Store \<Rightarrow> 't Codec \<Rightarrow> 's Shared \<Rightarrow> 't Call list \<Rightarrow>
    (('e ReserveError, 't TypedReserved option) outcome list \<times> 's Shared) option" where
  "typed_calls S codec sh [] = Some ([], sh)"
| "typed_calls S codec sh (Call_Push v # cs) =
     (case typed_push S codec sh v of
        None \<Rightarrow> None
      | Some (Panic, _) \<Rightarrow> None
      | Some (_, sh1) \<Rightarrow> typed_calls S codec sh1 cs)"
| "typed_calls S codec sh (Call_Reserve # cs) =
     (case typed_reserve S codec sh of
        None \<Rightarrow> None
      | Some (Panic, _) \<Rightarrow> None
      | Some (r, sh1) \<Rightarrow> map_option (\<lambda>(rs, sh2). (r # rs, sh2)) (typed_calls S codec sh1 cs))"

text \<open>The oldest ready item does not decode.\<close>

definition stuck :: "'t Codec \<Rightarrow> CodecError \<Rightarrow> AQueue \<Rightarrow> bool" where
  "stuck codec e q \<longleftrightarrow> (\<exists>s b. a_items q s = Some b \<and> s \<notin> a_taken q \<and> decode codec b = Inl e \<and>
     (\<forall>t \<in> a_ready q. s \<le> t))"

lemma stuck_reserve:
  assumes "a_reserve q = Some (s, b, q1)" and "decode codec b = Inl e"
  shows "stuck codec e q"
proof -
  have "s = Min (a_ready q)" using assms(1) by (auto simp: a_reserve_def Let_def split: if_splits)
  then have "\<forall>t \<in> a_ready q. s \<le> t" by simp
  moreover have "s \<notin> a_taken q" using a_reserve_release(2) [OF assms(1)] by (simp add: a_ready_def)
  ultimately show ?thesis
    using a_reserve_release(3) [OF assms(1)] assms(2) unfolding stuck_def by blast
qed

lemma stuck_a_reserve:
  assumes "stuck codec e q" and "a_reserve q = r"
  shows "\<exists>s b q1. r = Some (s, b, q1) \<and> decode codec b = Inl e"
proof -
  from assms(1) obtain s b where s: "a_items q s = Some b" "s \<in> a_ready q" "decode codec b = Inl e"
    "\<forall>t \<in> a_ready q. s \<le> t" by (auto simp: stuck_def a_ready_def)
  then have "Min (a_ready q) = s" by (intro Min_eqI) auto
  with s assms(2) show ?thesis by (auto simp: a_reserve_def Let_def)
qed

lemma stuck_burn: "stuck codec e q \<Longrightarrow> stuck codec e (a_burn q)"
  by (simp add: stuck_def a_burn_def a_ready_def)

lemma stuck_push:
  assumes "stuck codec e q" and "\<forall>t \<in> dom (a_items q). t < a_next q"
  shows "stuck codec e (a_push q v)"
proof -
  from assms(1) obtain s b where s: "a_items q s = Some b" "s \<notin> a_taken q" "decode codec b = Inl e"
    "\<forall>t \<in> a_ready q. s \<le> t" by (auto simp: stuck_def)
  then have "s < a_next q" using assms(2) by blast
  with s show ?thesis
    by (intro stuck_def [THEN iffD2] exI [of _ s] exI [of _ b]) (auto simp: a_push_def a_burn_def a_ready_def)
qed

context atomic_store begin

lemma stuck_reserves:
  assumes "sinv (store sh)" and "wf_queue (view (store sh)) sh" and "stuck codec e (abs_queue (view (store sh)) sh)"
  shows "\<exists>r sh'. typed_reserve S codec sh = Some (r, sh') \<and> sinv (store sh') \<and> wf_queue (view (store sh')) sh' \<and>
    abs_queue (view (store sh')) sh' = abs_queue (view (store sh)) sh \<and>
    (r = Err (Reserve_Decode e) \<or> (\<exists>x s c. r = Err (Reserve_Store x) \<and> fst (seek S s c) = Inl x))"
proof -
  let ?q = "abs_queue (view (store sh)) sh"
  obtain r sh' where r: "typed_reserve S codec sh = Some (r, sh')" "sinv (store sh')"
    "wf_queue (view (store sh')) sh'" "typed_fits S codec ?q r (abs_queue (view (store sh')) sh')"
    using typed_reserve_abs [OF assms(1,2), of codec] by blast
  obtain s b q1 where "a_reserve ?q = Some (s, b, q1)" "decode codec b = Inl e"
    using stuck_a_reserve [OF assms(3) refl] by blast
  with r show ?thesis
    by (intro exI [of _ r] exI [of _ sh'])
       (auto simp: typed_fits_def split: outcome.splits option.splits ReserveError.splits)
qed

lemma stuck_pushes:
  assumes "sinv (store sh)" and "wf_queue (view (store sh)) sh" and "stuck codec e (abs_queue (view (store sh)) sh)"
    and "typed_push S codec sh v = Some (res, sh')" and "res \<noteq> Panic"
  shows "sinv (store sh') \<and> wf_queue (view (store sh')) sh' \<and> stuck codec e (abs_queue (view (store sh')) sh') \<and>
    items_of (view (store sh)) \<subseteq>\<^sub>m items_of (view (store sh'))"
proof (cases "encode codec v")
  case (Inl x)
  with assms show ?thesis by (simp add: typed_push_def map_le_def)
next
  case (Inr b)
  let ?q = "abs_queue (view (store sh)) sh" and ?q' = "abs_queue (view (store sh')) sh'"
  have below: "\<forall>t \<in> dom (a_items ?q). t < a_next ?q"
    using wf_queueD(4) [OF assms(2)] by (auto simp: abs_queue_def)
  have it: "items_of (view (store sh)) = a_items ?q" "items_of (view (store sh')) = a_items ?q'"
    by (simp_all add: abs_queue_def)
  have le: "a_items ?q \<subseteq>\<^sub>m a_items (a_push ?q b)"
    using below by (force simp: map_le_def a_push_def a_burn_def)
  note p = typed_push_abs [OF assms(1,2) Inr assms(4)]
  have "?q' = ?q \<or> ?q' = a_burn ?q \<or> ?q' = a_push ?q b"
    using p assms(5) by (auto split: outcome.splits TypedPushError.splits)
  then have "stuck codec e ?q' \<and> a_items ?q \<subseteq>\<^sub>m a_items ?q'"
    using assms(3) stuck_burn [OF assms(3)] stuck_push [OF assms(3) below] le
    by (elim disjE) (simp_all add: a_burn_def)
  with p show ?thesis unfolding it by blast
qed

text \<open>Stuck is stuck: from there on, every reserve of a run reports the item.\<close>

lemma stuck_calls:
  assumes "sinv (store sh)" and "wf_queue (view (store sh)) sh" and "stuck codec e (abs_queue (view (store sh)) sh)"
  shows "typed_calls S codec sh (replicate n Call_Reserve) \<noteq> None"
    and "typed_calls S codec sh cs = Some (rs, sh2) \<Longrightarrow> length rs = count_list cs Call_Reserve \<and>
      (\<forall>r \<in> set rs. r = Err (Reserve_Decode e) \<or> (\<exists>x s c. r = Err (Reserve_Store x) \<and> fst (seek S s c) = Inl x)) \<and>
      items_of (view (store sh)) \<subseteq>\<^sub>m items_of (view (store sh2)) \<and> stuck codec e (abs_queue (view (store sh2)) sh2)"
proof -
  show "typed_calls S codec sh (replicate n Call_Reserve) \<noteq> None"
    using assms
  proof (induction n arbitrary: sh)
    case (Suc n)
    from stuck_reserves [OF Suc.prems] Suc.IH Suc.prems(3) show ?case by fastforce
  qed simp
  show "length rs = count_list cs Call_Reserve \<and>
      (\<forall>r \<in> set rs. r = Err (Reserve_Decode e) \<or> (\<exists>x s c. r = Err (Reserve_Store x) \<and> fst (seek S s c) = Inl x)) \<and>
      items_of (view (store sh)) \<subseteq>\<^sub>m items_of (view (store sh2)) \<and> stuck codec e (abs_queue (view (store sh2)) sh2)"
    if "typed_calls S codec sh cs = Some (rs, sh2)"
    using assms that
  proof (induction cs arbitrary: sh rs)
    case (Cons c cs)
    show ?case
    proof (cases c)
      case (Call_Push v)
      with Cons.prems(4) obtain res sh1 where p: "typed_push S codec sh v = Some (res, sh1)" "res \<noteq> Panic"
        "typed_calls S codec sh1 cs = Some (rs, sh2)"
        by (auto split: option.splits outcome.splits)
      note step = stuck_pushes [OF Cons.prems(1-3) p(1,2)]
      from step Cons.IH [OF _ _ _ p(3)] Call_Push show ?thesis by (auto intro: map_le_trans)
    next
      case Call_Reserve
      obtain r sh1 where r: "typed_reserve S codec sh = Some (r, sh1)" "sinv (store sh1)"
        "wf_queue (view (store sh1)) sh1" "abs_queue (view (store sh1)) sh1 = abs_queue (view (store sh)) sh"
        "r = Err (Reserve_Decode e) \<or> (\<exists>x s c. r = Err (Reserve_Store x) \<and> fst (seek S s c) = Inl x)"
        using stuck_reserves [OF Cons.prems(1-3)] by blast
      then have "r \<noteq> Panic" "\<And>g. r \<noteq> Ok g" by auto
      with Cons.prems(4) Call_Reserve r(1) obtain rs1 where rs: "rs = r # rs1" "typed_calls S codec sh1 cs = Some (rs1, sh2)"
        by (auto split: outcome.splits)
      have "items_of (view (store sh1)) = items_of (view (store sh))"
        using r(4) by (simp add: abs_queue_def)
      with Cons.IH [OF r(2,3) _ rs(2)] Cons.prems(3) r(4,5) rs(1) Call_Reserve show ?thesis by simp
    qed
  qed simp
qed

end

section \<open>Properties\<close>

text \<open>C38. A typed \<open>push\<close> over an atomic store: a value the codec refuses changes nothing; any other
  outcome is that of pushing the encoded bytes, so \<open>Ok\<close> puts them at the next number, a store
  error burns the number, and \<open>Closed\<close> and a panic change nothing.\<close>

theorem typed_push_refines:
  assumes "atomic_store S sinv view" and "sinv (store sh)" and "wf_queue (view (store sh)) sh"
    and "typed_push S codec sh v = Some (res, sh')"
  shows "case encode codec v of
      Inl e \<Rightarrow> res = Err (Typed_Encode e) \<and> sh' = sh
    | Inr b \<Rightarrow> sinv (store sh') \<and> wf_queue (view (store sh')) sh' \<and>
       (case res of
          Ok _ \<Rightarrow> abs_queue (view (store sh')) sh' = a_push (abs_queue (view (store sh)) sh) b
        | Err (Typed_Store e) \<Rightarrow> abs_queue (view (store sh')) sh' = a_burn (abs_queue (view (store sh)) sh)
        | Err Typed_Closed \<Rightarrow> closed (inner sh) \<and> sh' = sh
        | Err (Typed_Encode e) \<Rightarrow> False
        | Panic \<Rightarrow> enter sh (length b) = Overflow \<and> sh' = sh)"
  using atomic_store.typed_push_abs [OF assms(1-3) _ assms(4)] assms(4)
  by (cases "encode codec v") (auto simp: typed_push_def)

text \<open>C28. The typed round trip. With a lawful codec over an atomic store, after a typed \<open>push\<close> of
  \<open>v\<close> that returned \<open>Ok\<close>, the guard that delivers its number holds \<open>v\<close>; and when nothing else
  is ready, the next typed \<open>reserve\<close> delivers exactly that, unless the store fails.\<close>

theorem typed_roundtrip:
  assumes "atomic_store S sinv view" and "sinv (store sh)" and "wf_queue (view (store sh)) sh"
    and "codec_lawful codec" and "typed_push S codec sh v = Some (Ok (), sh1)"
  shows "\<exists>res sh2. typed_reserve S codec sh1 = Some (res, sh2) \<and>
    (\<forall>g. res = Ok (Some g) \<longrightarrow> typed_seq g = tail (inner sh) \<longrightarrow> typed_value g = v) \<and>
    (a_ready (abs_queue (view (store sh)) sh) = {} \<longrightarrow>
       (\<exists>e s c. res = Err (Reserve_Store e) \<and> fst (seek S s c) = Inl e) \<or>
       (\<exists>g. res = Ok (Some g) \<and> typed_seq g = tail (inner sh) \<and> typed_value g = v))"
proof -
  let ?q = "abs_queue (view (store sh)) sh"
  obtain b where b: "encode codec v = Inr b" "decode codec b = Inr v"
    using assms(4,5) by (cases "encode codec v") (auto simp: typed_push_def codec_lawful_def)
  from atomic_store.typed_push_abs [OF assms(1-3) b(1) assms(5)]
  have p: "sinv (store sh1)" "wf_queue (view (store sh1)) sh1"
    "abs_queue (view (store sh1)) sh1 = a_push ?q b" by auto
  have it: "a_items (a_push ?q b) (tail (inner sh)) = Some b"
    by (simp add: a_push_def abs_queue_def)
  have taken: "typed_value g = v" if "decode codec (res_value (typed_inner g)) = Inr (typed_value g)"
    "a_reserve (a_push ?q b) = Some (typed_seq g, res_value (typed_inner g), q)" "typed_seq g = tail (inner sh)"
    for g q
    using a_reserve_release(3) [OF that(2)] that(1,3) it b(2) by simp
  obtain res sh2 q2 where r: "typed_reserve S codec sh1 = Some (res, sh2)"
    "typed_fits S codec (a_push ?q b) res q2"
    using atomic_store.typed_reserve_abs [OF assms(1) p(1,2), of codec] unfolding p(3) by blast
  note one = a_reserve_pushed [OF assms(3), of b]
  show ?thesis
  proof (intro exI conjI impI allI)
    show "typed_reserve S codec sh1 = Some (res, sh2)" by (rule r(1))
    show "typed_value g = v" if "res = Ok (Some g)" "typed_seq g = tail (inner sh)" for g
      using taken r(2) that by (auto simp: typed_fits_def)
    show "(\<exists>e s c. res = Err (Reserve_Store e) \<and> fst (seek S s c) = Inl e) \<or>
       (\<exists>g. res = Ok (Some g) \<and> typed_seq g = tail (inner sh) \<and> typed_value g = v)"
      if "a_ready ?q = {}"
      using r(2) one [OF that] b(2)
      by (auto simp: typed_fits_def split: outcome.splits option.splits ReserveError.splits)
  qed
qed

text \<open>C31. A limit of the typed consumer. Once a typed \<open>reserve\<close> has met an item that does not
  decode, the same decode error, or an error of the store, is all that any later one reports, in
  every run of typed pushes and reserves from there on. A run of reserves only always returns. The
  item stays in the queue, ready, and so do the items behind it, which no \<open>reserve\<close> reaches.\<close>

theorem undecodable_item_blocks:
  assumes "atomic_store S sinv view" and "sinv (store sh)" and "wf_queue (view (store sh)) sh"
    and "typed_reserve S codec sh = Some (Err (Reserve_Decode e), sh1)"
  shows "abs_queue (view (store sh1)) sh1 = abs_queue (view (store sh)) sh \<and>
    typed_calls S codec sh1 (replicate n Call_Reserve) \<noteq> None \<and>
    (\<forall>cs rs sh2. typed_calls S codec sh1 cs = Some (rs, sh2) \<longrightarrow>
       length rs = count_list cs Call_Reserve \<and>
       (\<forall>r \<in> set rs. r = Err (Reserve_Decode e) \<or> (\<exists>x s c. r = Err (Reserve_Store x) \<and> fst (seek S s c) = Inl x)) \<and>
       items_of (view (store sh)) \<subseteq>\<^sub>m items_of (view (store sh2)) \<and>
       stuck codec e (abs_queue (view (store sh2)) sh2))"
proof -
  have one: "sinv (store sh1)" "wf_queue (view (store sh1)) sh1" "view (store sh1) = view (store sh)"
    "typed_fits S codec (abs_queue (view (store sh)) sh) (Err (Reserve_Decode e)) (abs_queue (view (store sh1)) sh1)"
    using atomic_store.typed_reserve_abs [OF assms(1-3), of codec] assms(4) by auto
  then have same: "abs_queue (view (store sh1)) sh1 = abs_queue (view (store sh)) sh"
    and st: "stuck codec e (abs_queue (view (store sh1)) sh1)"
    using stuck_reserve by (auto simp: typed_fits_def)
  note run = atomic_store.stuck_calls [OF assms(1) one(1,2) st]
  show ?thesis
    using run(1) [of n] run(2) same unfolding one(3) by (intro conjI allI impI) blast+
qed

section \<open>Concrete runs\<close>

text \<open>The codec of single bytes over the demo queues of \<open>Delivery\<close>.\<close>

abbreviation MemQ :: "(mem_store, unit) Store" where
  "MemQ \<equiv> MemStore"

abbreviation ByteCodec :: "byte Codec" where
  "ByteCodec \<equiv> Bincode byte_bincode"

definition blind_codec :: "byte Codec" where
  "blind_codec = Bincode (byte_bincode\<lparr>decode_from_slice := \<lambda>b. Inl ()\<rparr>)"

lemma byte_codec: "encode ByteCodec 9 = Inr [9]" "codec_lawful ByteCodec"
  "encode ByteCodec 0 = Inl (CodecError ''bad byte'')"
  by (auto simp: Bincode_def bincode_encode_def bincode_decode_def byte_bincode_def codec_lawful_def
      codec_error_new_def split: if_splits)

lemma demo_hyps:
  "atomic_store MemQ bt_ordered map_of" "bt_ordered (store demo_queue)" "bt_ordered (store demo_taken)"
  "wf_queue (map_of (store demo_queue)) demo_queue" "wf_queue (map_of (store demo_taken)) demo_taken"
  using mem.atomic_store_axioms demo_ordered demo_wf demo_taken_wf by simp_all

lemma demo_typed_push: "\<exists>sh1. typed_push MemQ ByteCodec demo_taken 9 = Some (Ok (), sh1)"
  by (simp add: typed_push_def byte_codec push_def enter_def admits_def claim_def write_entry_def commit_to_def
      mem_commit_def demo_taken_def demo_queue_def checked_inc_def checked_add_def saturating_add_def)

lemma demo_undecodable:
  "\<exists>sh1. typed_reserve MemQ blind_codec demo_queue = Some (Err (Reserve_Decode (CodecError ''bad byte'')), sh1)"
  by (simp add: typed_reserve_def reserve_def reserve_loop.simps mem_seek_def demo_queue_def demo_store_def not_le
      reserve_check_def blind_codec_def Bincode_def bincode_decode_def byte_bincode_def codec_error_new_def)

theorem typed_push_refines_witness:
  "\<exists>sh1. typed_push MemQ ByteCodec demo_taken 9 = Some (Ok (), sh1) \<and>
    abs_queue (map_of (store sh1)) sh1 = a_push (abs_queue (map_of demo_store) demo_taken) [9]"
proof -
  obtain sh1 where p: "typed_push MemQ ByteCodec demo_taken 9 = Some (Ok (), sh1)"
    using demo_typed_push by blast
  from typed_push_refines [OF demo_hyps(1,3,5) p] p show ?thesis
    by (auto simp: byte_codec)
qed

theorem typed_roundtrip_witness:
  "\<exists>sh1 sh2 g. typed_push MemQ ByteCodec demo_taken 9 = Some (Ok (), sh1) \<and>
    typed_reserve MemQ ByteCodec sh1 = Some (Ok (Some g), sh2) \<and> typed_seq g = 1 \<and> typed_value g = 9"
proof -
  obtain sh1 where p: "typed_push MemQ ByteCodec demo_taken 9 = Some (Ok (), sh1)"
    using demo_typed_push by blast
  have "fst (seek MemQ s c) \<noteq> Inl x" for s c x by (simp add: mem_seek_def)
  moreover have "a_ready (abs_queue (map_of (store demo_taken)) demo_taken) = {}"
    by (simp add: a_ready_def abs_queue_def demo_items)
  moreover have "tail (inner demo_taken) = 1" by (simp add: demo_taken_def demo_queue_def)
  ultimately show ?thesis
    using typed_roundtrip [OF demo_hyps(1,3,5) byte_codec(2) p] p by auto
qed

theorem undecodable_item_blocks_witness:
  "\<exists>sh1 rs sh2. typed_reserve MemQ blind_codec demo_queue =
      Some (Err (Reserve_Decode (CodecError ''bad byte'')), sh1) \<and>
    typed_calls MemQ blind_codec sh1 [Call_Reserve, Call_Reserve] = Some (rs, sh2) \<and>
    rs = [Err (Reserve_Decode (CodecError ''bad byte'')), Err (Reserve_Decode (CodecError ''bad byte''))]"
proof -
  obtain sh1 where r: "typed_reserve MemQ blind_codec demo_queue =
      Some (Err (Reserve_Decode (CodecError ''bad byte'')), sh1)"
    using demo_undecodable by blast
  note blocks = undecodable_item_blocks [OF demo_hyps(1,2,4) r]
  let ?cs = "[Call_Reserve, Call_Reserve] :: byte Call list"
  obtain rs sh2 where c: "typed_calls MemQ blind_codec sh1 ?cs = Some (rs, sh2)"
    using blocks [of 2] by (auto simp: numeral_2_eq_2)
  have none: "fst (seek MemQ s c) \<noteq> Inl x" for s c x by (simp add: mem_seek_def)
  have "length rs = 2" "\<forall>r \<in> set rs. r = Err (Reserve_Decode (CodecError ''bad byte''))"
    using conjunct2 [OF conjunct2 [OF blocks [of 0]], rule_format, OF c] none
    by (auto simp del: MemStore_sel)
  then have "rs = replicate 2 (Err (Reserve_Decode (CodecError ''bad byte'')))"
    by (simp add: replicate_eqI)
  with r c show ?thesis by (simp add: numeral_2_eq_2)
qed

end
