(* ===== verification/Archived.thy ===== *)
theory Archived imports Typed begin

text \<open>
  The zero-copy layer (\<open>src/src/archived.rs\<close>): the producer encodes with rkyv, \<open>reserve\<close> copies
  the bytes into an aligned buffer and validates them once, and \<open>get\<close> reads the buffer without
  checks (\<open>access_unchecked\<close>, an \<open>unsafe\<close> call). The library is the record \<open>rkyv\<close> of \<open>Codec\<close>;
  the errors are those of the typed layer.
\<close>

section \<open>Operations\<close>

definition open_archived ::
  "('s, 'e) Store \<Rightarrow> 's Builder \<Rightarrow> (('e OpenError, 's Shared) outcome \<times> 's) option" where
  "open_archived S b =
     map_option (\<lambda>(r, st). (case r of Ok sh \<Rightarrow> Ok sh | Err e \<Rightarrow> Err e | Panic \<Rightarrow> Panic, st)) (open_queue S b)"

definition archived_push ::
  "('s, 'e) Store \<Rightarrow> ('t, 'a, 'x) rkyv \<Rightarrow> 's Shared \<Rightarrow> 't \<Rightarrow>
    (('e TypedPushError, unit) outcome \<times> 's Shared) option" where
  "archived_push S L sh v =
     (case to_bytes L v of
        Inl e \<Rightarrow> Some (Err (Typed_Encode (codec_error_new (rkyv_to_string L) e)), sh)
      | Inr b \<Rightarrow>
          map_option (\<lambda>(r, sh1).
              (map_err (\<lambda>e. case e of Push_Closed \<Rightarrow> Typed_Closed | Push_Store e \<Rightarrow> Typed_Store e) r, sh1))
            (push S sh b))"

definition archived_close :: "'s Shared \<Rightarrow> 's Shared" where
  "archived_close sh = close sh"

definition archived_len :: "'s Shared \<Rightarrow> usize" where
  "archived_len sh = queue_len sh"

definition archived_is_empty :: "'s Shared \<Rightarrow> bool" where
  "archived_is_empty sh = is_empty sh"

record ArchivedReserved =
  archived_inner :: Reserved
  aligned :: "byte list"

definition archived_reserve ::
  "('s, 'e) Store \<Rightarrow> ('t, 'a, 'x) rkyv \<Rightarrow> 's Shared \<Rightarrow>
    (('e ReserveError, ArchivedReserved option) outcome \<times> 's Shared) option" where
  "archived_reserve S L sh =
     (case reserve S sh of
        None \<Rightarrow> None
      | Some (Panic, sh1) \<Rightarrow> Some (Panic, sh1)
      | Some (Err e, sh1) \<Rightarrow> Some (Err (Reserve_Store e), sh1)
      | Some (Ok None, sh1) \<Rightarrow> Some (Ok None, sh1)
      | Some (Ok (Some r), sh1) \<Rightarrow>
          (let buf = [] @ res_value r
           in case access L buf of
                Inl e \<Rightarrow> Some (Err (Reserve_Decode (codec_error_new (rkyv_to_string L) e)), drop_reserved sh1 r)
              | Inr _ \<Rightarrow> Some (Ok (Some \<lparr>archived_inner = r, aligned = buf\<rparr>), sh1)))"

definition archived_get :: "('t, 'a, 'x) rkyv \<Rightarrow> ArchivedReserved \<Rightarrow> 'a" where
  "archived_get L g = access_unchecked L (aligned g)"

definition archived_seq :: "ArchivedReserved \<Rightarrow> u64" where
  "archived_seq g = reserved_seq (archived_inner g)"

definition archived_ack :: "('s, 'e) Store \<Rightarrow> 's Shared \<Rightarrow> ArchivedReserved \<Rightarrow> ('e, unit) outcome \<times> 's Shared" where
  "archived_ack S sh g = ack S sh (archived_inner g)"

definition archived_nack :: "'s Shared \<Rightarrow> ArchivedReserved \<Rightarrow> 's Shared" where
  "archived_nack sh g = nack sh (archived_inner g)"

section \<open>Relation to the typed layer\<close>

text \<open>A push is the typed push with the \<open>Rkyv\<close> codec.\<close>

lemma case_push_error: "case_PushError Typed_Closed Typed_Store = typed_error_of_push"
  by (auto simp: fun_eq_iff split: PushError.split)

lemma archived_push_typed: "archived_push S L sh v = typed_push S (Rkyv L) sh v"
  by (cases "to_bytes L v") (simp_all add: archived_push_def typed_push_def Rkyv_def rkyv_encode_def case_push_error)

lemma archived_reserve_then:
  "archived_reserve S L = reserve_then S (\<lambda>r. sum_map (\<lambda>_. \<lparr>archived_inner = r, aligned = res_value r\<rparr>)
     (sum_map_err (codec_error_new (rkyv_to_string L)) (access L (res_value r))))"
  by (auto simp: archived_reserve_def reserve_then_def fun_eq_iff Let_def split: option.split outcome.split sum.split)

section \<open>Properties\<close>

text \<open>C30. The \<open>unsafe\<close> read of \<open>get\<close> is sound: a guard from \<open>reserve\<close> over an atomic store holds the
  bytes of the smallest ready item in a buffer that \<open>access\<close> accepted, and if unchecked access
  agrees with the checked one on accepted bytes, \<open>get\<close> is the validated archive.\<close>

theorem archived_get_validated:
  assumes "atomic_store S sinv view" and "sinv (store sh)" and "wf_queue (view (store sh)) sh"
    and "\<And>b a. access L b = Inr a \<Longrightarrow> access_unchecked L b = a"
    and "archived_reserve S L sh = Some (Ok (Some g), sh1)"
  shows "aligned g = res_value (archived_inner g) \<and> access L (aligned g) = Inr (archived_get L g) \<and>
    a_reserve (abs_queue (view (store sh)) sh) =
      Some (archived_seq g, aligned g, abs_queue (view (store sh1)) sh1)"
proof -
  let ?f = "\<lambda>r. sum_map (\<lambda>_. \<lparr>archived_inner = r, aligned = res_value r\<rparr>)
     (sum_map_err (codec_error_new (rkyv_to_string L)) (access L (res_value r)))"
  obtain r where r: "?f r = Inr g" "a_reserve (abs_queue (view (store sh)) sh) =
      Some (res_seq r, res_value r, abs_queue (view (store sh1)) sh1)"
    using atomic_store.reserve_then_abs [OF assms(1-3), of ?f] assms(5)
    unfolding archived_reserve_then by (auto simp: reserve_fits_def)
  from r(1) obtain a where "access L (res_value r) = Inr a" "g = \<lparr>archived_inner = r, aligned = res_value r\<rparr>"
    by auto
  with r(2) assms(4) show ?thesis by (simp add: archived_get_def archived_seq_def)
qed

text \<open>C29. The zero-copy round trip: with a library whose \<open>access\<close> accepts what \<open>to_bytes\<close> wrote, after
  \<open>push v\<close> returned \<open>Ok\<close> on a queue with nothing ready, \<open>reserve\<close> delivers that number and its
  archive is that of \<open>v\<close>, unless the store fails.\<close>

theorem archived_roundtrip:
  assumes "atomic_store S sinv view" and "sinv (store sh)" and "wf_queue (view (store sh)) sh"
    and "\<And>v b. to_bytes L v = Inr b \<Longrightarrow> access L b = Inr (archive v)"
    and "\<And>b a. access L b = Inr a \<Longrightarrow> access_unchecked L b = a"
    and "archived_push S L sh v = Some (Ok (), sh1)" and "a_ready (abs_queue (view (store sh)) sh) = {}"
  shows "\<exists>res sh2. archived_reserve S L sh1 = Some (res, sh2) \<and>
    ((\<exists>e s c. res = Err (Reserve_Store e) \<and> fst (seek S s c) = Inl e) \<or>
     (\<exists>g. res = Ok (Some g) \<and> archived_seq g = tail (inner sh) \<and> archived_get L g = archive v))"
proof -
  let ?q = "abs_queue (view (store sh)) sh"
  let ?f = "\<lambda>r. sum_map (\<lambda>_. \<lparr>archived_inner = r, aligned = res_value r\<rparr>)
     (sum_map_err (codec_error_new (rkyv_to_string L)) (access L (res_value r)))"
  obtain b where b: "to_bytes L v = Inr b" "encode (Rkyv L) v = Inr b"
    using assms(6) by (cases "to_bytes L v") (auto simp: archived_push_def Rkyv_def rkyv_encode_def)
  from atomic_store.typed_push_abs [OF assms(1-3) b(2), of "Ok ()" sh1] assms(6)
  have p: "sinv (store sh1)" "wf_queue (view (store sh1)) sh1" "abs_queue (view (store sh1)) sh1 = a_push ?q b"
    by (auto simp: archived_push_typed)
  obtain q where q: "a_reserve (a_push ?q b) = Some (tail (inner sh), b, q)"
    using a_reserve_pushed [OF assms(3,7)] by blast
  obtain res sh2 q2 where r: "archived_reserve S L sh1 = Some (res, sh2)" "reserve_fits S ?f (a_push ?q b) res q2"
    using atomic_store.reserve_then_abs [OF assms(1) p(1,2), of ?f]
    unfolding archived_reserve_then [symmetric] p(3) by blast
  have "archived_get L g = archive v" if "g = \<lparr>archived_inner = r, aligned = b\<rparr>" for g r
    using assms(5) [OF assms(4) [OF b(1)]] that by (simp add: archived_get_def)
  then have "(\<exists>e s c. res = Err (Reserve_Store e) \<and> fst (seek S s c) = Inl e) \<or>
     (\<exists>g. res = Ok (Some g) \<and> archived_seq g = tail (inner sh) \<and> archived_get L g = archive v)"
    using r(2) q assms(4) [OF b(1)]
    by (fastforce simp: reserve_fits_def archived_seq_def split: outcome.splits option.splits ReserveError.splits)
  with r(1) show ?thesis by blast
qed

section \<open>Concrete runs\<close>

lemma byte_rkyv_laws:
  "\<And>v b. to_bytes byte_rkyv v = Inr b \<Longrightarrow> access byte_rkyv b = Inr v"
  "\<And>b a. access byte_rkyv b = Inr a \<Longrightarrow> access_unchecked byte_rkyv b = a"
  by (auto simp: byte_rkyv_def split: if_splits list.splits)

lemma demo_archived_push: "\<exists>sh1. archived_push MemQ byte_rkyv demo_taken 9 = Some (Ok (), sh1)"
  by (simp add: archived_push_def byte_rkyv_def push_def enter_def admits_def claim_def write_entry_def commit_to_def
      mem_commit_def demo_taken_def demo_queue_def checked_inc_def checked_add_def saturating_add_def)

theorem archived_roundtrip_witness:
  "\<exists>sh1 sh2 g. archived_push MemQ byte_rkyv demo_taken 9 = Some (Ok (), sh1) \<and>
    archived_reserve MemQ byte_rkyv sh1 = Some (Ok (Some g), sh2) \<and> archived_get byte_rkyv g = 9"
proof -
  obtain sh1 where p: "archived_push MemQ byte_rkyv demo_taken 9 = Some (Ok (), sh1)"
    using demo_archived_push by blast
  have "fst (seek MemQ s c) \<noteq> Inl x" for s c x by (simp add: mem_seek_def)
  moreover have "a_ready (abs_queue (map_of (store demo_taken)) demo_taken) = {}"
    by (simp add: a_ready_def abs_queue_def demo_items)
  ultimately show ?thesis
    using archived_roundtrip [OF demo_hyps(1,3,5), where archive = "\<lambda>v. v", OF byte_rkyv_laws p] p by blast
qed

lemma demo_archived_reserve:
  "archived_reserve MemQ byte_rkyv demo_queue = Some (Ok (Some \<lparr>archived_inner =
     \<lparr>res_seq = 0, res_value = [7], res_done = False\<rparr>, aligned = [7]\<rparr>), demo_taken)"
  by (simp add: archived_reserve_def reserve_def reserve_loop.simps mem_seek_def demo_queue_def demo_taken_def
      demo_store_def not_le reserve_check_def byte_rkyv_def Let_def)

theorem archived_get_validated_witness:
  "\<exists>g. archived_reserve MemQ byte_rkyv demo_queue = Some (Ok (Some g), demo_taken) \<and>
    access byte_rkyv (aligned g) = Inr (archived_get byte_rkyv g) \<and> aligned g = [7]"
  using archived_get_validated [OF demo_hyps(1,2,4) byte_rkyv_laws(2) demo_archived_reserve] demo_archived_reserve
  by simp

end
