(* ===== verification/Async.thy ===== *)
theory Async imports Delivery begin

text \<open>
  The async facade (\<open>src/src/async_queue.rs\<close>). Each operation runs the synchronous one on a
  blocking thread and waits, when it must, on one of two tokio \<open>Notify\<close> objects. Tokio is not
  part of the repository: what happens while a task waits is the parameter \<open>await\<close> (the n-th wait
  of the call takes the state to the one in which it wakes, or never wakes: \<open>None\<close>), and
  \<open>signalled\<close> logs the notifications the code sends, in order. A task joined after a panic panics
  (\<open>join\<close>), so the outcome is passed through.
\<close>

section \<open>State\<close>

datatype signal = RoomOne | RoomAll | ItemsOne | ItemsAll

record 's AsyncQueue =
  queue :: "'s Shared"
  signalled :: "signal list"

definition notify :: "signal \<Rightarrow> 's AsyncQueue \<Rightarrow> 's AsyncQueue" where
  "notify n a = a\<lparr>signalled := signalled a @ [n]\<rparr>"

definition open_async ::
  "('s, 'e) Store \<Rightarrow> 's Builder \<Rightarrow> (('e OpenError, 's AsyncQueue) outcome \<times> 's) option" where
  "open_async S b =
     map_option (\<lambda>(r, st). (case r of
         Ok sh \<Rightarrow> Ok \<lparr>queue = sh, signalled = []\<rparr>
       | Err e \<Rightarrow> Err e
       | Panic \<Rightarrow> Panic, st)) (open_queue S b)"

section \<open>Producer\<close>

text \<open>The loop of \<open>push\<close>; \<open>n\<close> counts the waits.\<close>

partial_function (option) async_push ::
  "('s, 'e) Store \<Rightarrow> (nat \<Rightarrow> 's AsyncQueue \<Rightarrow> 's AsyncQueue option) \<Rightarrow> nat \<Rightarrow> 's AsyncQueue \<Rightarrow> val \<Rightarrow>
    (('e PushError, unit) outcome \<times> 's AsyncQueue) option" where
  "async_push S await n a v =
     (case try_push S (queue a) v of
        None \<Rightarrow> None
      | Some (Ok _, sh) \<Rightarrow> Some (Ok (), notify ItemsOne (a\<lparr>queue := sh\<rparr>))
      | Some (Panic, sh) \<Rightarrow> Some (Panic, a\<lparr>queue := sh\<rparr>)
      | Some (Err Try_Closed, sh) \<Rightarrow> Some (Err Push_Closed, a\<lparr>queue := sh\<rparr>)
      | Some (Err (Try_Store e), sh) \<Rightarrow> Some (Err (Push_Store e), a\<lparr>queue := sh\<rparr>)
      | Some (Err Try_Full, sh) \<Rightarrow>
          (case await n (a\<lparr>queue := sh\<rparr>) of
             None \<Rightarrow> None
           | Some a1 \<Rightarrow> async_push S await (Suc n) a1 v))"

definition async_try_push ::
  "('s, 'e) Store \<Rightarrow> 's AsyncQueue \<Rightarrow> val \<Rightarrow> (('e TryPushError, unit) outcome \<times> 's AsyncQueue) option" where
  "async_try_push S a v =
     map_option (\<lambda>(r, sh). (r, if r = Ok () then notify ItemsOne (a\<lparr>queue := sh\<rparr>) else a\<lparr>queue := sh\<rparr>))
       (try_push S (queue a) v)"

definition async_close :: "'s AsyncQueue \<Rightarrow> 's AsyncQueue" where
  "async_close a = notify ItemsAll (notify RoomAll (a\<lparr>queue := close (queue a)\<rparr>))"

definition async_len :: "'s AsyncQueue \<Rightarrow> usize" where
  "async_len a = queue_len (queue a)"

definition async_is_empty :: "'s AsyncQueue \<Rightarrow> bool" where
  "async_is_empty a = is_empty (queue a)"

section \<open>Consumer\<close>

text \<open>The guard is an \<open>Option\<close>, empty once it is consumed.\<close>

type_synonym AsyncReserved = "Reserved option"

partial_function (option) async_reserve ::
  "('s, 'e) Store \<Rightarrow> (nat \<Rightarrow> 's AsyncQueue \<Rightarrow> 's AsyncQueue option) \<Rightarrow> nat \<Rightarrow> 's AsyncQueue \<Rightarrow>
    (('e, AsyncReserved option) outcome \<times> 's AsyncQueue) option" where
  "async_reserve S await n a =
     (case reserve S (queue a) of
        None \<Rightarrow> None
      | Some (Err e, sh) \<Rightarrow> Some (Err e, a\<lparr>queue := sh\<rparr>)
      | Some (Panic, sh) \<Rightarrow> Some (Panic, a\<lparr>queue := sh\<rparr>)
      | Some (Ok (Some r), sh) \<Rightarrow> Some (Ok (Some (Some r)), a\<lparr>queue := sh\<rparr>)
      | Some (Ok None, sh) \<Rightarrow>
          (if is_drained sh then Some (Ok None, a\<lparr>queue := sh\<rparr>)
           else (case await n (a\<lparr>queue := sh\<rparr>) of
                   None \<Rightarrow> None
                 | Some a1 \<Rightarrow> async_reserve S await (Suc n) a1)))"

text \<open>\<open>expect("reserved already consumed")\<close>\<close>

definition async_seq :: "AsyncReserved \<Rightarrow> u64 option" where
  "async_seq g = map_option reserved_seq g"

definition async_deref :: "AsyncReserved \<Rightarrow> val option" where
  "async_deref g = map_option reserved_deref g"

definition async_ack :: "('s, 'e) Store \<Rightarrow> 's AsyncQueue \<Rightarrow> AsyncReserved \<Rightarrow> ('e, unit) outcome \<times> 's AsyncQueue" where
  "async_ack S a g =
     (case g of
        None \<Rightarrow> (Panic, a)
      | Some r \<Rightarrow>
          (case ack S (queue a) r of
             (Ok _, sh) \<Rightarrow> (Ok (), notify ItemsOne (notify RoomOne (a\<lparr>queue := sh\<rparr>)))
           | (res, sh) \<Rightarrow> (res, a\<lparr>queue := sh\<rparr>)))"

definition async_nack :: "'s AsyncQueue \<Rightarrow> AsyncReserved \<Rightarrow> 's AsyncQueue" where
  "async_nack a g =
     (case g of None \<Rightarrow> a | Some r \<Rightarrow> notify ItemsOne (a\<lparr>queue := nack (queue a) r\<rparr>))"

definition async_drop :: "'s AsyncQueue \<Rightarrow> AsyncReserved \<Rightarrow> 's AsyncQueue" where
  "async_drop a g =
     (case g of None \<Rightarrow> a | Some r \<Rightarrow> notify ItemsOne (a\<lparr>queue := nack (queue a) r\<rparr>))"

section \<open>Waiting\<close>

text \<open>The states at which the attempts of a call are made: after \<open>k\<close> waits.\<close>

fun attempt_at :: "(nat \<Rightarrow> 's AsyncQueue \<Rightarrow> 's AsyncQueue option) \<Rightarrow> nat \<Rightarrow> nat \<Rightarrow>
    's AsyncQueue \<Rightarrow> 's AsyncQueue option" where
  "attempt_at await n 0 a = Some a"
| "attempt_at await n (Suc k) a = (case await n a of None \<Rightarrow> None | Some b \<Rightarrow> attempt_at await (Suc n) k b)"

lemma notify_sel [simp]: "queue (notify n a) = queue a" "signalled (notify n a) = signalled a @ [n]"
  by (simp_all add: notify_def)

lemma try_push_full_same: "try_push S sh v = Some (Err Try_Full, sh') \<Longrightarrow> sh' = sh"
  by (auto simp: try_push_def map_err_eq_Err split: admission.splits)

definition turned_away :: "('s, 'e) Store \<Rightarrow> val \<Rightarrow> 's AsyncQueue \<Rightarrow> bool" where
  "turned_away S v b \<longleftrightarrow> try_push S (queue b) v = Some (Err Try_Full, queue b)"

definition push_ends :: "('s, 'e) Store \<Rightarrow> val \<Rightarrow> 's AsyncQueue \<Rightarrow> ('e PushError, unit) outcome \<Rightarrow> 's AsyncQueue \<Rightarrow> bool" where
  "push_ends S v b res a' \<longleftrightarrow> (\<exists>r. try_push S (queue b) v = Some (r, queue a') \<and>
     (case r of
        Ok u \<Rightarrow> res = Ok () \<and> signalled a' = signalled b @ [ItemsOne]
      | Err Try_Full \<Rightarrow> False
      | Err Try_Closed \<Rightarrow> res = Err Push_Closed \<and> signalled a' = signalled b
      | Err (Try_Store e) \<Rightarrow> res = Err (Push_Store e) \<and> signalled a' = signalled b
      | Panic \<Rightarrow> res = Panic \<and> signalled a' = signalled b))"

lemma attempt_first: "await n a = Some b \<Longrightarrow> attempt_at await n (Suc k) a = attempt_at await (Suc n) k b"
  by simp

lemma async_push_runs:
  assumes "async_push S await n a v = Some out"
  shows "\<exists>k b. attempt_at await n k a = Some b \<and> push_ends S v b (fst out) (snd out) \<and>
    (\<forall>j < k. \<exists>b'. attempt_at await n j a = Some b' \<and> turned_away S v b')"
proof (rule async_push.raw_induct [where P = "\<lambda>S await n a v out.
    \<exists>k b. attempt_at await n k a = Some b \<and> push_ends S v b (fst out) (snd out) \<and>
    (\<forall>j < k. \<exists>b'. attempt_at await n j a = Some b' \<and> turned_away S v b')", OF _ assms], goal_cases)
  case (1 f S await n a v out)
  obtain r sh where t: "try_push S (queue a) v = Some (r, sh)"
    using 1(2) by (cases "try_push S (queue a) v") auto
  show ?case
  proof (cases "r = Err Try_Full")
    case True
    with t have same: "sh = queue a" by (simp add: try_push_full_same)
    have away: "turned_away S v a" using t True same by (simp add: turned_away_def)
    obtain b where b: "await n a = Some b" "f S await (Suc n) b v = Some out"
      using 1(2) t True same by (auto split: option.splits)
    obtain k c where k: "attempt_at await (Suc n) k b = Some c" "push_ends S v c (fst out) (snd out)"
      "\<forall>j < k. \<exists>b'. attempt_at await (Suc n) j b = Some b' \<and> turned_away S v b'"
      using 1(1) [OF b(2)] by blast
    have "\<exists>b'. attempt_at await n j a = Some b' \<and> turned_away S v b'" if "j < Suc k" for j
      using that away k(3) b(1) by (cases j) auto
    with k(1,2) b(1) show ?thesis by (intro exI [of _ "Suc k"] exI [of _ c]) simp
  next
    case False
    with 1(2) t have "push_ends S v a (fst out) (snd out)"
      by (cases r) (auto simp: push_ends_def split: TryPushError.splits)
    then show ?thesis by (intro exI [of _ 0] exI [of _ a]) simp
  qed
qed

lemma async_push_from:
  assumes "attempt_at await n k a = Some b" and "push_ends S v b res a'"
    and "\<forall>j < k. \<exists>b'. attempt_at await n j a = Some b' \<and> turned_away S v b'"
  shows "async_push S await n a v = Some (res, a')"
  using assms
proof (induction k arbitrary: n a)
  case 0
  then obtain r where t: "try_push S (queue a) v = Some (r, queue a')" and e: "push_ends S v a res a'"
    by (auto simp: push_ends_def)
  show ?case
  proof (cases r)
    case (Err x)
    with t e show ?thesis
      by (cases x; cases a; cases a') (auto simp: async_push.simps [of S] push_ends_def)
  qed (use t e in \<open>cases a; cases a'; auto simp: async_push.simps [of S] push_ends_def notify_def\<close>)+
next
  case (Suc k)
  have away: "turned_away S v a" using Suc.prems(3) by auto
  obtain c where c: "await n a = Some c" "attempt_at await (Suc n) k c = Some b"
    using Suc.prems(1) by (auto split: option.splits)
  have "\<exists>b'. attempt_at await (Suc n) j c = Some b' \<and> turned_away S v b'" if "j < k" for j
    using Suc.prems(3) [rule_format, of "Suc j"] that c(1) by simp
  then have "async_push S await (Suc n) c v = Some (res, a')"
    using Suc.IH [OF c(2) Suc.prems(2)] by blast
  with away c(1) show ?case by (simp add: async_push.simps [of S await n] turned_away_def)
qed

definition reserve_ends ::
  "('s, 'e) Store \<Rightarrow> 's AsyncQueue \<Rightarrow> ('e, AsyncReserved option) outcome \<Rightarrow> 's AsyncQueue \<Rightarrow> bool" where
  "reserve_ends S b res a' \<longleftrightarrow> signalled a' = signalled b \<and> (\<exists>r. reserve S (queue b) = Some (r, queue a') \<and>
     (case r of
        Ok (Some g) \<Rightarrow> res = Ok (Some (Some g))
      | Ok None \<Rightarrow> res = Ok None \<and> is_drained (queue a')
      | Err e \<Rightarrow> res = Err e
      | Panic \<Rightarrow> res = Panic))"

lemma async_reserve_runs:
  assumes "async_reserve S await n a = Some out"
  shows "\<exists>b. reserve_ends S b (fst out) (snd out)"
proof (rule async_reserve.raw_induct
    [where P = "\<lambda>S await n a out. \<exists>b. reserve_ends S b (fst out) (snd out)", OF _ assms], goal_cases)
  case (1 f S await n a out)
  obtain r sh where t: "reserve S (queue a) = Some (r, sh)"
    using 1(2) by (cases "reserve S (queue a)") auto
  show ?case
  proof (cases "r = Ok None \<and> \<not> is_drained sh")
    case True
    with 1(2) t obtain b where "f S await (Suc n) b = Some out" by (auto split: option.splits)
    then show ?thesis by (rule 1(1))
  next
    case False
    with 1(2) t have "reserve_ends S a (fst out) (snd out)"
      by (cases r) (auto simp: reserve_ends_def split: option.splits)
    then show ?thesis by blast
  qed
qed

section \<open>Properties\<close>

text \<open>C37. The async \<open>push\<close>, exactly. It returns if and only if one of its attempts is not turned away as
  full and all those before it were, each after a wait that ended; the outcome is that attempt's
  under the \<open>push\<close> error names (a full queue is never reported), and a success, and only that,
  notifies one waiting consumer.\<close>

theorem async_push_outcome:
  "async_push S await n a v = Some (res, a') \<longleftrightarrow> (\<exists>k b. attempt_at await n k a = Some b \<and>
    (\<forall>j < k. \<exists>b'. attempt_at await n j a = Some b' \<and> try_push S (queue b') v = Some (Err Try_Full, queue b')) \<and>
    (\<exists>r. try_push S (queue b) v = Some (r, queue a') \<and>
     (case r of
        Ok u \<Rightarrow> res = Ok () \<and> signalled a' = signalled b @ [ItemsOne]
      | Err Try_Full \<Rightarrow> False
      | Err Try_Closed \<Rightarrow> res = Err Push_Closed \<and> signalled a' = signalled b
      | Err (Try_Store e) \<Rightarrow> res = Err (Push_Store e) \<and> signalled a' = signalled b
      | Panic \<Rightarrow> res = Panic \<and> signalled a' = signalled b)))"
  unfolding push_ends_def [symmetric] turned_away_def [symmetric]
  using async_push_runs [of S await n a v "(res, a')"] async_push_from [of await n _ a _ S v res a'] by fastforce

text \<open>The async \<open>reserve\<close> reports the end only at the end: \<open>None\<close> means that the last attempt
  found nothing to deliver and the queue is closed with no item left; a guard is the one the last
  attempt took, with the outcome of that attempt otherwise.\<close>

theorem async_reserve_end:
  fixes S :: "('s, 'e) Store"
  assumes "async_reserve S await n a = Some (res, a')"
  shows "\<exists>(b :: 's AsyncQueue) r. reserve S (queue b) = Some (r, queue a') \<and> signalled a' = signalled b \<and>
    (res = Ok None \<longrightarrow> r = Ok None \<and> closed (inner (queue a')) \<and> queue_len (queue a') = 0) \<and>
    (\<forall>g. res = Ok (Some g) \<longrightarrow> g \<noteq> None \<and> r = Ok g) \<and>
    (\<forall>e. res = Err e \<longrightarrow> r = Err e)"
  using async_reserve_runs [OF assms] unfolding reserve_ends_def fst_conv snd_conv
proof (elim exE conjE, goal_cases)
  case (1 b r)
  show ?case
    by (rule exI [of _ b], rule exI [of _ r])
      (use 1 in \<open>auto simp: is_drained_def queue_len_def split: outcome.splits option.splits\<close>)
qed

text \<open>What the end of an async guard does. Over an atomic store with the item in flight, \<open>nack\<close> and
  drop return the item and then notify a waiting consumer; a successful \<open>ack\<close> removes it and
  notifies a producer and a consumer; but a failed \<open>ack\<close> returns the item and notifies nobody, so
  a consumer that waits for items is not woken for it.\<close>

theorem async_guard_ends:
  assumes "atomic_store S sinv view" and "sinv (store (queue a))" and "wf_queue (view (store (queue a))) (queue a)"
    and "res_seq r \<in> reserved (inner (queue a))"
    and "items_of (view (store (queue a))) (res_seq r) = Some (res_value r)" and "\<not> res_done r"
  defines "q \<equiv> abs_queue (view (store (queue a))) (queue a)"
  shows "queue (async_nack a (Some r)) = release (queue a) r \<and>
    signalled (async_nack a (Some r)) = signalled a @ [ItemsOne] \<and> async_drop a (Some r) = async_nack a (Some r) \<and>
    async_drop a None = a \<and>
    (\<exists>res a'. async_ack S a (Some r) = (res, a') \<and>
       (case res of
          Ok _ \<Rightarrow> abs_queue (view (store (queue a'))) (queue a') = a_ack q (res_seq r) \<and>
            signalled a' = signalled a @ [RoomOne, ItemsOne]
        | Err e \<Rightarrow> abs_queue (view (store (queue a'))) (queue a') = a_nack q (res_seq r) \<and>
            signalled a' = signalled a
        | Panic \<Rightarrow> False))"
proof -
  have "\<exists>res sh'. ack S (queue a) r = (res, sh') \<and> res \<noteq> Panic \<and>
    (res = Ok () \<longrightarrow> abs_queue (view (store sh')) sh' = a_ack q (res_seq r)) \<and>
    (\<forall>e. res = Err e \<longrightarrow> abs_queue (view (store sh')) sh' = a_nack q (res_seq r))"
    unfolding q_def by (rule atomic_store.ack_refines [OF assms(1-6)], rule exI, rule exI) auto
  then obtain res sh' where k: "ack S (queue a) r = (res, sh')" "res \<noteq> Panic"
    "res = Ok () \<longrightarrow> abs_queue (view (store sh')) sh' = a_ack q (res_seq r)"
    "\<forall>e. res = Err e \<longrightarrow> abs_queue (view (store sh')) sh' = a_nack q (res_seq r)" by blast
  have "nack (queue a) r = release (queue a) r" by (simp add: nack_def drop_reserved_def)
  with k show ?thesis
    by (cases res) (auto simp: async_nack_def async_drop_def async_ack_def)
qed

text \<open>A failed async push gives its slot back without telling anyone. Between the claim of the
  slot and the failed write the queue counts one item more, so another producer may be turned
  away and wait; when the write fails the count returns to what it was, but no notification is
  sent: nothing wakes that producer.\<close>

theorem async_failed_push_silent:
  assumes "atomic_store S sinv view" and "sinv (store (queue a))" and "wf_queue (view (store (queue a))) (queue a)"
    and "async_try_push S a v = Some (Err (Try_Store e), a')"
  shows "\<exists>q i. enter (queue a) (length v) = Admitted q i \<and> len i = len (inner (queue a)) + 1 \<and>
    bytes i = bytes (inner (queue a)) + length v \<and>
    len (inner (queue a')) = len (inner (queue a)) \<and> bytes (inner (queue a')) = bytes (inner (queue a)) \<and>
    signalled a' = signalled a"
proof -
  have t: "try_push S (queue a) v = Some (Err (Try_Store e), queue a')" and s: "signalled a' = signalled a"
    using assms(4) by (auto simp: async_try_push_def)
  obtain q i where en: "enter (queue a) (length v) = Admitted q i"
    using t by (cases "enter (queue a) (length v)") (auto simp: try_push_def)
  then have i: "len i = len (inner (queue a)) + 1" "bytes i = bytes (inner (queue a)) + length v" by auto
  have w: "wf_queue (view (store (queue a'))) (queue a')" and
    b: "abs_queue (view (store (queue a'))) (queue a') = a_burn (abs_queue (view (store (queue a))) (queue a))"
    using atomic_store.try_push_abs [OF assms(1-3), of v] t by auto
  have "items_of (view (store (queue a'))) = items_of (view (store (queue a)))"
    using b by (simp add: abs_queue_def a_burn_def)
  with wf_queueD(6,7) [OF w] wf_queueD(6,7) [OF assms(3)]
  have "len (inner (queue a')) = len (inner (queue a))" "bytes (inner (queue a')) = bytes (inner (queue a))"
    by simp_all
  with en i s show ?thesis by blast
qed

section \<open>Concrete runs\<close>

text \<open>A full queue that has room after one wait, an empty one that is closed during a wait, and a
  queue on a disk that refuses writes.\<close>

definition demo_small :: "mem_store Shared" where
  "demo_small = demo_queue\<lparr>capacity := 1\<rparr>"

definition demo_full :: "mem_store AsyncQueue" where
  "demo_full = \<lparr>queue = demo_small, signalled = []\<rparr>"

definition demo_idle :: "bool \<Rightarrow> mem_store AsyncQueue" where
  "demo_idle c = \<lparr>queue = \<lparr>store = [(META_KEY, [FORMAT_VERSION])], capacity = 1, max_bytes = 100, durable = True,
     ack_durable = True, group = False, inner = \<lparr>tail = 1, head = 1, acked_above = {}, len = 0, bytes = 0,
       reserved = {}, closed = c\<rparr>, group_state = group_default\<rparr>, signalled = []\<rparr>"

definition demo_broken :: "shared_mem AsyncQueue" where
  "demo_broken = \<lparr>queue = \<lparr>store = \<lparr>live = demo_store, synced = demo_store, commits = 0, fail_at = Some 0\<rparr>,
     capacity = 2, max_bytes = 100, durable = True, ack_durable = True, group = False,
     inner = inner demo_queue, group_state = group_default\<rparr>, signalled = []\<rparr>"

abbreviation MemA :: "(mem_store, unit) Store" where
  "MemA \<equiv> MemStore"

lemma demo_full_turned_away:
  "try_push MemA demo_small [8] = Some (Err Try_Full, demo_small)"
  by (simp add: try_push_def enter_def admits_def demo_queue_def demo_small_def)

lemma demo_room: "\<exists>sh. try_push MemA demo_queue [8] = Some (Ok (), sh)"
  by (simp add: try_push_def enter_def admits_def claim_def write_entry_def commit_to_def mem_commit_def
      demo_queue_def checked_inc_def checked_add_def saturating_add_def)

lemma demo_async_push:
  "\<exists>a'. async_push MemA (\<lambda>n a. Some \<lparr>queue = demo_queue, signalled = []\<rparr>) 0 demo_full [8] = Some (Ok (), a')"
proof -
  obtain sh where "try_push MemA demo_queue [8] = Some (Ok (), sh)" using demo_room by blast
  then show ?thesis
    by (simp add: async_push.simps [of MemA _ 0] async_push.simps [of MemA _ "Suc 0"] demo_full_def
        demo_full_turned_away)
qed

theorem async_push_outcome_witness:
  "\<exists>a' k b. async_push MemA (\<lambda>n a. Some \<lparr>queue = demo_queue, signalled = []\<rparr>) 0 demo_full [8] = Some (Ok (), a') \<and>
    signalled a' = signalled b @ [ItemsOne] \<and>
    attempt_at (\<lambda>n a. Some \<lparr>queue = demo_queue, signalled = []\<rparr>) 0 k demo_full = Some b"
proof -
  obtain a' where p: "async_push MemA (\<lambda>n a. Some \<lparr>queue = demo_queue, signalled = []\<rparr>) 0 demo_full [8] = Some (Ok (), a')"
    using demo_async_push by blast
  from async_push_outcome [THEN iffD1, OF p] show ?thesis
  proof (elim exE conjE, goal_cases)
    case (1 k b r)
    have "signalled a' = signalled b @ [ItemsOne]"
    proof (cases r)
      case (Err x)
      with 1(4) show ?thesis by (cases x) auto
    qed (use 1(4) in auto)
    with p 1(1) show ?thesis by blast
  qed
qed

lemma demo_idle_reserve: "reserve MemA (queue (demo_idle c)) = Some (Ok None, queue (demo_idle c))"
  by (simp add: reserve_def reserve_loop.simps mem_seek_def demo_idle_def not_le)

lemma demo_async_reserve:
  "async_reserve MemA (\<lambda>n a. Some (demo_idle True)) 0 (demo_idle False) = Some (Ok None, demo_idle True)"
proof -
  have "\<not> is_drained (queue (demo_idle False))" "is_drained (queue (demo_idle True))"
    "(demo_idle c)\<lparr>queue := queue (demo_idle c)\<rparr> = demo_idle c" for c
    by (simp_all add: is_drained_def demo_idle_def)
  then show ?thesis
    by (simp add: async_reserve.simps [of MemA _ 0] async_reserve.simps [of MemA _ "Suc 0"] demo_idle_reserve)
qed

theorem async_reserve_end_witness:
  "async_reserve MemA (\<lambda>n a. Some (demo_idle True)) 0 (demo_idle False) = Some (Ok None, demo_idle True) \<and>
   closed (inner (queue (demo_idle True))) \<and> queue_len (queue (demo_idle True)) = 0"
  using async_reserve_end [OF demo_async_reserve] demo_async_reserve by blast

theorem async_guard_ends_witness:
  "\<exists>a'. async_ack MemA \<lparr>queue = demo_taken, signalled = []\<rparr> (Some \<lparr>res_seq = 0, res_value = [7], res_done = False\<rparr>) = (Ok (), a') \<and>
    signalled a' = [RoomOne, ItemsOne]"
proof -
  let ?a = "\<lparr>queue = demo_taken, signalled = []\<rparr>" and ?r = "\<lparr>res_seq = 0, res_value = [7], res_done = False\<rparr>"
  have hyps: "atomic_store MemA bt_ordered map_of" "bt_ordered (store (queue ?a))"
    "wf_queue (map_of (store (queue ?a))) (queue ?a)" "res_seq ?r \<in> reserved (inner (queue ?a))"
    "items_of (map_of (store (queue ?a))) (res_seq ?r) = Some (res_value ?r)" "\<not> res_done ?r"
    using mem.atomic_store_axioms demo_ordered demo_taken_wf by (simp_all add: demo_items)
  have "ack MemA sh r \<noteq> (Err e, sh')" for sh r e sh'
    by (auto simp: ack_def commit_to_def mem_commit_def split: option.splits)
  then have "async_ack MemA ?a (Some ?r) \<noteq> (Err e, a')" for e a'
    by (auto simp: async_ack_def split: prod.splits outcome.splits)
  moreover obtain res a' where k: "async_ack MemA ?a (Some ?r) = (res, a')" "case res of
          Ok _ \<Rightarrow> signalled a' = signalled ?a @ [RoomOne, ItemsOne] | Err e \<Rightarrow> True | Panic \<Rightarrow> False"
    using async_guard_ends [OF hyps]
  proof (elim conjE exE, goal_cases)
    case (1 res a')
    then show ?case by (cases res) auto
  qed
  ultimately show ?thesis by (cases res) auto
qed

lemma demo_broken_fails:
  "\<exists>a'. async_try_push SharedMem demo_broken [8] = Some (Err (Try_Store FaultError), a')"
  by (simp add: async_try_push_def try_push_def enter_def admits_def claim_def write_entry_def commit_to_def
      sm_commit_def demo_broken_def demo_queue_def checked_inc_def checked_add_def saturating_add_def Let_def
      give_back_def checked_sub_def)

theorem async_failed_push_silent_witness:
  "\<exists>a'. async_try_push SharedMem demo_broken [8] = Some (Err (Try_Store FaultError), a') \<and>
    signalled a' = [] \<and> len (inner (queue a')) = 1"
proof -
  obtain a' where p: "async_try_push SharedMem demo_broken [8] = Some (Err (Try_Store FaultError), a')"
    using demo_broken_fails by blast
  have "sm_inv (store (queue demo_broken))" "wf_queue (sm_view (store (queue demo_broken))) (queue demo_broken)"
    using demo_ordered demo_wf by (simp_all add: demo_broken_def sm_inv_def wf_queue_def Let_def demo_queue_def)
  from async_failed_push_silent [OF sm.atomic_store_axioms this p] p show ?thesis
    by (auto simp: demo_broken_def demo_queue_def)
qed

end
