(* ===== verification/Tasks.thy ===== *)
theory Tasks imports Wakeups begin

text \<open>
  The async facade with many tasks (\<open>src/src/async_queue.rs\<close>). A state is a state of the thread
  machine (\<open>Machine\<close>: the queue, the blocking threads and the live guards), the two \<open>Notify\<close>
  objects of \<open>Signals\<close>, and the multiset of the tasks inside an async call, each at the point it has
  reached. A task that awaits a blocking call carries the program counter of its thread, whose steps
  are those of the thread machine. A future may be dropped at any await: its waker goes, the blocking
  call runs on by itself and its result is dropped.

  Tokio's \<open>Notify\<close> is not part of the repository: it is the record \<open>Notify\<close> of the calls made, and
  \<open>notify_lawful\<close> is what tokio documents of them. \<open>waiting\<close> are the registered wakers nobody has
  notified, \<open>chosen\<close> those picked by \<open>notify_one\<close> and not awaited yet.
\<close>

section \<open>Notify\<close>

record 'n Notify =
  nt_new :: 'n
  nt_enable :: "'n \<Rightarrow> nat \<Rightarrow> 'n"
  nt_ready :: "'n \<Rightarrow> nat \<Rightarrow> bool"
  nt_await :: "'n \<Rightarrow> nat \<Rightarrow> 'n"
  nt_drop :: "'n \<Rightarrow> nat \<Rightarrow> 'n"
  nt_one :: "'n \<Rightarrow> 'n"
  nt_all :: "'n \<Rightarrow> 'n"

text \<open>One of the waiting wakers, if any, is picked.\<close>

definition picks :: "nat set \<Rightarrow> nat set \<Rightarrow> nat set \<Rightarrow> nat set \<Rightarrow> bool" where
  "picks W C W' C' \<longleftrightarrow>
     (if W = {} then W' = {} \<and> C' = C else (\<exists>u \<in> W. W' = W - {u} \<and> C' = insert u C))"

text \<open>A registered waker waits or is ready, until it is awaited or dropped.\<close>

definition keeps_alive ::
  "'n Notify \<Rightarrow> ('n \<Rightarrow> bool) \<Rightarrow> ('n \<Rightarrow> nat set) \<Rightarrow> 'n \<Rightarrow> 'n \<Rightarrow> nat set \<Rightarrow> bool" where
  "keeps_alive N ninv waiting n n' D \<longleftrightarrow> ninv n' \<and>
     (\<forall>w. w \<notin> D \<longrightarrow> w \<in> waiting n \<or> nt_ready N n w \<longrightarrow> w \<in> waiting n' \<or> nt_ready N n' w)"

text \<open>A picked waker is ready, a waiting one is not.\<close>

definition ready_law :: "'n Notify \<Rightarrow> ('n \<Rightarrow> nat set) \<Rightarrow> ('n \<Rightarrow> nat set) \<Rightarrow> 'n \<Rightarrow> nat \<Rightarrow> bool" where
  "ready_law N waiting chosen n w \<longleftrightarrow>
     finite (waiting n) \<and> finite (chosen n) \<and> waiting n \<inter> chosen n = {} \<and>
     (w \<in> chosen n \<longrightarrow> nt_ready N n w) \<and> (w \<in> waiting n \<longrightarrow> \<not> nt_ready N n w)"

text \<open>A fresh waker that is enabled waits, unless a stored permit makes it ready at once.\<close>

definition enable_law ::
  "'n Notify \<Rightarrow> ('n \<Rightarrow> bool) \<Rightarrow> ('n \<Rightarrow> nat set) \<Rightarrow> ('n \<Rightarrow> nat set) \<Rightarrow> 'n \<Rightarrow> nat \<Rightarrow> bool" where
  "enable_law N ninv waiting chosen n w \<longleftrightarrow> w \<in> waiting n \<union> chosen n \<or>
     keeps_alive N ninv waiting n (nt_enable N n w) {w} \<and> chosen (nt_enable N n w) = chosen n \<and>
     (waiting (nt_enable N n w) = insert w (waiting n) \<or>
      waiting (nt_enable N n w) = waiting n \<and> nt_ready N (nt_enable N n w) w)"

text \<open>\<open>notify_one\<close> picks a waiting waker, \<open>notify_waiters\<close> leaves none waiting.\<close>

definition wake_law ::
  "'n Notify \<Rightarrow> ('n \<Rightarrow> bool) \<Rightarrow> ('n \<Rightarrow> nat set) \<Rightarrow> ('n \<Rightarrow> nat set) \<Rightarrow> 'n \<Rightarrow> bool" where
  "wake_law N ninv waiting chosen n \<longleftrightarrow>
     keeps_alive N ninv waiting n (nt_one N n) {} \<and>
     picks (waiting n) (chosen n) (waiting (nt_one N n)) (chosen (nt_one N n)) \<and>
     keeps_alive N ninv waiting n (nt_all N n) {} \<and> waiting (nt_all N n) = {} \<and> chosen (nt_all N n) = chosen n"

text \<open>Awaiting a ready waker uses it up; dropping one that was picked passes the notification on.\<close>

definition await_law ::
  "'n Notify \<Rightarrow> ('n \<Rightarrow> bool) \<Rightarrow> ('n \<Rightarrow> nat set) \<Rightarrow> ('n \<Rightarrow> nat set) \<Rightarrow> 'n \<Rightarrow> nat \<Rightarrow> bool" where
  "await_law N ninv waiting chosen n w \<longleftrightarrow> \<not> nt_ready N n w \<or>
     keeps_alive N ninv waiting n (nt_await N n w) {w} \<and>
     waiting (nt_await N n w) = waiting n \<and> chosen (nt_await N n w) = chosen n - {w}"

definition drop_law ::
  "'n Notify \<Rightarrow> ('n \<Rightarrow> bool) \<Rightarrow> ('n \<Rightarrow> nat set) \<Rightarrow> ('n \<Rightarrow> nat set) \<Rightarrow> 'n \<Rightarrow> nat \<Rightarrow> bool" where
  "drop_law N ninv waiting chosen n w \<longleftrightarrow> keeps_alive N ninv waiting n (nt_drop N n w) {w} \<and>
     (if w \<in> chosen n
      then picks (waiting n) (chosen n - {w}) (waiting (nt_drop N n w)) (chosen (nt_drop N n w))
      else waiting (nt_drop N n w) = waiting n - {w} \<and> chosen (nt_drop N n w) = chosen n)"

definition notify_lawful ::
  "'n Notify \<Rightarrow> ('n \<Rightarrow> bool) \<Rightarrow> ('n \<Rightarrow> nat set) \<Rightarrow> ('n \<Rightarrow> nat set) \<Rightarrow> bool" where
  "notify_lawful N ninv waiting chosen \<longleftrightarrow>
     ninv (nt_new N) \<and> waiting (nt_new N) = {} \<and> chosen (nt_new N) = {} \<and>
     (\<forall>n w. ninv n \<longrightarrow> ready_law N waiting chosen n w \<and> enable_law N ninv waiting chosen n w \<and>
        wake_law N ninv waiting chosen n \<and> await_law N ninv waiting chosen n w \<and> drop_law N ninv waiting chosen n w)"

section \<open>State\<close>

text \<open>
  The wakers of a call are numbered; \<open>try_push\<close> has none. \<open>PushNew\<close>: about to register.
  \<open>PushTry\<close>: the blocking \<open>try_push\<close> is about to enter. \<open>PushRun\<close>: it writes. \<open>PushWait\<close>: it was
  full, the task awaits \<open>room\<close>. \<open>PushEnd\<close>: it succeeded, \<open>items\<close> is to be notified. \<open>PushDone\<close>: to
  return. \<open>reserve\<close> likewise, \<open>ResCheck\<close> being the \<open>is_drained\<close> test. The last three are the
  blocking calls of dropped futures.
\<close>

datatype task =
    PushNew val
  | PushTry "nat option" val
  | PushRun "nat option" pc
  | PushWait nat val
  | PushEnd "nat option"
  | PushDone "nat option"
  | ResNew
  | ResTry nat
  | ResRun nat pc
  | ResCheck nat
  | ResWait nat
  | AckRun pc
  | AckRoom
  | AckItems
  | DropRun pc
  | DropItems
  | CloseRun pc
  | CloseRoom
  | CloseItems
  | OrphanTry val
  | OrphanSeek
  | Orphan pc

record ('s, 'n) ASys =
  sys :: "'s Sys"
  room :: 'n
  items :: 'n
  tasks :: "task multiset"

definition aboot :: "'n Notify \<Rightarrow> (u64 \<rightharpoonup> val) \<Rightarrow> 's Shared \<Rightarrow> ('s, 'n) ASys" where
  "aboot N m sh = \<lparr>sys = boot m sh, room = nt_new N, items = nt_new N, tasks = {#}\<rparr>"

fun room_waker :: "task \<Rightarrow> nat multiset" where
  "room_waker (PushTry (Some w) v) = {#w#}"
| "room_waker (PushRun (Some w) p) = {#w#}"
| "room_waker (PushWait w v) = {#w#}"
| "room_waker (PushEnd (Some w)) = {#w#}"
| "room_waker (PushDone (Some w)) = {#w#}"
| "room_waker _ = {#}"

fun item_waker :: "task \<Rightarrow> nat multiset" where
  "item_waker (ResTry w) = {#w#}"
| "item_waker (ResRun w p) = {#w#}"
| "item_waker (ResCheck w) = {#w#}"
| "item_waker (ResWait w) = {#w#}"
| "item_waker _ = {#}"

definition over :: "(task \<Rightarrow> 'a multiset) \<Rightarrow> task multiset \<Rightarrow> 'a multiset" where
  "over f T = \<Sum>\<^sub># (image_mset f T)"

text \<open>Dropping the waker of a call, if it has one.\<close>

definition drop_waker :: "'n Notify \<Rightarrow> 'n \<Rightarrow> nat option \<Rightarrow> 'n" where
  "drop_waker N n wo = (case wo of None \<Rightarrow> n | Some w \<Rightarrow> nt_drop N n w)"

text \<open>The blocking thread at \<open>p\<close> takes a step of the thread machine and is then at \<open>P\<close>, or gone.\<close>

definition thread :: "('s, 'e) Store \<Rightarrow> 's Sys \<Rightarrow> pc \<Rightarrow> pc option \<Rightarrow> 's Sys \<Rightarrow> bool" where
  "thread S s p P t \<longleftrightarrow> step S s t \<and> P \<noteq> Some p \<and>
     (\<exists>F. flight s = add_mset p F \<and> flight t = (case P of None \<Rightarrow> F | Some p' \<Rightarrow> add_mset p' F))"

definition panicked :: "'s Sys \<Rightarrow> 's Sys \<Rightarrow> bool" where
  "panicked s t \<longleftrightarrow> poisoned t \<and> \<not> poisoned s"

text \<open>The blocking \<open>reserve\<close> at \<open>p\<close>, about to end, has found nothing.\<close>

fun finds_none :: "('s, 'e) Store \<Rightarrow> 's Sys \<Rightarrow> pc \<Rightarrow> bool" where
  "finds_none S s (RSeek c) \<longleftrightarrow> (case fst (seek S (store (shared s)) c) of Inl e \<Rightarrow> False | Inr _ \<Rightarrow> True)"
| "finds_none S s _ \<longleftrightarrow> False"

text \<open>What a future dropped at an await leaves behind: the waker that goes, and the blocking call that
  runs on. (Between awaits it cannot be dropped, and before its first poll it has done nothing.)\<close>

fun dropped_push :: "task \<Rightarrow> (nat option \<times> task multiset) option" where
  "dropped_push (PushTry wo v) = Some (wo, {#OrphanTry v#})"
| "dropped_push (PushRun wo p) = Some (wo, {#Orphan p#})"
| "dropped_push (PushWait w v) = Some (Some w, {#})"
| "dropped_push _ = None"

fun dropped_reserve :: "task \<Rightarrow> (nat option \<times> task multiset) option" where
  "dropped_reserve (ResTry w) = Some (Some w, {#OrphanSeek#})"
| "dropped_reserve (ResRun w p) = Some (Some w, {#Orphan p#})"
| "dropped_reserve (ResWait w) = Some (Some w, {#})"
| "dropped_reserve _ = None"

section \<open>Steps\<close>

text \<open>The first sections of the synchronous calls, as the thread machine has them.\<close>

definition sys_claim :: "'s Sys \<Rightarrow> u64 \<Rightarrow> val \<Rightarrow> Inner \<Rightarrow> 's Sys" where
  "sys_claim s q v i = s\<lparr>shared := (shared s)\<lparr>inner := i\<rparr>, flight := add_mset (Claimed q v) (flight s),
     assigned := (assigned s)(q \<mapsto> v)\<rparr>"

definition sys_seek :: "'s Sys \<Rightarrow> 's Sys" where
  "sys_seek s = s\<lparr>flight := add_mset (RSeek (entry_key (head (inner (shared s))))) (flight s)\<rparr>"

definition sys_ack :: "'s Sys \<Rightarrow> 's Shared \<Rightarrow> (u64 \<times> val) multiset \<Rightarrow> u64 \<Rightarrow> pc \<Rightarrow> 's Sys" where
  "sys_ack s sh G q p = s\<lparr>shared := sh, guards := G, flight := add_mset p (flight s),
     ack_tried := insert q (ack_tried s)\<rparr>"

definition sys_drop :: "'s Sys \<Rightarrow> (u64 \<times> val) multiset \<Rightarrow> u64 \<Rightarrow> 's Sys" where
  "sys_drop s G q = s\<lparr>guards := G, flight := add_mset (Release q) (flight s)\<rparr>"

definition sys_close :: "'s Sys \<Rightarrow> 's Sys" where
  "sys_close s = s\<lparr>shared := close (shared s), flight := add_mset NotifyAll (flight s)\<rparr>"

inductive astep ::
  "('s, 'e) Store \<Rightarrow> 'n Notify \<Rightarrow> ('s, 'n) ASys \<Rightarrow> ('s, 'n) ASys \<Rightarrow> bool" for S N where
  push_new: "astep S N a (a\<lparr>tasks := add_mset (PushNew v) (tasks a)\<rparr>)"
| try_new: "astep S N a (a\<lparr>tasks := add_mset (PushTry None v) (tasks a)\<rparr>)"
| push_enable: "tasks a = add_mset (PushNew v) T \<Longrightarrow> w \<notin># over room_waker (tasks a) \<Longrightarrow>
    astep S N a (a\<lparr>room := nt_enable N (room a) w, tasks := add_mset (PushTry (Some w) v) T\<rparr>)"
| push_admitted: "tasks a = add_mset (PushTry wo v) T \<Longrightarrow> \<not> poisoned (sys a) \<Longrightarrow>
    enter (shared (sys a)) (length v) = Admitted q i \<Longrightarrow>
    astep S N a (a\<lparr>sys := sys_claim (sys a) q v i, tasks := add_mset (PushRun wo (Claimed q v)) T\<rparr>)"
| push_full: "tasks a = add_mset (PushTry (Some w) v) T \<Longrightarrow> \<not> poisoned (sys a) \<Longrightarrow>
    enter (shared (sys a)) (length v) = NoRoom \<Longrightarrow>
    astep S N a (a\<lparr>tasks := add_mset (PushWait w v) T\<rparr>)"
| try_full: "tasks a = add_mset (PushTry None v) T \<Longrightarrow> \<not> poisoned (sys a) \<Longrightarrow>
    enter (shared (sys a)) (length v) = NoRoom \<Longrightarrow> astep S N a (a\<lparr>tasks := T\<rparr>)"
| push_closed: "tasks a = add_mset (PushTry wo v) T \<Longrightarrow> \<not> poisoned (sys a) \<Longrightarrow>
    enter (shared (sys a)) (length v) = Rejected \<Longrightarrow>
    astep S N a (a\<lparr>room := drop_waker N (room a) wo, tasks := T\<rparr>)"
| push_overflows: "tasks a = add_mset (PushTry wo v) T \<Longrightarrow> \<not> poisoned (sys a) \<Longrightarrow>
    enter (shared (sys a)) (length v) = Overflow \<Longrightarrow>
    astep S N a (a\<lparr>sys := (sys a)\<lparr>poisoned := True\<rparr>, room := drop_waker N (room a) wo, tasks := T\<rparr>)"
| push_runs: "tasks a = add_mset (PushRun wo p) T \<Longrightarrow> thread S (sys a) p (Some p') t \<Longrightarrow>
    astep S N a (a\<lparr>sys := t, tasks := add_mset (PushRun wo p') T\<rparr>)"
| push_stored: "tasks a = add_mset (PushRun wo p) T \<Longrightarrow> thread S (sys a) p None t \<Longrightarrow>
    p \<noteq> NotifyOne \<Longrightarrow> \<not> panicked (sys a) t \<Longrightarrow>
    astep S N a (a\<lparr>sys := t, tasks := add_mset (PushEnd wo) T\<rparr>)"
| push_fails: "tasks a = add_mset (PushRun wo p) T \<Longrightarrow> thread S (sys a) p None t \<Longrightarrow>
    p = NotifyOne \<or> panicked (sys a) t \<Longrightarrow>
    astep S N a (a\<lparr>sys := t, room := drop_waker N (room a) wo, tasks := T\<rparr>)"
| push_notifies: "tasks a = add_mset (PushEnd wo) T \<Longrightarrow>
    astep S N a (a\<lparr>items := nt_one N (items a), tasks := add_mset (PushDone wo) T\<rparr>)"
| push_returns: "tasks a = add_mset (PushDone wo) T \<Longrightarrow>
    astep S N a (a\<lparr>room := drop_waker N (room a) wo, tasks := T\<rparr>)"
| push_wakes: "tasks a = add_mset (PushWait w v) T \<Longrightarrow> nt_ready N (room a) w \<Longrightarrow>
    astep S N a (a\<lparr>room := nt_await N (room a) w, tasks := add_mset (PushNew v) T\<rparr>)"
| res_new: "astep S N a (a\<lparr>tasks := add_mset ResNew (tasks a)\<rparr>)"
| res_enable: "tasks a = add_mset ResNew T \<Longrightarrow> w \<notin># over item_waker (tasks a) \<Longrightarrow>
    astep S N a (a\<lparr>items := nt_enable N (items a) w, tasks := add_mset (ResTry w) T\<rparr>)"
| res_starts: "tasks a = add_mset (ResTry w) T \<Longrightarrow> \<not> poisoned (sys a) \<Longrightarrow>
    astep S N a (a\<lparr>sys := sys_seek (sys a),
      tasks := add_mset (ResRun w (RSeek (entry_key (head (inner (shared (sys a))))))) T\<rparr>)"
| res_runs: "tasks a = add_mset (ResRun w p) T \<Longrightarrow> thread S (sys a) p (Some p') t \<Longrightarrow>
    astep S N a (a\<lparr>sys := t, tasks := add_mset (ResRun w p') T\<rparr>)"
| res_none: "tasks a = add_mset (ResRun w p) T \<Longrightarrow> thread S (sys a) p None t \<Longrightarrow> finds_none S (sys a) p \<Longrightarrow>
    astep S N a (a\<lparr>sys := t, tasks := add_mset (ResCheck w) T\<rparr>)"
| res_ends: "tasks a = add_mset (ResRun w p) T \<Longrightarrow> thread S (sys a) p None t \<Longrightarrow> \<not> finds_none S (sys a) p \<Longrightarrow>
    astep S N a (a\<lparr>sys := t, items := nt_drop N (items a) w, tasks := T\<rparr>)"
| res_drained: "tasks a = add_mset (ResCheck w) T \<Longrightarrow> \<not> poisoned (sys a) \<Longrightarrow> is_drained (shared (sys a)) \<Longrightarrow>
    astep S N a (a\<lparr>items := nt_drop N (items a) w, tasks := T\<rparr>)"
| res_sleeps: "tasks a = add_mset (ResCheck w) T \<Longrightarrow> \<not> poisoned (sys a) \<Longrightarrow> \<not> is_drained (shared (sys a)) \<Longrightarrow>
    astep S N a (a\<lparr>tasks := add_mset (ResWait w) T\<rparr>)"
| res_wakes: "tasks a = add_mset (ResWait w) T \<Longrightarrow> nt_ready N (items a) w \<Longrightarrow>
    astep S N a (a\<lparr>items := nt_await N (items a) w, tasks := add_mset ResNew T\<rparr>)"
| ack_call: "guards (sys a) = add_mset (q, v) G \<Longrightarrow>
    commit_to S (shared (sys a)) [Delete (entry_key q)] (ack_durable (shared (sys a))) = (r, sh) \<Longrightarrow>
    p = (case r of Inl _ \<Rightarrow> Release q | Inr _ \<Rightarrow> AckFin q v) \<Longrightarrow>
    astep S N a (a\<lparr>sys := sys_ack (sys a) sh G q p, tasks := add_mset (AckRun p) (tasks a)\<rparr>)"
| ack_runs: "tasks a = add_mset (AckRun p) T \<Longrightarrow> thread S (sys a) p (Some p') t \<Longrightarrow>
    astep S N a (a\<lparr>sys := t, tasks := add_mset (AckRun p') T\<rparr>)"
| ack_done: "tasks a = add_mset (AckRun NotifyOne) T \<Longrightarrow> thread S (sys a) NotifyOne None t \<Longrightarrow>
    astep S N a (a\<lparr>sys := t, tasks := add_mset AckRoom T\<rparr>)"
| ack_ends: "tasks a = add_mset (AckRun p) T \<Longrightarrow> thread S (sys a) p None t \<Longrightarrow> p \<noteq> NotifyOne \<Longrightarrow>
    astep S N a (a\<lparr>sys := t, tasks := T\<rparr>)"
| ack_room: "tasks a = add_mset AckRoom T \<Longrightarrow>
    astep S N a (a\<lparr>room := nt_one N (room a), tasks := add_mset AckItems T\<rparr>)"
| ack_items: "tasks a = add_mset AckItems T \<Longrightarrow> astep S N a (a\<lparr>items := nt_one N (items a), tasks := T\<rparr>)"
| drop_call: "guards (sys a) = add_mset (q, v) G \<Longrightarrow>
    astep S N a (a\<lparr>sys := sys_drop (sys a) G q, tasks := add_mset (DropRun (Release q)) (tasks a)\<rparr>)"
| drop_released: "tasks a = add_mset (DropRun p) T \<Longrightarrow> thread S (sys a) p None t \<Longrightarrow>
    astep S N a (a\<lparr>sys := t, tasks := add_mset DropItems T\<rparr>)"
| drop_items: "tasks a = add_mset DropItems T \<Longrightarrow> astep S N a (a\<lparr>items := nt_one N (items a), tasks := T\<rparr>)"
| close_call: "\<not> poisoned (sys a) \<Longrightarrow>
    astep S N a (a\<lparr>sys := sys_close (sys a), tasks := add_mset (CloseRun NotifyAll) (tasks a)\<rparr>)"
| close_ran: "tasks a = add_mset (CloseRun p) T \<Longrightarrow> thread S (sys a) p None t \<Longrightarrow>
    astep S N a (a\<lparr>sys := t, tasks := add_mset CloseRoom T\<rparr>)"
| close_room: "tasks a = add_mset CloseRoom T \<Longrightarrow>
    astep S N a (a\<lparr>room := nt_all N (room a), tasks := add_mset CloseItems T\<rparr>)"
| close_items: "tasks a = add_mset CloseItems T \<Longrightarrow> astep S N a (a\<lparr>items := nt_all N (items a), tasks := T\<rparr>)"
| cancel_push: "tasks a = add_mset k T \<Longrightarrow> dropped_push k = Some (wo, T') \<Longrightarrow>
    astep S N a (a\<lparr>room := drop_waker N (room a) wo, tasks := T' + T\<rparr>)"
| cancel_reserve: "tasks a = add_mset k T \<Longrightarrow> dropped_reserve k = Some (wo, T') \<Longrightarrow>
    astep S N a (a\<lparr>items := drop_waker N (items a) wo, tasks := T' + T\<rparr>)"
| cancel_ack: "tasks a = add_mset (AckRun p) T \<Longrightarrow> astep S N a (a\<lparr>tasks := add_mset (Orphan p) T\<rparr>)"
| orphan_admitted: "tasks a = add_mset (OrphanTry v) T \<Longrightarrow> \<not> poisoned (sys a) \<Longrightarrow>
    enter (shared (sys a)) (length v) = Admitted q i \<Longrightarrow>
    astep S N a (a\<lparr>sys := sys_claim (sys a) q v i, tasks := add_mset (Orphan (Claimed q v)) T\<rparr>)"
| orphan_refused: "tasks a = add_mset (OrphanTry v) T \<Longrightarrow> \<not> poisoned (sys a) \<Longrightarrow>
    enter (shared (sys a)) (length v) \<in> {NoRoom, Rejected} \<Longrightarrow> astep S N a (a\<lparr>tasks := T\<rparr>)"
| orphan_overflows: "tasks a = add_mset (OrphanTry v) T \<Longrightarrow> \<not> poisoned (sys a) \<Longrightarrow>
    enter (shared (sys a)) (length v) = Overflow \<Longrightarrow>
    astep S N a (a\<lparr>sys := (sys a)\<lparr>poisoned := True\<rparr>, tasks := T\<rparr>)"
| orphan_seeks: "tasks a = add_mset OrphanSeek T \<Longrightarrow> \<not> poisoned (sys a) \<Longrightarrow>
    astep S N a (a\<lparr>sys := sys_seek (sys a),
      tasks := add_mset (Orphan (RSeek (entry_key (head (inner (shared (sys a))))))) T\<rparr>)"
| orphan_runs: "tasks a = add_mset (Orphan p) T \<Longrightarrow> thread S (sys a) p (Some p') t \<Longrightarrow>
    astep S N a (a\<lparr>sys := t, tasks := add_mset (Orphan p') T\<rparr>)"
| orphan_ends: "tasks a = add_mset (Orphan p) T \<Longrightarrow> thread S (sys a) p None t \<Longrightarrow> guards t = guards (sys a) \<Longrightarrow>
    astep S N a (a\<lparr>sys := t, tasks := T\<rparr>)"
| orphan_takes: "tasks a = add_mset (Orphan p) T \<Longrightarrow> thread S (sys a) p None t \<Longrightarrow>
    guards t = add_mset (q, v) (guards (sys a)) \<Longrightarrow>
    astep S N a (a\<lparr>sys := sys_drop t (guards (sys a)) q, tasks := add_mset (Orphan (Release q)) T\<rparr>)"

inductive areach ::
  "('s, 'e) Store \<Rightarrow> 'n Notify \<Rightarrow> (('s, 'n) ASys \<Rightarrow> bool) \<Rightarrow> ('s, 'n) ASys \<Rightarrow> ('s, 'n) ASys \<Rightarrow> bool"
  for S N C a0 where
  areach_start: "areach S N C a0 a0"
| areach_step: "areach S N C a0 a \<Longrightarrow> astep S N a b \<Longrightarrow> C b \<Longrightarrow> areach S N C a0 b"

lemma areach_inv:
  assumes "areach S N C a0 a" and "J a0" and "\<And>a b. astep S N a b \<Longrightarrow> C b \<Longrightarrow> J a \<Longrightarrow> J b"
  shows "J a"
  using assms(1) by induction (use assms(2,3) in auto)

section \<open>The tasks' threads\<close>

fun blocked :: "task \<Rightarrow> pc multiset" where
  "blocked (PushRun wo p) = {#p#}"
| "blocked (ResRun w p) = {#p#}"
| "blocked (AckRun p) = {#p#}"
| "blocked (DropRun p) = {#p#}"
| "blocked (CloseRun p) = {#p#}"
| "blocked (Orphan p) = {#p#}"
| "blocked _ = {#}"

definition threads_ok :: "('s, 'n) ASys \<Rightarrow> bool" where
  "threads_ok a \<longleftrightarrow> flight (sys a) = over blocked (tasks a)"

lemma over_simps [simp]: "over f {#} = {#}" "over f (add_mset k T) = f k + over f T" "over f (T + U) = over f T + over f U"
  by (simp_all add: over_def)

lemma in_over [simp]: "x \<in># over f T \<longleftrightarrow> (\<exists>k \<in># T. x \<in># f k)"
  by (induction T) auto

lemma sys_sel [simp]:
  "flight (sys_claim s q v i) = add_mset (Claimed q v) (flight s)" "shared (sys_claim s q v i) = (shared s)\<lparr>inner := i\<rparr>"
  "guards (sys_claim s q v i) = guards s" "poisoned (sys_claim s q v i) = poisoned s"
  "flight (sys_seek s) = add_mset (RSeek (entry_key (head (inner (shared s))))) (flight s)"
  "shared (sys_seek s) = shared s" "guards (sys_seek s) = guards s" "poisoned (sys_seek s) = poisoned s"
  "flight (sys_ack s sh G q p) = add_mset p (flight s)" "shared (sys_ack s sh G q p) = sh"
  "guards (sys_ack s sh G q p) = G" "poisoned (sys_ack s sh G q p) = poisoned s"
  "flight (sys_drop s G q) = add_mset (Release q) (flight s)" "shared (sys_drop s G q) = shared s"
  "guards (sys_drop s G q) = G" "poisoned (sys_drop s G q) = poisoned s"
  "flight (sys_close s) = add_mset NotifyAll (flight s)" "shared (sys_close s) = close (shared s)"
  "guards (sys_close s) = guards s" "poisoned (sys_close s) = poisoned s"
  by (simp_all add: sys_claim_def sys_seek_def sys_ack_def sys_drop_def sys_close_def)

lemma thread_flight:
  "thread S s p P t \<Longrightarrow> flight s = add_mset p F \<Longrightarrow> flight t = (case P of None \<Rightarrow> F | Some p' \<Rightarrow> add_mset p' F)"
  by (auto simp: thread_def)

lemma threads_step:
  assumes "astep S N a b" and "threads_ok a"
  shows "threads_ok b"
  using assms(1)
proof cases
  case (cancel_push k T wo T')
  then show ?thesis using assms(2) by (cases k) (auto simp: threads_ok_def)
next
  case (cancel_reserve k T wo T')
  then show ?thesis using assms(2) by (cases k) (auto simp: threads_ok_def)
qed (use assms(2) in \<open>auto simp: threads_ok_def dest: thread_flight\<close>)

text \<open>Each step of a task is one, two or no steps of the thread machine.\<close>

lemma astep_steps:
  assumes "astep S N a b"
  shows "sys b = sys a \<or> step S (sys a) (sys b) \<or> (\<exists>t. step S (sys a) t \<and> step S t (sys b))"
  using assms
proof cases
  case (push_admitted wo v T q i)
  with step.push_claim [of "sys a" v q i S] show ?thesis by (simp add: sys_claim_def)
next
  case (push_overflows wo v T)
  with step.push_panic [of "sys a" v S] show ?thesis by simp
next
  case (res_starts w T)
  with step.reserve_start [of "sys a" S] show ?thesis by (simp add: sys_seek_def)
next
  case (ack_call q v G r sh p)
  then show ?thesis
    using step.ack_deletes [of "sys a" q v G S _ sh] step.ack_fails [of "sys a" q v G S _ sh]
    by (cases r) (simp_all add: sys_ack_def)
next
  case (drop_call q v G)
  with step.guard_dropped [of "sys a" q v G S] show ?thesis by (simp add: sys_drop_def)
next
  case close_call
  with step.close_queue [of "sys a" S] show ?thesis by (simp add: sys_close_def)
next
  case (orphan_admitted v T q i)
  with step.push_claim [of "sys a" v q i S] show ?thesis by (simp add: sys_claim_def)
next
  case (orphan_overflows v T)
  with step.push_panic [of "sys a" v S] show ?thesis by simp
next
  case (orphan_seeks T)
  with step.reserve_start [of "sys a" S] show ?thesis by (simp add: sys_seek_def)
next
  case (orphan_takes p T t q v)
  with step.guard_dropped [of t q v "guards (sys a)" S] show ?thesis by (auto simp: sys_drop_def thread_def)
qed (auto simp: thread_def)

lemma areach_sys:
  assumes "areach S N C (aboot N m sh) a"
  shows "reach S (\<lambda>_. True) (boot m sh) (sys a)" "threads_ok a"
proof -
  have "reach S (\<lambda>_. True) (boot m sh) (sys a) \<and> threads_ok a"
    using assms
  proof (rule areach_inv)
    fix a b assume s: "astep S N a b" and J: "reach S (\<lambda>_. True) (boot m sh) (sys a) \<and> threads_ok a"
    from astep_steps [OF s] J have "reach S (\<lambda>_. True) (boot m sh) (sys b)" by (auto intro: reach.intros)
    with threads_step [OF s] J show "reach S (\<lambda>_. True) (boot m sh) (sys b) \<and> threads_ok b" by blast
  qed (simp add: aboot_def boot_def threads_ok_def reach_start)
  then show "reach S (\<lambda>_. True) (boot m sh) (sys a)" "threads_ok a" by blast+
qed

end
