(* ===== verification/Calm.thy ===== *)
theory Calm imports Tasks Sessions begin

text \<open>
  What one step of a blocking thread does, by the call it belongs to, over a store that reports no
  error; and that the threads of the async tasks are all the threads there are. \<open>calm\<close> is the
  discipline the theorems of \<open>Resting\<close> need: no future is dropped while its blocking call runs, and
  one \<open>reserve\<close> is awaited at a time.
\<close>

section \<open>Steps of one thread\<close>

lemma swap_mset:
  assumes "add_mset p F = add_mset r G" and "add_mset p' F = add_mset r' G" and "p \<noteq> p'"
  shows "p = r \<and> p' = r' \<and> F = G"
proof (cases "p = r")
  case False
  then obtain H where "F = add_mset r H" "G = add_mset p H" using assms(1) by (auto simp: add_eq_conv_ex)
  with assms(2) have "{#p', r#} + H = {#r', p#} + H" by simp
  then have "{#p', r#} = {#r', p#}" by (simp only: add_right_cancel)
  with assms(3) False show ?thesis by (auto simp: add_eq_conv_ex)
qed (use assms in auto)

lemma swap_mset':
  assumes "add_mset r G = add_mset p F" and "add_mset r' G = add_mset p' F" and "p' \<noteq> p"
  shows "p = r \<and> p' = r' \<and> F = G"
  using swap_mset [of p F r G p' r'] assms by auto

lemma add_mset_sizes [simp]:
  "add_mset x (add_mset p F) \<noteq> add_mset p' F" "add_mset p' F \<noteq> add_mset x (add_mset p F)"
  "add_mset x (add_mset p F) \<noteq> F" "F \<noteq> add_mset x (add_mset p F)"
  by (auto dest: arg_cong [of _ _ size])

definition unparked :: "'s Sys \<Rightarrow> bool" where
  "unparked s \<longleftrightarrow> (\<forall>p \<in># flight s. wake p = p \<and> (\<forall>v. p \<noteq> Woken v))"

lemma wake_fixed: "wake p = p \<longleftrightarrow> (\<forall>v. p \<noteq> Parked v)"
  by (cases p) auto

lemma unparked_wake: "\<forall>p \<in># F. wake p = p \<and> (\<forall>v. p \<noteq> Woken v) \<Longrightarrow> image_mset wake F = F"
  by (induction F) auto

lemma commit_to_cause': "commit_to S x ops d = (r, y) \<Longrightarrow> fst (commit S (store x) ops d) = r"
  by (auto simp: commit_to_def split: prod.splits)

lemma no_commit_error:
  "store_errors S = {} \<Longrightarrow> commit_to S sh ops d \<noteq> (Inl e, sh')"
  by (metis (mono_tags, lifting) commit_to_cause' empty_iff mem_Collect_eq store_errors_def)

lemma thread_poisoned: "thread S s p P t \<Longrightarrow> poisoned s \<Longrightarrow> poisoned t"
  unfolding thread_def by (elim conjE, erule step.cases) auto

fun writing :: "pc \<Rightarrow> bool" where
  "writing (Claimed q v) = True"
| "writing (GWait q v) = True"
| "writing (GFlush q v b) = True"
| "writing (GRecord q v b ok) = True"
| "writing (GRetry q v) = True"
| "writing _ = False"

text \<open>The effect of a step of the thread at \<open>p\<close>; \<open>P\<close> is where it is next.\<close>

abbreviation untouched :: "'s Sys \<Rightarrow> 's Sys \<Rightarrow> bool" where
  "untouched s t \<equiv> guards t = guards s \<and> poisoned t = poisoned s"

fun thread_does :: "('s, 'e) Store \<Rightarrow> 's Sys \<Rightarrow> pc \<Rightarrow> pc option \<Rightarrow> 's Sys \<Rightarrow> bool" where
  "thread_does S s (RSeek c) P t \<longleftrightarrow> untouched s t \<and>
     (\<exists>r st. seek S (store (shared s)) c = (r, st) \<and> shared t = (shared s)\<lparr>store := st\<rparr> \<and>
        (case P of
           None \<Rightarrow> (\<forall>k v. r = Inr (Some (k, v)) \<longrightarrow> \<not> is_entry k)
         | Some p' \<Rightarrow> (\<exists>q v. r = Inr (Some (entry_key q, v)) \<and> p' = RCheck q v)))"
| "thread_does S s (RCheck q v) P t \<longleftrightarrow> poisoned t = poisoned s \<and>
     (case P of
        None \<Rightarrow> (\<exists>i. reserve_check (inner (shared s)) q = Some i \<and> shared t = (shared s)\<lparr>inner := i\<rparr> \<and>
                   guards t = add_mset (q, v) (guards s)) \<or> shared t = shared s \<and> guards t = guards s
      | Some p' \<Rightarrow> shared t = shared s \<and> guards t = guards s \<and> q \<in> reserved (inner (shared s)) \<and>
          (\<exists>n. checked_inc q = Some n \<and> p' = RSeek (entry_key n)))"
| "thread_does S s (AckFin q v) P t \<longleftrightarrow> guards t = guards s \<and>
     (case P of
        None \<Rightarrow> poisoned t
      | Some p' \<Rightarrow> p' = NotifyOne \<and> poisoned t = poisoned s \<and>
          (\<exists>i. ack_finish (inner (shared s)) q (length v) = Some i \<and> shared t = (shared s)\<lparr>inner := i\<rparr>))"
| "thread_does S s (Release q) P t \<longleftrightarrow> untouched s t \<and> P = None \<and>
     shared t = (shared s)\<lparr>inner := release_inner (inner (shared s)) q\<rparr>"
| "thread_does S s (Failed q v) P t \<longleftrightarrow> (\<forall>p'. P = Some p' \<longrightarrow> p' = NotifyOne)"
| "thread_does S s p P t \<longleftrightarrow> untouched s t \<and> inner (shared t) = inner (shared s) \<and>
     (if writing p then \<forall>p'. P = Some p' \<longrightarrow> writing p' else P = None \<and> shared t = shared s)"

lemma thread_does_writing [simp]:
  "writing p \<Longrightarrow> thread_does S s p P t \<longleftrightarrow> untouched s t \<and> inner (shared t) = inner (shared s) \<and>
     (\<forall>p'. P = Some p' \<longrightarrow> writing p')"
  by (cases p) auto

lemma thread_effect:
  assumes "thread S s p P t" and "unparked s" and "store_errors S = {}"
  shows "thread_does S s p P t" "unparked t"
proof -
  obtain F where F: "flight s = add_mset p F" "flight t = (case P of None \<Rightarrow> F | Some p' \<Rightarrow> add_mset p' F)"
    "P \<noteq> Some p" "step S s t" using assms(1) by (auto simp: thread_def)
  have u: "Parked v \<notin># flight s" "Woken v \<notin># flight s" for v
    using assms(2) by (auto simp: unparked_def)
  note c = no_commit_error [OF assms(3)] and [dest] = swap_mset swap_mset' commit_to_sel(1)
    and [split] = option.splits and [simp] = is_entry_iff
  have w: "image_mset wake G = G" if "flight s = add_mset x G" for x G
    using assms(2) that by (intro unparked_wake) (simp add: unparked_def)
  from F(4) have "thread_does S s p P t"
  proof cases
    case (notify_all G)
    with w [OF notify_all(2)] F(1-3) show ?thesis by (auto split: option.splits dest: swap_mset)
  next
    case notify_one_wakes
    with u show ?thesis by auto
  next
    case wake_claim
    with u show ?thesis by auto
  next
    case wake_park
    with u show ?thesis by auto
  next
    case wake_closed
    with u show ?thesis by auto
  next
    case spurious
    with u show ?thesis by auto
  next
    case (group_flush q v b G r sh)
    have "p = GFlush q v b \<and> P = Some (GRecord q v b (r = Inr ()))"
    proof (cases P)
      case None
      with group_flush(1,2) F(1-3) show ?thesis by auto
    next
      case (Some x)
      have "add_mset p F = add_mset (GFlush q v b) G" using F(1) group_flush(2) by simp
      moreover have "add_mset x F = add_mset (GRecord q v b (r = Inr ())) G" using F(2) Some group_flush(1) by simp
      moreover have "p \<noteq> x" using F(3) Some by simp
      ultimately have "p = GFlush q v b \<and> x = GRecord q v b (r = Inr ()) \<and> F = G" by (rule swap_mset)
      with Some show ?thesis by simp
    qed
    with group_flush(1) commit_to_sel(1) [OF group_flush(3)] show ?thesis by simp
  next
    case (section_panic x G)
    have "P = None"
    proof (cases P)
      case (Some p')
      then have "G = add_mset p' F" using section_panic(1) F(2) by simp
      with section_panic(3) F(1) show ?thesis by simp
    qed simp
    moreover from this have "p = x" using section_panic(1,3) F(1,2) by simp
    ultimately show ?thesis using section_panic u by (cases x) auto
  next
    case put_ok
    with F(1-3) c show ?thesis by auto
  next
    case put_err
    with F(1-3) c show ?thesis by auto
  next
    case failed_back
    with F(1-3) c show ?thesis by auto
  next
    case notify_one_idle
    with F(1-3) c show ?thesis by auto
  next
    case group_follow
    with F(1-3) c show ?thesis by auto
  next
    case group_elect
    with F(1-3) c show ?thesis by auto
  next
    case group_more
    with F(1-3) c show ?thesis by auto
  next
    case group_end_ok
    with F(1-3) c show ?thesis by auto
  next
    case group_end_retry
    with F(1-3) c show ?thesis by auto
  next
    case group_done_ok
    with F(1-3) c show ?thesis by auto
  next
    case group_done_retry
    with F(1-3) c show ?thesis by auto
  next
    case retry_ok
    with F(1-3) c show ?thesis by auto
  next
    case retry_err
    with F(1-3) c show ?thesis by auto
  next
    case seek_ends
    with F(1-3) c show ?thesis by auto
  next
    case seek_finds
    with F(1-3) c show ?thesis by auto
  next
    case check_skips
    with F(1-3) c show ?thesis by auto
  next
    case check_overflows
    with F(1-3) c show ?thesis by auto
  next
    case check_takes
    with F(1-3) c show ?thesis by auto
  next
    case ack_finishes
    with F(1-3) c show ?thesis by auto
  next
    case releases
    with F(1-3) c show ?thesis by auto
  qed (use F(1-3) in \<open>auto split: option.splits\<close>)
  then show "thread_does S s p P t" .
  with F(1-3) u show "unparked t" by (cases p; cases P) (auto simp: unparked_def wake_fixed)
qed

section \<open>The calls of the threads\<close>

fun orphan :: "task \<Rightarrow> bool" where
  "orphan (OrphanTry v) = True"
| "orphan OrphanSeek = True"
| "orphan (Orphan p) = True"
| "orphan _ = False"

fun reserving :: "task \<Rightarrow> bool" where
  "reserving ResNew = True"
| "reserving (ResTry w) = True"
| "reserving (ResRun w p) = True"
| "reserving (ResCheck w) = True"
| "reserving (ResWait w) = True"
| "reserving _ = False"

definition calm :: "('s, 'n) ASys \<Rightarrow> bool" where
  "calm a \<longleftrightarrow> (\<forall>k \<in># tasks a. \<not> orphan k) \<and> size (filter_mset reserving (tasks a)) \<le> 1"

lemma calm_dropped:
  assumes "calm b" and "tasks b = T' + T"
  shows "dropped_push k = Some (wo, T') \<Longrightarrow> \<exists>w v. k = PushWait w v \<and> wo = Some w \<and> T' = {#}"
    "dropped_reserve k = Some (wo, T') \<Longrightarrow> \<exists>w. k = ResWait w \<and> wo = Some w \<and> T' = {#}"
  using assms by (cases k; force simp: calm_def)+

fun role_ok :: "task \<Rightarrow> bool" where
  "role_ok (PushRun wo p) \<longleftrightarrow> writing p"
| "role_ok (ResRun w p) \<longleftrightarrow> (\<exists>q. p = RSeek (entry_key q)) \<or> (\<exists>q v. p = RCheck q v)"
| "role_ok (AckRun p) \<longleftrightarrow> (\<exists>q v. p = AckFin q v) \<or> p = NotifyOne"
| "role_ok (DropRun p) \<longleftrightarrow> (\<exists>q. p = Release q)"
| "role_ok (CloseRun p) \<longleftrightarrow> p = NotifyAll"
| "role_ok k \<longleftrightarrow> \<not> orphan k"

definition roles_ok :: "('s, 'n) ASys \<Rightarrow> bool" where
  "roles_ok a \<longleftrightarrow> (\<forall>k \<in># tasks a. role_ok k) \<and> unparked (sys a)"

lemma roles_thread:
  assumes "roles_ok a" and "tasks a = add_mset k T" and "blocked k = {#p#}"
    and "thread S (sys a) p P t" and "store_errors S = {}"
  shows "thread_does S (sys a) p P t" "unparked t"
  using thread_effect [OF assms(4) _ assms(5)] assms(1) by (simp_all add: roles_ok_def)

lemma unparked_add: "unparked (s\<lparr>flight := add_mset p F\<rparr>) \<longleftrightarrow> unparked (s\<lparr>flight := F\<rparr>) \<and> wake p = p \<and> (\<forall>v. p \<noteq> Woken v)"
  by (auto simp: unparked_def)

lemma unparked_sys:
  assumes "unparked s"
  shows "unparked (sys_claim s q v i)" "unparked (sys_seek s)" "unparked (sys_drop s G q)" "unparked (sys_close s)"
    "wake p = p \<Longrightarrow> (\<And>v. p \<noteq> Woken v) \<Longrightarrow> unparked (sys_ack s sh G q p)"
  using assms by (auto simp: unparked_def)

lemma roles_step:
  assumes "astep S N a b" and "roles_ok a" and "calm b" and e: "store_errors S = {}"
  shows "roles_ok b"
  using assms(1)
proof cases
  case (push_runs wo p T p' t)
  with roles_thread [OF assms(2) push_runs(2) _ push_runs(3) e] assms(2) show ?thesis
    by (cases p) (auto simp: roles_ok_def)
next
  case (push_stored wo p T t)
  with roles_thread [OF assms(2) push_stored(2) _ push_stored(3) e] assms(2) show ?thesis
    by (auto simp: roles_ok_def)
next
  case (push_fails wo p T t)
  with roles_thread [OF assms(2) push_fails(2) _ push_fails(3) e] assms(2) show ?thesis
    by (auto simp: roles_ok_def)
next
  case (res_runs w p T p' t)
  with roles_thread [OF assms(2) res_runs(2) _ res_runs(3) e] assms(2) show ?thesis
    by (cases p) (auto simp: roles_ok_def)
next
  case (res_none w p T t)
  with roles_thread [OF assms(2) res_none(2) _ res_none(3) e] assms(2) show ?thesis
    by (auto simp: roles_ok_def)
next
  case (res_ends w p T t)
  with roles_thread [OF assms(2) res_ends(2) _ res_ends(3) e] assms(2) show ?thesis
    by (auto simp: roles_ok_def)
next
  case (ack_call q v G r sh p)
  then show ?thesis using assms(2) no_commit_error [OF e] by (cases r) (auto simp: roles_ok_def unparked_sys)
next
  case (ack_runs p T p' t)
  with roles_thread [OF assms(2) ack_runs(2) _ ack_runs(3) e] assms(2) show ?thesis
    by (cases p) (auto simp: roles_ok_def)
next
  case (ack_done T t)
  with roles_thread [OF assms(2) ack_done(2) _ ack_done(3) e] assms(2) show ?thesis
    by (auto simp: roles_ok_def)
next
  case (ack_ends p T t)
  with roles_thread [OF assms(2) ack_ends(2) _ ack_ends(3) e] assms(2) show ?thesis
    by (auto simp: roles_ok_def)
next
  case (drop_released p T t)
  with roles_thread [OF assms(2) drop_released(2) _ drop_released(3) e] assms(2) show ?thesis
    by (auto simp: roles_ok_def)
next
  case (close_ran p T t)
  with roles_thread [OF assms(2) close_ran(2) _ close_ran(3) e] assms(2) show ?thesis
    by (auto simp: roles_ok_def)
next
  case (cancel_push k T wo T')
  with assms(2,3) show ?thesis by (cases k) (auto simp: roles_ok_def calm_def)
next
  case (cancel_reserve k T wo T')
  with assms(2,3) show ?thesis by (cases k) (auto simp: roles_ok_def calm_def)
qed (use assms(2,3) in \<open>auto simp: roles_ok_def calm_def unparked_sys, (auto simp: unparked_def)?\<close>)

end
