(* ===== verification/Wakers.thy ===== *)
theory Wakers imports Calm begin

text \<open>
  The wakers of the async calls: at any moment those registered with a \<open>Notify\<close> are exactly those of
  the calls under way, each of them waiting or ready. No task can therefore sleep on a notification
  that is no longer owed to it.
\<close>

section \<open>What the library promises\<close>

definition wakers_ok ::
  "'n Notify \<Rightarrow> ('n \<Rightarrow> bool) \<Rightarrow> ('n \<Rightarrow> nat set) \<Rightarrow> ('n \<Rightarrow> nat set) \<Rightarrow> 'n \<Rightarrow> nat multiset \<Rightarrow> bool" where
  "wakers_ok N ninv waiting chosen n M \<longleftrightarrow>
     ninv n \<and> (\<forall>w. count M w \<le> 1) \<and> waiting n \<union> chosen n \<subseteq> set_mset M \<and>
     (\<forall>w \<in># M. w \<in> waiting n \<or> nt_ready N n w)"

lemma notify_laws:
  assumes "notify_lawful N ninv waiting chosen" and "ninv n"
  shows "ready_law N waiting chosen n w" "enable_law N ninv waiting chosen n w" "wake_law N ninv waiting chosen n"
    "await_law N ninv waiting chosen n w" "drop_law N ninv waiting chosen n w"
  using assms by (simp_all add: notify_lawful_def)

lemma notifyD:
  assumes l: "notify_lawful N ninv waiting chosen" and n: "ninv n"
  shows "finite (waiting n)" "finite (chosen n)" "waiting n \<inter> chosen n = {}"
    "w \<in> chosen n \<Longrightarrow> nt_ready N n w" "w \<in> waiting n \<Longrightarrow> \<not> nt_ready N n w"
    "picks (waiting n) (chosen n) (waiting (nt_one N n)) (chosen (nt_one N n))"
    "waiting (nt_all N n) = {}" "chosen (nt_all N n) = chosen n"
    "nt_ready N n w \<Longrightarrow> waiting (nt_await N n w) = waiting n \<and> chosen (nt_await N n w) = chosen n - {w}"
    "w \<notin> waiting n \<union> chosen n \<Longrightarrow> chosen (nt_enable N n w) = chosen n"
    "w \<notin> waiting n \<union> chosen n \<Longrightarrow> waiting (nt_enable N n w) = insert w (waiting n) \<or>
      waiting (nt_enable N n w) = waiting n \<and> nt_ready N (nt_enable N n w) w"
    "w \<in> chosen n \<Longrightarrow> picks (waiting n) (chosen n - {w}) (waiting (nt_drop N n w)) (chosen (nt_drop N n w))"
    "w \<notin> chosen n \<Longrightarrow> waiting (nt_drop N n w) = waiting n - {w} \<and> chosen (nt_drop N n w) = chosen n"
  using notify_laws(1,2,4,5) [OF l n, of w] notify_laws(3) [OF l n]
  by (auto simp: ready_law_def wake_law_def await_law_def enable_law_def drop_law_def)

lemma notify_alive:
  assumes l: "notify_lawful N ninv waiting chosen" and n: "ninv n"
  shows "keeps_alive N ninv waiting n (nt_one N n) {}" "keeps_alive N ninv waiting n (nt_all N n) {}"
    "keeps_alive N ninv waiting n (nt_drop N n w) {w}"
    "nt_ready N n w \<Longrightarrow> keeps_alive N ninv waiting n (nt_await N n w) {w}"
    "w \<notin> waiting n \<union> chosen n \<Longrightarrow> keeps_alive N ninv waiting n (nt_enable N n w) {w}"
  using notify_laws(1,2,4,5) [OF l n, of w] notify_laws(3) [OF l n]
  by (auto simp: wake_law_def await_law_def enable_law_def drop_law_def)

lemma picks_subset: "picks W C W' C' \<Longrightarrow> W' \<union> C' \<subseteq> W \<union> C"
  by (auto simp: picks_def split: if_splits)

section \<open>The calls' wakers\<close>

text \<open>An operation that keeps the wakers of \<open>M\<close> alive and registers no other one.\<close>

lemma wakers_keep:
  assumes "keeps_alive N ninv waiting n n' D" and "wakers_ok N ninv waiting chosen n M'"
    and "waiting n' \<union> chosen n' \<subseteq> set_mset M" and "\<And>w. count M w \<le> 1"
    and "\<And>w. w \<in># M \<Longrightarrow> w \<in># M' \<and> w \<notin> D \<or> w \<in> waiting n' \<or> nt_ready N n' w"
  shows "wakers_ok N ninv waiting chosen n' M"
  using assms unfolding wakers_ok_def keeps_alive_def by blast

lemma wakers_once:
  assumes "wakers_ok N ninv waiting chosen n (add_mset w M)"
  shows "w \<notin># M" "count M u \<le> 1"
proof -
  have c: "count (add_mset w M) u \<le> 1" for u using assms by (simp add: wakers_ok_def)
  from c [of w] show "w \<notin># M" by (simp add: not_in_iff)
  from c [of u] show "count M u \<le> 1" by (cases "u = w") simp_all
qed

lemma wakers_enable:
  assumes l: "notify_lawful N ninv waiting chosen" and k: "wakers_ok N ninv waiting chosen n M" and w: "w \<notin># M"
  shows "wakers_ok N ninv waiting chosen (nt_enable N n w) (add_mset w M)"
proof -
  have n: "ninv n" "w \<notin> waiting n \<union> chosen n" using k w by (auto simp: wakers_ok_def)
  note e = notifyD(10,11) [OF l n]
  have sub: "waiting (nt_enable N n w) \<union> chosen (nt_enable N n w) \<subseteq> set_mset (add_mset w M)"
    using e k by (auto simp: wakers_ok_def)
  show ?thesis
  proof (rule wakers_keep [OF notify_alive(5) [OF l n] k sub])
    show "count (add_mset w M) u \<le> 1" for u
      using k w by (auto simp: wakers_ok_def not_in_iff)
  qed (use e(2) in auto)
qed

lemma wakers_one:
  assumes l: "notify_lawful N ninv waiting chosen" and k: "wakers_ok N ninv waiting chosen n M"
  shows "wakers_ok N ninv waiting chosen (nt_one N n) M"
proof -
  have n: "ninv n" using k by (simp add: wakers_ok_def)
  show ?thesis
    using picks_subset [OF notifyD(6) [OF l n]] k
    by (intro wakers_keep [OF notify_alive(1) [OF l n] k]) (auto simp: wakers_ok_def)
qed

lemma wakers_all:
  assumes l: "notify_lawful N ninv waiting chosen" and k: "wakers_ok N ninv waiting chosen n M"
  shows "wakers_ok N ninv waiting chosen (nt_all N n) M"
proof -
  have n: "ninv n" using k by (simp add: wakers_ok_def)
  show ?thesis
    using notifyD(7,8) [OF l n] k
    by (intro wakers_keep [OF notify_alive(2) [OF l n] k]) (auto simp: wakers_ok_def)
qed

lemma wakers_drop:
  assumes l: "notify_lawful N ninv waiting chosen" and k: "wakers_ok N ninv waiting chosen n (add_mset w M)"
  shows "wakers_ok N ninv waiting chosen (nt_drop N n w) M"
proof -
  have n: "ninv n" using k by (simp add: wakers_ok_def)
  have "waiting (nt_drop N n w) \<union> chosen (nt_drop N n w) \<subseteq> (waiting n \<union> chosen n) - {w}"
  proof (cases "w \<in> chosen n")
    case True
    with notifyD(3) [OF l n] picks_subset [OF notifyD(12) [OF l n]] show ?thesis by blast
  next
    case False
    with notifyD(13) [OF l n False] show ?thesis by blast
  qed
  also have "\<dots> \<subseteq> set_mset M" using k by (auto simp: wakers_ok_def)
  finally have sub: "waiting (nt_drop N n w) \<union> chosen (nt_drop N n w) \<subseteq> set_mset M" .
  show ?thesis
    using wakers_once [OF k] by (intro wakers_keep [OF notify_alive(3) [OF l n] k sub]) auto
qed

lemma wakers_await:
  assumes l: "notify_lawful N ninv waiting chosen" and k: "wakers_ok N ninv waiting chosen n (add_mset w M)"
    and r: "nt_ready N n w"
  shows "wakers_ok N ninv waiting chosen (nt_await N n w) M"
proof -
  have n: "ninv n" using k by (simp add: wakers_ok_def)
  have "w \<notin> waiting n" using notifyD(5) [OF l n, of w] r by blast
  with notifyD(9) [OF l n r] k
  have sub: "waiting (nt_await N n w) \<union> chosen (nt_await N n w) \<subseteq> set_mset M" by (auto simp: wakers_ok_def)
  show ?thesis
    using wakers_once [OF k] by (intro wakers_keep [OF notify_alive(4) [OF l n r] k sub]) auto
qed

abbreviation opt_mset :: "nat option \<Rightarrow> nat multiset" where
  "opt_mset wo \<equiv> (case wo of None \<Rightarrow> {#} | Some w \<Rightarrow> {#w#})"

lemma wakers_drop_opt:
  assumes "notify_lawful N ninv waiting chosen" and "wakers_ok N ninv waiting chosen n (opt_mset wo + M)"
  shows "wakers_ok N ninv waiting chosen (drop_waker N n wo) M"
  using assms wakers_drop [OF assms(1)] by (cases wo) (simp_all add: drop_waker_def)

lemma room_waker_opt [simp]:
  "room_waker (PushTry wo v) = opt_mset wo" "room_waker (PushRun wo p) = opt_mset wo"
  "room_waker (PushEnd wo) = opt_mset wo" "room_waker (PushDone wo) = opt_mset wo"
  by (cases wo; simp)+

lemma dropped_wakers:
  "dropped_push k = Some (wo, T) \<Longrightarrow> room_waker k = opt_mset wo \<and> over room_waker T = {#} \<and>
    item_waker k = {#} \<and> over item_waker T = {#}"
  "dropped_reserve k = Some (wo, T) \<Longrightarrow> item_waker k = opt_mset wo \<and> over item_waker T = {#} \<and>
    room_waker k = {#} \<and> over room_waker T = {#}"
  by (cases k; auto)+

definition all_wakers_ok ::
  "'n Notify \<Rightarrow> ('n \<Rightarrow> bool) \<Rightarrow> ('n \<Rightarrow> nat set) \<Rightarrow> ('n \<Rightarrow> nat set) \<Rightarrow> ('s, 'n) ASys \<Rightarrow> bool" where
  "all_wakers_ok N ninv waiting chosen a \<longleftrightarrow>
     wakers_ok N ninv waiting chosen (room a) (over room_waker (tasks a)) \<and>
     wakers_ok N ninv waiting chosen (items a) (over item_waker (tasks a))"

lemma wakers_step:
  assumes "astep S N a b" and l: "notify_lawful N ninv waiting chosen" and "all_wakers_ok N ninv waiting chosen a"
  shows "all_wakers_ok N ninv waiting chosen b"
proof -
  note k = assms(3) [unfolded all_wakers_ok_def]
  note w = wakers_enable [OF l] wakers_one [OF l] wakers_all [OF l] wakers_drop [OF l] wakers_drop_opt [OF l]
    wakers_await [OF l]
  from assms(1) show ?thesis
  proof cases
    case (cancel_push c T wo T')
    with k dropped_wakers(1) [OF cancel_push(3)] w(5) show ?thesis by (simp add: all_wakers_ok_def)
  next
    case (cancel_reserve c T wo T')
    with k dropped_wakers(2) [OF cancel_reserve(3)] w(5) show ?thesis by (simp add: all_wakers_ok_def)
  qed (use k w in \<open>simp_all add: all_wakers_ok_def\<close>)
qed

lemma areach_wakers:
  assumes "areach S N C (aboot N m sh) a" and l: "notify_lawful N ninv waiting chosen"
  shows "all_wakers_ok N ninv waiting chosen a"
  using assms(1)
proof (rule areach_inv)
  show "all_wakers_ok N ninv waiting chosen (aboot N m sh)"
    using l by (simp add: all_wakers_ok_def wakers_ok_def aboot_def notify_lawful_def)
qed (rule wakers_step [OF _ l])

end
