(* ===== verification/Producing.thy ===== *)
theory Producing imports Wakers begin

text \<open>
  Async producers waiting for room. \<open>room_ok\<close>: with an item bound alone, while a producer sleeps
  un-notified, the queue is open and each free slot is spoken for: by a notification of \<open>room\<close> on its
  way, by a waker picked and not yet used, or by a push about to look; or a \<open>close\<close> is under way.
\<close>

section \<open>The invariant\<close>

definition asleep_push :: "('n \<Rightarrow> nat set) \<Rightarrow> ('s, 'n) ASys \<Rightarrow> bool" where
  "asleep_push waiting a \<longleftrightarrow> (\<exists>w v. PushWait w v \<in># tasks a \<and> w \<in> waiting (room a))"

text \<open>Tasks that will look for room, or notify \<open>room\<close>.\<close>

fun spare :: "task \<Rightarrow> bool" where
  "spare (PushNew v) = True"
| "spare (PushTry wo v) = True"
| "spare (AckRun p) = (p = NotifyOne)"
| "spare AckRoom = True"
| "spare _ = False"

fun closing :: "task \<Rightarrow> bool" where
  "closing (CloseRun p) = True"
| "closing CloseRoom = True"
| "closing _ = False"

definition spares :: "('s, 'n) ASys \<Rightarrow> nat" where
  "spares a = size (filter_mset spare (tasks a))"

definition room_ok :: "('n \<Rightarrow> nat set) \<Rightarrow> ('n \<Rightarrow> nat set) \<Rightarrow> ('s, 'n) ASys \<Rightarrow> bool" where
  "room_ok waiting chosen a \<longleftrightarrow>
     (let sh = shared (sys a) in
      poisoned (sys a) \<or> \<not> asleep_push waiting a \<or> (\<exists>k \<in># tasks a. closing k) \<or>
      \<not> closed (inner sh) \<and> capacity sh \<le> len (inner sh) + spares a + card (chosen (room a)))"

section \<open>Wakers in numbers\<close>

lemma one_counts:
  assumes l: "notify_lawful N ninv waiting chosen" and n: "ninv n"
  shows "waiting (nt_one N n) \<subseteq> waiting n"
    "waiting (nt_one N n) \<noteq> {} \<Longrightarrow> card (chosen (nt_one N n)) = Suc (card (chosen n))"
proof -
  note p = notifyD(6) [OF l n] and d = notifyD(2,3) [OF l n]
  show "waiting (nt_one N n) \<subseteq> waiting n" using p by (auto simp: picks_def split: if_splits)
  assume "waiting (nt_one N n) \<noteq> {}"
  with p obtain u where "u \<in> waiting n" "chosen (nt_one N n) = insert u (chosen n)"
    by (auto simp: picks_def split: if_splits)
  with d show "card (chosen (nt_one N n)) = Suc (card (chosen n))" by (auto simp: card_insert_if)
qed

lemma drop_counts:
  assumes l: "notify_lawful N ninv waiting chosen" and n: "ninv n"
  shows "waiting (drop_waker N n wo) \<subseteq> waiting n"
    "waiting (drop_waker N n wo) \<noteq> {} \<Longrightarrow> card (chosen (drop_waker N n wo)) = card (chosen n)"
proof -
  have "waiting (nt_drop N n w) \<subseteq> waiting n \<and>
    (waiting (nt_drop N n w) \<noteq> {} \<longrightarrow> card (chosen (nt_drop N n w)) = card (chosen n))" for w
  proof (cases "w \<in> chosen n")
    case True
    note p = notifyD(12) [OF l n True] and d = notifyD(2,3) [OF l n]
    have "card (insert u (chosen n - {w})) = card (chosen n)" if "u \<in> waiting n" for u
      using d True that card_Suc_Diff1 [OF d(1) True] by (subst card_insert_disjoint) auto
    with p show ?thesis by (auto simp: picks_def split: if_splits)
  next
    case False
    with notifyD(13) [OF l n False] show ?thesis by auto
  qed
  note d = this
  show "waiting (drop_waker N n wo) \<subseteq> waiting n"
    "waiting (drop_waker N n wo) \<noteq> {} \<Longrightarrow> card (chosen (drop_waker N n wo)) = card (chosen n)"
    using d by (auto simp: drop_waker_def split: option.splits)
qed

lemma await_counts:
  assumes l: "notify_lawful N ninv waiting chosen" and n: "ninv n" and r: "nt_ready N n w"
  shows "waiting (nt_await N n w) = waiting n" "card (chosen n) \<le> Suc (card (chosen (nt_await N n w)))"
  using notifyD(9) [OF l n r] card_Diff1_le [of "chosen n" w]
  by (auto simp: card_Diff_singleton_if)

section \<open>It is kept\<close>

lemma ack_finish_len: "ack_finish i q n = Some j \<Longrightarrow> len i = Suc (len j) \<and> closed j = closed i"
  using ack_finish_fields(2,4) by fastforce

lemma room_keep:
  assumes "room_ok waiting chosen a" and "poisoned (sys a) \<Longrightarrow> poisoned (sys b)"
    and "capacity (shared (sys b)) = capacity (shared (sys a))"
    and "\<And>w v. PushWait w v \<in># tasks b \<Longrightarrow> w \<in> waiting (room b) \<Longrightarrow> \<not> poisoned (sys b) \<Longrightarrow>
      \<forall>k \<in># tasks b. \<not> closing k \<Longrightarrow>
      PushWait w v \<in># tasks a \<and> w \<in> waiting (room a) \<and> (\<forall>k \<in># tasks a. \<not> closing k) \<and>
      (closed (inner (shared (sys b))) \<longrightarrow> closed (inner (shared (sys a)))) \<and>
      len (inner (shared (sys a))) + spares a + card (chosen (room a)) \<le>
        len (inner (shared (sys b))) + spares b + card (chosen (room b))"
  shows "room_ok waiting chosen b"
  using assms unfolding room_ok_def Let_def asleep_push_def by fastforce

lemma room_step:
  assumes "astep S N a b" and l: "notify_lawful N ninv waiting chosen" and k: "all_wakers_ok N ninv waiting chosen a"
    and ro: "roles_ok a" and e: "store_errors S = {}" and mb: "max_bytes (shared (sys a)) = usize_max"
    and cap: "capacity (shared (sys b)) = capacity (shared (sys a))" and cb: "calm b"
    and J: "room_ok waiting chosen a"
  shows "room_ok waiting chosen b"
proof -
  have n: "ninv (room a)" using k by (simp add: all_wakers_ok_def wakers_ok_def)
  have one: "w \<in> waiting (room a) \<and> card (chosen (nt_one N (room a))) = Suc (card (chosen (room a)))"
    if "w \<in> waiting (nt_one N (room a))" for w
    using one_counts [OF l n] that by auto
  have drop: "w \<in> waiting (room a) \<and> card (chosen (drop_waker N (room a) wo)) = card (chosen (room a))"
    if "w \<in> waiting (drop_waker N (room a) wo)" for w wo
    using drop_counts [OF l n, of wo] that by auto
  note aw = await_counts [OF l n]
  note th = roles_thread [OF ro _ _ _ e]
  note d = asleep_push_def spares_def
  note [dest!] = ack_finish_len and [split] = option.splits if_splits
    and [simp] = roles_ok_def release_inner_def reserve_check_def
  from assms(1) show ?thesis
  proof cases
    case (push_enable v T w)
    have "w \<notin> waiting (room a) \<union> chosen (room a)"
      using k push_enable(3) by (auto simp: all_wakers_ok_def wakers_ok_def)
    moreover have "\<forall>v. PushWait w v \<notin># T" using push_enable by force
    ultimately show ?thesis
      by - (rule room_keep [OF J _ cap], use push_enable notifyD(10,11) [OF l n, of w] in \<open>auto simp: d\<close>)
  next
    case (push_full w v T)
    with no_room_full [OF push_full(4) mb] cap show ?thesis by (auto simp: room_ok_def)
  next
    case (try_full v T)
    with no_room_full [OF try_full(4) mb] cap show ?thesis by (auto simp: room_ok_def)
  next
    case (push_closed wo v T)
    then have "closed (inner (shared (sys a)))" by simp
    with J push_closed(1,2) drop [of _ wo] show ?thesis
      unfolding room_ok_def Let_def asleep_push_def by (auto dest: subsetD)
  next
    case (push_runs wo p T p' t)
    show ?thesis
      by (rule room_keep [OF J _ cap]) (use th [OF push_runs(2) _ push_runs(3)] ro push_runs in \<open>auto simp: d panicked_def\<close>)
  next
    case (push_stored wo p T t)
    show ?thesis
      by (rule room_keep [OF J _ cap]) (use th [OF push_stored(2) _ push_stored(3)] ro push_stored in \<open>auto simp: d panicked_def\<close>)
  next
    case (push_fails wo p T t)
    show ?thesis
      by (rule room_keep [OF J _ cap]) (use th [OF push_fails(2) _ push_fails(3)] ro push_fails in \<open>auto simp: d panicked_def\<close>)
  next
    case (push_wakes w v T)
    show ?thesis by (rule room_keep [OF J _ cap]) (use push_wakes aw [OF push_wakes(3)] in \<open>auto simp: d\<close>)
  next
    case (res_runs w p T p' t)
    show ?thesis
      by (rule room_keep [OF J _ cap]) (use th [OF res_runs(2) _ res_runs(3)] ro res_runs in \<open>auto simp: d panicked_def\<close>)
  next
    case (res_none w p T t)
    show ?thesis
      by (rule room_keep [OF J _ cap]) (use th [OF res_none(2) _ res_none(3)] ro res_none in \<open>auto simp: d panicked_def\<close>)
  next
    case (res_ends w p T t)
    show ?thesis
      by (rule room_keep [OF J _ cap]) (use th [OF res_ends(2) _ res_ends(3)] ro res_ends in \<open>auto simp: d panicked_def\<close>)
  next
    case (ack_call q v G r sh p)
    show ?thesis
      by (rule room_keep [OF J _ cap]) (use ack_call commit_to_sel(1) [OF ack_call(3)] in \<open>auto simp: d\<close>)
  next
    case (ack_runs p T p' t)
    show ?thesis
      by (rule room_keep [OF J _ cap]) (use th [OF ack_runs(2) _ ack_runs(3)] ro ack_runs in \<open>auto simp: d panicked_def\<close>)
  next
    case (ack_done T t)
    show ?thesis
      by (rule room_keep [OF J _ cap]) (use th [OF ack_done(2) _ ack_done(3)] ro ack_done in \<open>auto simp: d panicked_def\<close>)
  next
    case (ack_ends p T t)
    show ?thesis
      by (rule room_keep [OF J _ cap]) (use th [OF ack_ends(2) _ ack_ends(3)] ro ack_ends in \<open>auto simp: d panicked_def\<close>)
  next
    case (drop_released p T t)
    show ?thesis
      by (rule room_keep [OF J _ cap]) (use th [OF drop_released(2) _ drop_released(3)] ro drop_released in \<open>auto simp: d panicked_def\<close>)
  next
    case (close_ran p T t)
    show ?thesis
      by (rule room_keep [OF J _ cap]) (use th [OF close_ran(2) _ close_ran(3)] ro close_ran in \<open>auto simp: d panicked_def\<close>)
  next
    case (cancel_push k T wo T')
    have "tasks b = T' + T" using cancel_push(1) by simp
    from calm_dropped(1) [OF cb this cancel_push(3)] show ?thesis
      by - (rule room_keep [OF J _ cap], use cancel_push drop in \<open>auto simp: d\<close>)
  next
    case (cancel_reserve k T wo T')
    have "tasks b = T' + T" using cancel_reserve(1) by simp
    from calm_dropped(2) [OF cb this cancel_reserve(3)] show ?thesis
      by - (rule room_keep [OF J _ cap], use cancel_reserve in \<open>auto simp: d\<close>)
  qed (rule room_keep [OF J _ cap];
      (use one drop notifyD(7) [OF l n] cb ro in \<open>auto simp: d calm_def\<close>))+
qed

end
