(* ===== verification/Settled.thy ===== *)
theory Settled imports Calm begin

text \<open>
  Two facts about every interleaving over a store that reports no error and whose commits are
  atomic: a number that an ack has deleted never comes back, so no stored item is behind the head
  (\<open>settled\<close>); and a number is marked in \<open>reserved\<close> only while a guard, a pending ack or a pending
  release has it (\<open>reserved_ok\<close>).
\<close>

definition reserved_ok :: "'s Sys \<Rightarrow> bool" where
  "reserved_ok s \<longleftrightarrow> poisoned s \<or> reserved (inner (shared s)) \<subseteq> set_mset (owners s)"

lemma reserved_step:
  assumes "step S s t" and "reserved_ok s"
  shows "reserved_ok t"
  using assms(1)
proof cases
  case (ack_finishes q v F i)
  with ack_finish_fields(5) [OF ack_finishes(4)] show ?thesis
    using assms(2) by (auto simp: reserved_ok_def owners_def)
qed (use assms(2) in \<open>auto simp: reserved_ok_def owners_def close_def close_inner_def release_inner_def
    dest!: commit_to_sel(1)\<close>)

definition settled :: "('s \<Rightarrow> key \<rightharpoonup> val) \<Rightarrow> 's Sys \<Rightarrow> bool" where
  "settled view s \<longleftrightarrow> ack_tried s \<subseteq> dom (assigned s) \<and> ack_tried s \<inter> stored view s = {} \<and>
     set_mset (fresh s) \<inter> (stored view s \<union> ack_tried s \<union> fst ` set_mset (guards s) \<union>
       set_mset (across looking (flight s))) = {}"

lemma quiet_acks:
  assumes "step S s t" and "\<nexists>q v. acks s t q v" and "store_errors S = {}"
  shows "ack_tried t = ack_tried s"
  using assms(1)
proof cases
  case (ack_deletes q v G u sh)
  then have "acks s t q v" by (simp add: acks_def)
  with assms(2) show ?thesis by blast
qed (use no_commit_error [OF assms(3)] in auto)

lemma looking_assigned:
  assumes "pairs_ok view s"
  shows "set_mset (across looking (flight s)) \<union> fst ` set_mset (guards s) \<subseteq> dom (assigned s)"
proof -
  have "q \<in> dom (assigned s)" if "p \<in># flight s" "q \<in># looking p" for p q
    using pairsD(1) [OF assms that(1)] that(2) by (cases p) auto
  note look = this
  have guard: "q \<in> dom (assigned s)" if "(q, v) \<in># guards s" for q v
    using pairsD(2) [OF assms that] by blast
  show ?thesis
  proof (intro Un_least subsetI)
    show "q \<in> dom (assigned s)" if "q \<in># across looking (flight s)" for q
    proof -
      from that obtain p where "p \<in># flight s" "q \<in># looking p" by (simp only: in_across) blast
      then show ?thesis by (rule look)
    qed
    show "q \<in> dom (assigned s)" if "q \<in> fst ` set_mset (guards s)" for q
    proof -
      from that obtain p where "p \<in># guards s" "q = fst p" by blast
      with guard [of "fst p" "snd p"] show ?thesis by simp
    qed
  qed
qed

context atomic_store begin

lemma settled_step:
  assumes "step S s t" and "sinv (store (shared s))" and "cursors_ok s" and "pairs_ok view s"
    and "batch_ok s" and e: "store_errors S = {}" and A: "settled view s"
  shows "settled view t"
proof -
  note b = stored_bounds [OF assms(4,5,3)] and la = looking_assigned [OF assms(4)]
  note f = fresh_grows [OF assms(1,3,5)] and l = looking_step [OF assms(1,2)]
  have grow: "dom (assigned s) \<subseteq> dom (assigned t)"
    using assigned_grows [OF assms(1,3)] by (auto simp: dom_def)
  note A' = A [unfolded settled_def]
  show ?thesis
  proof (cases "\<exists>q v. acks s t q v")
    case True
    then obtain q v where a: "acks s t q v" by blast
    note k = acks_step [OF assms(1) a]
    from k(5) obtain u where c: "commit_to S (shared s) [Delete (entry_key q)] (ack_durable (shared s)) = (Inr u, shared t)"
      by blast
    have "fresh t = fresh s" "across looking (flight t) = across looking (flight s)"
      using a commit_to_sel(2) [OF c] by (simp_all add: fresh_def acks_def)
    moreover have "stored view t = stored view s - {q}"
      using commit_to_ok [OF c assms(2)] by auto
    moreover have "q \<in> dom (assigned s)" using la k(1) by auto
    ultimately show ?thesis using A' unfolding settled_def k(2,4) k(1) by auto
  next
    case False
    note quiet = quiet_step(4) [OF assms(1) False] and same = quiet_acks [OF assms(1) False e]
    have gain: "stored view t \<subseteq> stored view s \<union> (set_mset (fresh s) - set_mset (fresh t))"
      using stored_step [OF assms(1,2,5)] False by (auto simp: acks_def)
    have "ack_tried t \<inter> stored view t = {}" using A' gain same by blast
    moreover have "set_mset (fresh t) \<inter> (stored view t \<union> ack_tried t \<union> fst ` set_mset (guards t) \<union>
       set_mset (across looking (flight t))) = {}"
    proof (rule equals0I)
      fix x assume x: "x \<in> set_mset (fresh t) \<inter> (stored view t \<union> ack_tried t \<union> fst ` set_mset (guards t) \<union>
        set_mset (across looking (flight t)))"
      let ?H = "stored view s \<union> ack_tried s \<union> fst ` set_mset (guards s) \<union> set_mset (across looking (flight s))"
      from x consider "x \<in> stored view t" | "x \<in> ack_tried t" | "x \<in> fst ` set_mset (guards t)"
        | "x \<in> set_mset (across looking (flight t))" by blast
      then have "x \<in> ?H"
      proof cases
        case 1
        with gain x show ?thesis by blast
      next
        case 2
        with same show ?thesis by blast
      next
        case 3
        with quiet show ?thesis by blast
      next
        case 4
        with l show ?thesis by blast
      qed
      moreover have "?H \<subseteq> dom (assigned s)" using b(1) la A' by blast
      moreover have "x \<in> set_mset (fresh s) \<or> x \<notin> dom (assigned s)" using f x by blast
      ultimately show False using A' by blast
    qed
    moreover have "ack_tried t \<subseteq> dom (assigned t)" using A' grow unfolding same by (meson order.trans)
    ultimately show ?thesis unfolding settled_def by (intro conjI)
  qed
qed

lemma reach_settled:
  assumes "reach S C (boot (items_of (view (store sh))) sh) s" and "sinv (store sh)"
    and "wf_queue (view (store sh)) sh" and "reserved (inner sh) = {}" and e: "store_errors S = {}"
  shows "sinv (store (shared s))" "only_queue_keys (view (store (shared s)))" "reserved_ok s" "stored view s \<subseteq> {head (inner (shared s))..}"
proof -
  let ?J = "\<lambda>s. sinv (store (shared s)) \<and> cursors_ok s \<and> pairs_ok view s \<and> batch_ok s \<and> settled view s \<and> reserved_ok s \<and>
    only_queue_keys (view (store (shared s)))"
  have J: "?J s"
    using assms(1)
  proof (rule reach_inv)
    show "?J (boot (items_of (view (store sh))) sh)"
      using assms(2) boot_cursors [OF assms(3)] boot_pairs [of view sh] boot_batch [OF assms(3)] assms(3,4)
        wf_queueD(1,8) [OF assms(3)]
      by (auto simp: settled_def reserved_ok_def fresh_def group_default_def)
  next
    fix s t assume st: "step S s t" and J: "?J s"
    then show "?J t"
      using cursors_step [OF st, of view] pairs_step [OF st] batch_step [OF st] settled_step [OF st] e
        reserved_step [OF st] queue_keys_step [OF st] by simp
  qed
  then show "sinv (store (shared s))" "only_queue_keys (view (store (shared s)))" "reserved_ok s" by blast+
  show "stored view s \<subseteq> {head (inner (shared s))..}"
  proof
    fix q assume q: "q \<in> stored view s"
    with J stored_bounds(1) have "q \<in> dom (assigned s)" by blast
    moreover have "past (inner (shared s)) \<inter> dom (assigned s) \<subseteq> ack_tried s" "ack_tried s \<inter> stored view s = {}"
      using J by (simp_all add: cursors_ok_def settled_def Let_def)
    ultimately have "q \<notin> past (inner (shared s))" using q by blast
    then show "q \<in> {head (inner (shared s))..}" by (auto simp: past_def not_less)
  qed
qed

end

end
