(* ===== verification/Consuming.thy ===== *)
theory Consuming imports Wakers Settled begin

text \<open>
  The async consumer waiting for an item. \<open>items_ok\<close>: while its waker is registered and not
  notified, every item that can be reserved is still ahead of the lookup, or a call is under way that
  will notify \<open>items\<close>; and the same of the queue being drained once it sleeps.
\<close>

section \<open>The invariant\<close>

text \<open>Calls that will notify \<open>items\<close>.\<close>

fun item_pending :: "task \<Rightarrow> bool" where
  "item_pending (PushRun wo p) = True"
| "item_pending (PushEnd wo) = True"
| "item_pending (AckRun p) = True"
| "item_pending AckRoom = True"
| "item_pending AckItems = True"
| "item_pending (DropRun p) = True"
| "item_pending DropItems = True"
| "item_pending (CloseRun p) = True"
| "item_pending CloseRoom = True"
| "item_pending CloseItems = True"
| "item_pending _ = False"

text \<open>The numbers a \<open>reserve\<close> has gone past.\<close>

fun passed :: "task \<Rightarrow> u64 set" where
  "passed (ResRun w (RSeek c)) = {q. entry_key q < c}"
| "passed (ResRun w (RCheck q v)) = {..<q}"
| "passed (ResCheck w) = UNIV"
| "passed (ResWait w) = UNIV"
| "passed _ = {}"

definition reservable :: "('s \<Rightarrow> key \<rightharpoonup> val) \<Rightarrow> 's Sys \<Rightarrow> u64 set" where
  "reservable view s = stored view s - reserved (inner (shared s))"

definition sleeps_well :: "('s \<Rightarrow> key \<rightharpoonup> val) \<Rightarrow> 's Sys \<Rightarrow> task \<Rightarrow> bool" where
  "sleeps_well view s k \<longleftrightarrow> passed k \<inter> reservable view s = {} \<and>
     (\<forall>w. k = ResWait w \<longrightarrow> \<not> is_drained (shared s))"

definition items_ok :: "('s \<Rightarrow> key \<rightharpoonup> val) \<Rightarrow> ('n \<Rightarrow> nat set) \<Rightarrow> ('s, 'n) ASys \<Rightarrow> bool" where
  "items_ok view waiting a \<longleftrightarrow> poisoned (sys a) \<or> (\<exists>k \<in># tasks a. item_pending k) \<or>
     (\<forall>k \<in># tasks a. (\<exists>w \<in># item_waker k. w \<in> waiting (items a)) \<longrightarrow> sleeps_well view (sys a) k)"

section \<open>One waker at most\<close>

lemma no_waker: "\<not> reserving k \<Longrightarrow> item_waker k = {#}"
  by (cases k) auto

lemma wakers_reserving: "size (over item_waker T) \<le> size (filter_mset reserving T)"
proof (induction T)
  case (add k T)
  have "size (item_waker k) \<le> (if reserving k then 1 else 0)" by (cases k) auto
  with add show ?case by (auto split: if_splits)
qed simp

lemma one_empties:
  assumes l: "notify_lawful N ninv waiting chosen" and k: "wakers_ok N ninv waiting chosen n M" and "size M \<le> 1"
  shows "waiting (nt_one N n) = {}"
proof -
  have n: "ninv n" and sub: "waiting n \<subseteq> set_mset M" using k by (simp_all add: wakers_ok_def)
  note p = notifyD(6) [OF l n]
  show ?thesis
  proof (cases "waiting n = {}")
    case True
    with p show ?thesis by (simp add: picks_def)
  next
    case False
    then have "M \<noteq> {#}" using sub by auto
    then obtain w where "M = {#w#}" using assms(3)
      by (metis One_nat_def le_Suc_eq le_zero_eq size_1_singleton_mset size_eq_0_iff_empty)
    with sub False p show ?thesis by (auto simp: picks_def subset_singleton_iff)
  qed
qed

section \<open>It is kept\<close>

lemma items_keep:
  assumes "items_ok view waiting a" and "poisoned (sys a) \<Longrightarrow> poisoned (sys b)"
    and "\<And>k w. \<not> poisoned (sys b) \<Longrightarrow> \<forall>k \<in># tasks b. \<not> item_pending k \<Longrightarrow> k \<in># tasks b \<Longrightarrow>
      w \<in># item_waker k \<Longrightarrow> w \<in> waiting (items b) \<Longrightarrow> sleeps_well view (sys b) k \<or>
        (\<forall>k \<in># tasks a. \<not> item_pending k) \<and> k \<in># tasks a \<and> w \<in> waiting (items a) \<and>
        (sleeps_well view (sys a) k \<longrightarrow> sleeps_well view (sys b) k)"
  shows "items_ok view waiting b"
  using assms unfolding items_ok_def by blast

context atomic_store begin

text \<open>The steps of the lookup.\<close>

lemma reserve_passes:
  assumes "thread_does S s p P t" and "sinv (store (shared s))" and "only_queue_keys (view (store (shared s)))"
    and "role_ok (ResRun w p)" and "sleeps_well view s (ResRun w p)"
  shows "P = Some p' \<Longrightarrow> sleeps_well view t (ResRun w p')"
    "P = None \<Longrightarrow> finds_none S s p \<Longrightarrow> sleeps_well view t (ResCheck w)"
proof -
  let ?it = "items_of (view (store (shared s)))"
  consider c where "p = RSeek (entry_key c)" | q v where "p = RCheck q v" using assms(4) by auto
  then have "(P = Some p' \<longrightarrow> sleeps_well view t (ResRun w p')) \<and>
    (P = None \<longrightarrow> finds_none S s p \<longrightarrow> sleeps_well view t (ResCheck w))"
  proof cases
    case (1 c)
    then obtain r st where r: "seek S (store (shared s)) (entry_key c) = (r, st)" "shared t = (shared s)\<lparr>store := st\<rparr>"
      and P: "case P of None \<Rightarrow> (\<forall>k v. r = Inr (Some (k, v)) \<longrightarrow> \<not> is_entry k)
         | Some p' \<Rightarrow> (\<exists>q v. r = Inr (Some (entry_key q, v)) \<and> p' = RCheck q v)"
      using assms(1) by auto
    have v: "view st = view (store (shared s))" using seek_keeps [OF assms(2) r(1)] by simp
    have old: "{q. q < c} \<inter> reservable view s = {}" using assms(5) 1 by (simp add: sleeps_well_def)
    have rs: "reservable view t = reservable view s" using r(2) v by (simp add: reservable_def)
    have found: "entry_from ?it (entry_key c) (map_option (\<lambda>(k, v). (the (seq_of k), v)) kv)"
      "\<forall>k u. kv = Some (k, u) \<longrightarrow> is_entry k" if "r = Inr kv" for kv
    proof -
      note l = seek_reads [OF assms(2) r(1) [unfolded that]]
      show "entry_from ?it (entry_key c) (map_option (\<lambda>(k, v). (the (seq_of k), v)) kv)"
        "\<forall>k u. kv = Some (k, u) \<longrightarrow> is_entry k"
        by (rule least_from_entry [OF l assms(3) meta_below_entry]; simp)+
    qed
    have ahead: "x \<in> reservable view s \<Longrightarrow> x \<in> dom ?it" for x by (simp add: reservable_def)
    show ?thesis
    proof (intro conjI impI)
      assume "P = Some p'"
      with P obtain q u where q: "r = Inr (Some (entry_key q, u))" "p' = RCheck q u" by auto
      from found(1) [OF q(1)] have "\<forall>x \<in> dom ?it. c \<le> x \<longrightarrow> q \<le> x" by (simp add: entry_from_def)
      then have "x \<notin> reservable view s" if "x < q" for x
        using old ahead [of x] that by (cases "x < c") (blast, meson leD not_less)
      then show "sleeps_well view t (ResRun w p')"
        unfolding sleeps_well_def rs q(2) by auto
    next
      assume n: "P = None" "finds_none S s p"
      with r(1) 1 obtain kv where kv: "r = Inr kv" by (cases r) auto
      have "kv = None"
        using P n(1) found(2) [OF kv] kv by (cases kv) auto
      with found(1) [OF kv] have "\<forall>x \<in> dom ?it. x < c" by (simp add: entry_from_def)
      then have "x \<notin> reservable view s" for x
        using old ahead [of x] by blast
      then show "sleeps_well view t (ResCheck w)"
        unfolding sleeps_well_def rs by auto
    qed
  next
    case (2 q v)
    have "x < q" if "x \<le> q" "x \<notin> reserved (inner (shared s))" "q \<in> reserved (inner (shared s))" for x
      using that by (cases "x = q") auto
    moreover have "x \<le> q" if "checked_inc q = Some n" "x < n" for x n
      using that by (simp add: less_inc_iff)
    ultimately show ?thesis
      using assms(1,5) 2 by (fastforce simp: sleeps_well_def reservable_def)
  qed
  then show "P = Some p' \<Longrightarrow> sleeps_well view t (ResRun w p')"
    "P = None \<Longrightarrow> finds_none S s p \<Longrightarrow> sleeps_well view t (ResCheck w)" by blast+
qed

text \<open>The one \<open>reserve\<close> moves on: the other tasks have no waker with \<open>items\<close>.\<close>

lemma lone_reserve:
  assumes "calm b" and "tasks b = add_mset r T" and "reserving r" and "k \<in># T"
  shows "item_waker k = {#}"
proof (rule no_waker)
  have "filter_mset reserving T = {#}" using assms(1-3) by (simp add: calm_def)
  moreover have "k \<in># filter_mset reserving T" if "reserving k" using that assms(4) by simp
  ultimately show "\<not> reserving k" by auto
qed

lemma items_acting:
  assumes J: "items_ok view waiting a" and a: "tasks a = add_mset r T" and b: "tasks b = add_mset r' T"
    and "calm b" and "reserving r'" and "\<not> item_pending r" and "item_waker r = item_waker r'"
    and "items b = items a" and "poisoned (sys b) = poisoned (sys a)"
    and m: "sleeps_well view (sys a) r \<Longrightarrow> sleeps_well view (sys b) r'"
  shows "items_ok view waiting b"
proof -
  note lone = lone_reserve [OF assms(4) b assms(5)]
  consider "poisoned (sys a)" | k where "k \<in># T" "item_pending k"
    | "(\<exists>w \<in># item_waker r. w \<in> waiting (items a)) \<longrightarrow> sleeps_well view (sys a) r"
    using J a assms(6) by (auto simp: items_ok_def)
  then show ?thesis
  proof cases
    case 3
    with m assms(7,8) have "(\<exists>w \<in># item_waker r'. w \<in> waiting (items b)) \<longrightarrow> sleeps_well view (sys b) r'" by auto
    with lone b show ?thesis by (auto simp: items_ok_def)
  qed (use assms(9) b in \<open>auto simp: items_ok_def\<close>)
qed

lemma items_step:
  assumes "astep S N a b" and l: "notify_lawful N ninv waiting chosen" and k: "all_wakers_ok N ninv waiting chosen a"
    and ro: "roles_ok a" and e: "store_errors S = {}" and ca: "calm a" and cb: "calm b"
    and st: "sinv (store (shared (sys a)))" "only_queue_keys (view (store (shared (sys a))))"
      "stored view (sys a) \<subseteq> {head (inner (shared (sys a)))..}"
    and J: "items_ok view waiting a"
  shows "items_ok view waiting b"
proof -
  have n: "ninv (items a)" and wk: "wakers_ok N ninv waiting chosen (items a) (over item_waker (tasks a))"
    using k by (simp_all add: all_wakers_ok_def wakers_ok_def)
  have one: "waiting (nt_one N (items a)) = {}" if "size (filter_mset reserving (tasks a)) \<le> 1"
    using one_empties [OF l wk] wakers_reserving [of "tasks a"] that by simp
  have all: "waiting (nt_all N (items a)) = {}" by (rule notifyD(7) [OF l n])
  note th = roles_thread [OF ro _ _ _ e]
  from assms(1) show ?thesis
  proof cases
    case (res_starts w T)
    show ?thesis
      by (rule items_acting [OF J res_starts(2), of _ "ResRun w (RSeek (entry_key (head (inner (shared (sys a))))))"])
        (use res_starts st(3) cb in \<open>auto simp: sleeps_well_def reservable_def dest: subsetD\<close>)
  next
    case (res_runs w p T p' t)
    note r = th [OF res_runs(2) _ res_runs(3), simplified]
    have "role_ok (ResRun w p)" using ro res_runs(2) by (simp add: roles_ok_def)
    from items_acting [OF J res_runs(2), of b "ResRun w p'"] reserve_passes(1) [OF r(1) st(1,2) this] cb res_runs r(1) this
    show ?thesis by auto
  next
    case (res_none w p T t)
    note r = th [OF res_none(2) _ res_none(3), simplified]
    have "role_ok (ResRun w p)" using ro res_none(2) by (simp add: roles_ok_def)
    from items_acting [OF J res_none(2), of b "ResCheck w"] reserve_passes(2) [OF r(1) st(1,2) this _ _ res_none(4)] cb res_none r(1) this
    show ?thesis by auto
  next
    case (res_sleeps w T)
    show ?thesis
      by (rule items_acting [OF J res_sleeps(2), of _ "ResWait w"]) (use res_sleeps cb in \<open>auto simp: sleeps_well_def\<close>)
  next
    case (res_enable T w)
    with lone_reserve [OF cb, of "ResTry w" T] show ?thesis by (auto simp: items_ok_def sleeps_well_def)
  next
    case (push_fails wo p T t)
    note r = th [OF push_fails(2) _ push_fails(3), simplified]
    show ?thesis
      by (rule items_keep [OF J]) (use push_fails r ro in \<open>auto simp: roles_ok_def panicked_def\<close>)
  next
    case (ack_ends p T t)
    note r = th [OF ack_ends(2) _ ack_ends(3), simplified]
    show ?thesis
      by (rule items_keep [OF J]) (use ack_ends r ro in \<open>auto simp: roles_ok_def\<close>)
  next
    case (res_ends w p T t)
    show ?thesis
      by (rule items_keep [OF J]) (use res_ends lone_reserve [OF ca res_ends(2)] in \<open>auto dest: thread_poisoned\<close>)
  next
    case (res_drained w T)
    show ?thesis
      by (rule items_keep [OF J]) (use res_drained lone_reserve [OF ca res_drained(2)] in auto)
  next
    case (res_wakes w T)
    show ?thesis
      by (rule items_keep [OF J]) (use res_wakes lone_reserve [OF ca res_wakes(2)] in auto)
  next
    case (cancel_reserve c T wo T')
    have "tasks b = T' + T" using cancel_reserve(1) by simp
    from calm_dropped(2) [OF cb this cancel_reserve(3)] obtain w where c: "c = ResWait w" "T' = {#}" by blast
    show ?thesis
      by (rule items_keep [OF J]) (use cancel_reserve c lone_reserve [OF ca cancel_reserve(2)] in auto)
  next
    case (cancel_push c T wo T')
    have "tasks b = T' + T" using cancel_push(1) by simp
    from calm_dropped(1) [OF cb this cancel_push(3)] obtain w v where c: "c = PushWait w v" "T' = {#}" by blast
    show ?thesis by (rule items_keep [OF J]) (use cancel_push c in auto)
  qed (rule items_keep [OF J]; (use one all ca cb ro in \<open>auto simp: calm_def roles_ok_def dest: thread_poisoned\<close>))+
qed

end

end
