(* ===== verification/Resting.thy ===== *)
theory Resting imports Producing Consuming begin

text \<open>
  What a system of async tasks can come to rest in. Over a store that reports no error, with calm
  tasks: when every task sleeps, a producer does so because the queue is open and full, and the
  consumer because it is not drained and every stored item is in a live guard. A future dropped at
  the wrong moment breaks the second: the run at the end leaves a consumer asleep beside an item.
\<close>

section \<open>All invariants\<close>

fun asleep :: "'n Notify \<Rightarrow> ('s, 'n) ASys \<Rightarrow> task \<Rightarrow> bool" where
  "asleep N a (PushWait w v) \<longleftrightarrow> \<not> nt_ready N (room a) w"
| "asleep N a (ResWait w) \<longleftrightarrow> \<not> nt_ready N (items a) w"
| "asleep N a _ \<longleftrightarrow> False"

definition at_rest :: "'n Notify \<Rightarrow> ('s, 'n) ASys \<Rightarrow> bool" where
  "at_rest N a \<longleftrightarrow> (\<forall>k \<in># tasks a. asleep N a k)"

context atomic_store begin

lemma areach_tasks:
  assumes "areach S N calm (aboot N (items_of (view (store sh))) sh) a" and l: "notify_lawful N ninv waiting chosen"
    and e: "store_errors S = {}" and "sinv (store sh)" and "wf_queue (view (store sh)) sh"
    and "reserved (inner sh) = {}" and mb: "max_bytes sh = usize_max"
  shows "calm a \<and> roles_ok a \<and> room_ok waiting chosen a \<and> items_ok view waiting a"
  using assms(1)
proof induction
  case areach_start
  show ?case
    by (simp add: calm_def roles_ok_def unparked_def room_ok_def items_ok_def asleep_push_def aboot_def)
next
  case (areach_step a b)
  note r = areach_sys(1) [OF areach_step(1)] and r' = areach_sys(1) [OF areach.areach_step [OF areach_step(1-3)]]
  note st = reach_settled [OF r assms(4-6) e]
  note w = areach_wakers [OF areach_step(1) l]
  have cap: "capacity (shared (sys b)) = capacity (shared (sys a))" "max_bytes (shared (sys a)) = usize_max"
    using reach_wakes(2,3) [OF r mb] reach_wakes(3) [OF r' mb] by simp_all
  from areach_step.IH have J: "calm a" "roles_ok a" "room_ok waiting chosen a" "items_ok view waiting a" by blast+
  from roles_step [OF areach_step(2) J(2) areach_step(3) e]
    room_step [OF areach_step(2) l w J(2) e cap(2,1) areach_step(3) J(3)]
    items_step [OF areach_step(2) l w J(2) e J(1) areach_step(3) st(1,2,4) J(4)] areach_step(3)
  show ?case by blast
qed

end

lemma resting_tasks:
  assumes "at_rest N a"
  shows "over blocked (tasks a) = {#}" "spares a = 0" "\<forall>k \<in># tasks a. \<not> closing k"
    "\<forall>k \<in># tasks a. \<not> item_pending k"
proof -
  have k: "blocked k = {#} \<and> \<not> spare k \<and> \<not> closing k \<and> \<not> item_pending k" if "k \<in># tasks a" for k
    using assms that by (cases k) (auto simp: at_rest_def)
  then show "over blocked (tasks a) = {#}" "\<forall>k \<in># tasks a. \<not> closing k" "\<forall>k \<in># tasks a. \<not> item_pending k"
    by (auto simp: over_def)
  have "filter_mset spare (tasks a) = {#}"
  proof (rule ccontr)
    assume "filter_mset spare (tasks a) \<noteq> {#}"
    then obtain x where "x \<in># filter_mset spare (tasks a)" by (meson multiset_nonemptyE)
    with k show False by auto
  qed
  then show "spares a = 0" by (simp add: spares_def)
qed

lemma resting_chosen:
  assumes "at_rest N a" and "all_wakers_ok N ninv waiting chosen a" and l: "notify_lawful N ninv waiting chosen"
  shows "chosen (room a) = {}"
proof (rule ccontr)
  assume "chosen (room a) \<noteq> {}"
  then obtain w where w: "w \<in> chosen (room a)" by blast
  have n: "ninv (room a)" using assms(2) by (simp add: all_wakers_ok_def wakers_ok_def)
  from w assms(2) have "w \<in># over room_waker (tasks a)" by (auto simp: all_wakers_ok_def wakers_ok_def)
  then obtain k where k: "k \<in># tasks a" "w \<in># room_waker k" by (simp only: in_over) blast
  with assms(1) have "asleep N a k" by (simp add: at_rest_def)
  with k(2) have "\<not> nt_ready N (room a) w" by (cases k) auto
  with notifyD(4) [OF l n w] show False by blast
qed

section \<open>An instance of \<open>Notify\<close>\<close>

record fifo =
  line :: "nat list"
  picked :: "nat set"
  fin :: "nat set"
  permit :: bool

definition fifo_one :: "fifo \<Rightarrow> fifo" where
  "fifo_one n = (case line n of [] \<Rightarrow> n\<lparr>permit := True\<rparr> | u # us \<Rightarrow> n\<lparr>line := us, picked := insert u (picked n)\<rparr>)"

definition fifo_notify :: "fifo Notify" where
  "fifo_notify = \<lparr>nt_new = \<lparr>line = [], picked = {}, fin = {}, permit = False\<rparr>,
     nt_enable = (\<lambda>n w. if permit n then n\<lparr>permit := False, fin := insert w (fin n)\<rparr>
       else n\<lparr>line := line n @ [w], fin := fin n - {w}\<rparr>),
     nt_ready = (\<lambda>n w. w \<in> picked n \<union> fin n),
     nt_await = (\<lambda>n w. n\<lparr>picked := picked n - {w}, fin := fin n - {w}\<rparr>),
     nt_drop = (\<lambda>n w. if w \<in> picked n then fifo_one (n\<lparr>picked := picked n - {w}, fin := fin n - {w}\<rparr>)
       else n\<lparr>line := filter (\<lambda>u. u \<noteq> w) (line n), fin := fin n - {w}\<rparr>),
     nt_one = fifo_one,
     nt_all = (\<lambda>n. n\<lparr>line := [], fin := fin n \<union> set (line n)\<rparr>)\<rparr>"

definition fifo_inv :: "fifo \<Rightarrow> bool" where
  "fifo_inv n \<longleftrightarrow> distinct (line n) \<and> finite (picked n) \<and> set (line n) \<inter> (picked n \<union> fin n) = {}"

abbreviation fifo_waiting :: "fifo \<Rightarrow> nat set" where
  "fifo_waiting n \<equiv> set (line n)"

lemma fifo_lawful: "notify_lawful fifo_notify fifo_inv fifo_waiting picked"
proof -
  have "ready_law fifo_notify fifo_waiting picked n w" "enable_law fifo_notify fifo_inv fifo_waiting picked n w"
    "await_law fifo_notify fifo_inv fifo_waiting picked n w" if "fifo_inv n" for n w
    using that by (auto simp: ready_law_def enable_law_def await_law_def keeps_alive_def fifo_notify_def fifo_inv_def)
  moreover have "wake_law fifo_notify fifo_inv fifo_waiting picked n" if "fifo_inv n" for n
    using that by (auto simp: wake_law_def keeps_alive_def picks_def fifo_notify_def fifo_inv_def fifo_one_def split: list.splits)
  moreover have "drop_law fifo_notify fifo_inv fifo_waiting picked n w" if "fifo_inv n" for n w
    using that by (auto simp: drop_law_def keeps_alive_def picks_def fifo_notify_def fifo_inv_def fifo_one_def split: list.splits)
  ultimately show ?thesis
    by (simp add: notify_lawful_def) (simp add: fifo_notify_def fifo_inv_def)
qed

section \<open>A consumer that goes to sleep\<close>

definition idle_store :: "val option \<Rightarrow> mem_store" where
  "idle_store x = (META_KEY, [FORMAT_VERSION]) # (case x of None \<Rightarrow> [] | Some v \<Rightarrow> [(entry_key 0, v)])"

definition idle_inner :: "bool \<Rightarrow> Inner" where
  "idle_inner full = \<lparr>tail = (if full then 1 else 0), head = 0, acked_above = {}, len = (if full then 1 else 0),
     bytes = (if full then 1 else 0), reserved = {}, closed = False\<rparr>"

definition idle_shared :: "val option \<Rightarrow> bool \<Rightarrow> mem_store Shared" where
  "idle_shared x full = \<lparr>store = idle_store x, capacity = 4, max_bytes = usize_max, durable = True,
     ack_durable = True, group = False, inner = idle_inner full, group_state = group_default\<rparr>"

definition idle_sys :: "val option \<Rightarrow> bool \<Rightarrow> pc multiset \<Rightarrow> (u64 \<rightharpoonup> val) \<Rightarrow> (u64 \<rightharpoonup> val) \<Rightarrow> mem_store Sys" where
  "idle_sys x full F m acc = \<lparr>shared = idle_shared x full, flight = F, guards = {#}, poisoned = False,
     assigned = m, accepted = acc, ack_tried = {}, delivered = []\<rparr>"

definition idle_fifo :: "nat list \<Rightarrow> fifo" where
  "idle_fifo us = \<lparr>line = us, picked = {}, fin = {}, permit = False\<rparr>"

definition idle :: "mem_store Sys \<Rightarrow> nat list \<Rightarrow> nat list \<Rightarrow> task multiset \<Rightarrow> (mem_store, fifo) ASys" where
  "idle s us ws T = \<lparr>sys = s, room = idle_fifo us, items = idle_fifo ws, tasks = T\<rparr>"

abbreviation idle_sys0 :: "pc multiset \<Rightarrow> mem_store Sys" where
  "idle_sys0 F \<equiv> idle_sys None False F Map.empty Map.empty"

lemma idle_sel [simp]:
  "sys (idle s us ws T) = s" "room (idle s us ws T) = idle_fifo us" "items (idle s us ws T) = idle_fifo ws"
  "tasks (idle s us ws T) = T" "(idle s us ws T)\<lparr>sys := s'\<rparr> = idle s' us ws T"
  "(idle s us ws T)\<lparr>tasks := T'\<rparr> = idle s us ws T'"
  "shared (idle_sys x full F m acc) = idle_shared x full" "flight (idle_sys x full F m acc) = F"
  "guards (idle_sys x full F m acc) = {#}" "poisoned (idle_sys x full F m acc) = False"
  "store (idle_shared x full) = idle_store x" "inner (idle_shared x full) = idle_inner full"
  "head (idle_inner full) = 0" "closed (idle_inner full) = False" "reserved (idle_inner full) = {}"
  by (simp_all add: idle_def idle_sys_def idle_shared_def idle_inner_def)

lemma idle_boot: "aboot fifo_notify Map.empty (idle_shared None False) = idle (idle_sys0 {#}) [] [] {#}"
  by (simp add: aboot_def boot_def idle_def idle_sys_def idle_fifo_def fifo_notify_def)

lemma idle_items: "items_of (map_of (idle_store None)) = Map.empty" "items_of (map_of (idle_store (Some v))) = [0 \<mapsto> v]"
  by (simp_all add: idle_store_def)

lemma idle_wf: "bt_ordered (idle_store None)" "wf_queue (map_of (idle_store None)) (idle_shared None False)"
  by (simp_all add: idle_store_def idle_shared_def idle_inner_def wf_queue_def Let_def weight_def)

lemma idle_goes_to_sleep:
  "areach MemW fifo_notify calm (idle (idle_sys0 {#}) [] [] {#}) (idle (idle_sys0 {#}) [] [0] {#ResWait 0#})"
proof -
  let ?s = "idle_sys0 {#}" and ?r = "RSeek (entry_key 0)"
  have "bt_next (entry_key 0) (idle_store None) = None" by (simp add: idle_store_def not_le)
  then have k: "step MemW (idle_sys0 {#?r#}) ?s"
    using step.seek_ends [of "idle_sys0 {#?r#}" "entry_key 0" "{#}" MemW "Inr None" "idle_store None"]
    by (simp add: mem_seek_def idle_sys_def idle_shared_def)
  have 1: "astep MemW fifo_notify (idle ?s [] [] {#}) (idle ?s [] [] {#ResNew#})"
    using res_new [of MemW fifo_notify "idle ?s [] [] {#}"] by simp
  have 2: "astep MemW fifo_notify (idle ?s [] [] {#ResNew#}) (idle ?s [] [0] {#ResTry 0#})"
    using res_enable [of "idle ?s [] [] {#ResNew#}" "{#}" 0 MemW fifo_notify]
    by (simp add: fifo_notify_def idle_fifo_def idle_def)
  have 3: "astep MemW fifo_notify (idle ?s [] [0] {#ResTry 0#}) (idle (idle_sys0 {#?r#}) [] [0] {#ResRun 0 ?r#})"
    using res_starts [of "idle ?s [] [0] {#ResTry 0#}" 0 "{#}" MemW fifo_notify]
    by (simp add: sys_seek_def idle_sys_def)
  have 4: "astep MemW fifo_notify (idle (idle_sys0 {#?r#}) [] [0] {#ResRun 0 ?r#}) (idle ?s [] [0] {#ResCheck 0#})"
    using res_none [of "idle (idle_sys0 {#?r#}) [] [0] {#ResRun 0 ?r#}" 0 ?r "{#}" MemW ?s fifo_notify] k
    by (simp add: thread_def mem_seek_def)
  have 5: "astep MemW fifo_notify (idle ?s [] [0] {#ResCheck 0#}) (idle ?s [] [0] {#ResWait 0#})"
    using res_sleeps [of "idle ?s [] [0] {#ResCheck 0#}" 0 "{#}" MemW fifo_notify]
    by (simp add: is_drained_def)
  show ?thesis
    by (rule areach_step [OF areach_step [OF areach_step [OF areach_step [OF areach_step [OF areach_start 1] 2] 3] 4] 5])
      (simp_all add: calm_def)
qed

section \<open>Properties\<close>

text \<open>C10. No task is left asleep. Over a store that reports no error, with no byte bound, no future
  dropped inside a blocking call and one \<open>reserve\<close> at a time, for any \<open>Notify\<close> that does what tokio
  documents: when every task sleeps un-notified (and no lock is poisoned), a sleeping producer means
  an open, full queue, and a sleeping consumer means a queue that is not drained and whose every
  stored item is in a live guard.\<close>

theorem rest_means_full_or_taken:
  assumes "notify_lawful N ninv waiting chosen" and "atomic_store S sinv view" and "store_errors S = {}"
    and "sinv (store sh)" and "wf_queue (view (store sh)) sh" and "reserved (inner sh) = {}"
    and "max_bytes sh = usize_max"
    and "areach S N calm (aboot N (items_of (view (store sh))) sh) a" and "\<not> poisoned (sys a)" and "at_rest N a"
  shows "(PushWait w v \<in># tasks a \<longrightarrow>
      \<not> closed (inner (shared (sys a))) \<and> capacity sh \<le> len (inner (shared (sys a)))) \<and>
    (ResWait u \<in># tasks a \<longrightarrow> \<not> is_drained (shared (sys a)) \<and>
      (\<forall>q \<in> dom (items_of (view (store (shared (sys a))))). \<exists>x. (q, x) \<in># guards (sys a)))"
proof -
  note r = areach_sys [OF assms(8)] and rest = resting_tasks [OF assms(10)]
  note J = atomic_store.areach_tasks [OF assms(2,8,1,3-7)] and W = areach_wakers [OF assms(8,1)]
  note st = atomic_store.reach_settled [OF assms(2) r(1) assms(4-6,3)]
  have alive: "w \<in> waiting (room a) \<or> nt_ready N (room a) w" if "PushWait w v \<in># tasks a" for w v
  proof -
    have "w \<in># over room_waker (tasks a)" using that unfolding in_over by force
    with W show ?thesis by (simp add: all_wakers_ok_def wakers_ok_def)
  qed
  have awake: "w \<in> waiting (items a) \<or> nt_ready N (items a) w" if "ResWait w \<in># tasks a" for w
  proof -
    have "w \<in># over item_waker (tasks a)" using that unfolding in_over by force
    with W show ?thesis by (simp add: all_wakers_ok_def wakers_ok_def)
  qed
  have "\<not> closed (inner (shared (sys a))) \<and> capacity sh \<le> len (inner (shared (sys a)))"
    if p: "PushWait w v \<in># tasks a"
  proof -
    have "w \<in> waiting (room a)" using alive [OF p] p assms(10) by (auto simp: at_rest_def)
    with p have "asleep_push waiting a" by (auto simp: asleep_push_def)
    with J rest(2,3) resting_chosen [OF assms(10) W assms(1)] assms(9) reach_wakes(3) [OF r(1) assms(7)]
    show ?thesis by (auto simp: room_ok_def Let_def)
  qed
  moreover have "\<not> is_drained (shared (sys a)) \<and>
      (\<forall>q \<in> dom (items_of (view (store (shared (sys a))))). \<exists>x. (q, x) \<in># guards (sys a))"
    if p: "ResWait u \<in># tasks a"
  proof -
    have "u \<in> waiting (items a)" using awake [OF p] p assms(10) by (auto simp: at_rest_def)
    with p J rest(4) assms(9) have s: "sleeps_well view (sys a) (ResWait u)" by (force simp: items_ok_def)
    have "owners (sys a) = image_mset fst (guards (sys a))"
      using r(2) rest(1) by (simp add: owners_def threads_ok_def)
    with st(3) assms(9) have "reserved (inner (shared (sys a))) \<subseteq> fst ` set_mset (guards (sys a))"
      by (simp add: reserved_ok_def)
    moreover have "stored view (sys a) \<subseteq> reserved (inner (shared (sys a)))"
      using s by (auto simp: sleeps_well_def reservable_def)
    ultimately have "q \<in> fst ` set_mset (guards (sys a))" if "q \<in> stored view (sys a)" for q
      using that by blast
    then have "\<exists>x. (q, x) \<in># guards (sys a)" if "q \<in> stored view (sys a)" for q
      using that by force
    with s show ?thesis by (simp only: sleeps_well_def) blast
  qed
  ultimately show ?thesis by blast
qed

theorem rest_means_full_or_taken_witness:
  "\<exists>a. areach MemW fifo_notify calm (aboot fifo_notify Map.empty (idle_shared None False)) a \<and>
    ResWait 0 \<in># tasks a \<and> \<not> is_drained (shared (sys a))"
proof -
  let ?a = "idle (idle_sys0 {#}) [] [0] {#ResWait 0#}" and ?sh = "idle_shared None False"
  have r: "areach MemW fifo_notify calm (aboot fifo_notify (items_of (map_of (store ?sh))) ?sh) ?a"
    using idle_goes_to_sleep by (simp add: idle_items idle_boot)
  have hyps: "bt_ordered (store ?sh)" "wf_queue (map_of (store ?sh)) ?sh" "reserved (inner ?sh) = {}"
    "max_bytes ?sh = usize_max" "\<not> poisoned (sys ?a)" "at_rest fifo_notify ?a"
    using idle_wf by (simp_all add: idle_shared_def at_rest_def fifo_notify_def idle_fifo_def)
  from rest_means_full_or_taken [OF fifo_lawful mem.atomic_store_axioms mem_no_errors hyps(1-4) r hyps(5,6)] r
  show ?thesis by (intro exI [of _ ?a]) (simp add: idle_items)
qed

text \<open>C32. A limit: dropped futures. A consumer sleeps in \<open>reserve\<close>; a push future is dropped while its
  blocking \<open>try_push\<close> runs (as by a timeout). The item is stored, but only the dropped task would have
  notified \<open>items\<close>: everything is at rest, the item can be reserved, and the consumer sleeps on.\<close>

theorem dropped_push_strands_consumer:
  "\<exists>a. areach MemW fifo_notify (\<lambda>_. True) (aboot fifo_notify Map.empty (idle_shared None False)) a \<and>
    at_rest fifo_notify a \<and> tasks a = {#ResWait 0#} \<and> \<not> poisoned (sys a) \<and>
    items_of (map_of (store (shared (sys a)))) = [0 \<mapsto> [7]] \<and> reserved (inner (shared (sys a))) = {}"
proof -
  let ?s = "idle_sys0 {#}" and ?c = "idle_sys None True {#Claimed 0 [7]#} [0 \<mapsto> [7]] Map.empty"
  let ?t = "idle_sys (Some [7]) True {#} [0 \<mapsto> [7]] [0 \<mapsto> [7]]" and ?w = "ResWait 0" and ?N = fifo_notify
  have "areach MemW ?N calm a b \<Longrightarrow> areach MemW ?N (\<lambda>_. True) a b" for a b
    by (induction rule: areach.induct) (auto intro: areach.intros)
  then have 0: "areach MemW ?N (\<lambda>_. True) (idle ?s [] [] {#}) (idle ?s [] [0] {#?w#})"
    using idle_goes_to_sleep by blast
  have 1: "astep MemW ?N (idle ?s [] [0] {#?w#}) (idle ?s [] [0] {#PushNew [7], ?w#})"
    using push_new [of MemW ?N "idle ?s [] [0] {#?w#}" "[7]"] by simp
  have 2: "astep MemW ?N (idle ?s [] [0] {#PushNew [7], ?w#}) (idle ?s [0] [0] {#PushTry (Some 0) [7], ?w#})"
    using push_enable [of "idle ?s [] [0] {#PushNew [7], ?w#}" "[7]" "{#?w#}" 0 MemW ?N]
    by (simp add: fifo_notify_def idle_fifo_def idle_def)
  have "enter (idle_shared None False) (length [7 :: byte]) = Admitted 0 (idle_inner True)"
    by (simp add: admits_def saturating_add_def idle_shared_def idle_inner_def)
  then have 3: "astep MemW ?N (idle ?s [0] [0] {#PushTry (Some 0) [7], ?w#})
      (idle ?c [0] [0] {#PushRun (Some 0) (Claimed 0 [7]), ?w#})"
    using push_admitted [of "idle ?s [0] [0] {#PushTry (Some 0) [7], ?w#}" "Some 0" "[7]" "{#?w#}" 0 "idle_inner True" MemW ?N]
    by (simp add: sys_claim_def idle_sys_def idle_shared_def)
  have 4: "astep MemW ?N (idle ?c [0] [0] {#PushRun (Some 0) (Claimed 0 [7]), ?w#})
      (idle ?c [] [0] {#Orphan (Claimed 0 [7]), ?w#})"
    using cancel_push [of "idle ?c [0] [0] {#PushRun (Some 0) (Claimed 0 [7]), ?w#}"
        "PushRun (Some 0) (Claimed 0 [7])" "{#?w#}" "Some 0" "{#Orphan (Claimed 0 [7])#}" MemW ?N]
    by (simp add: fifo_notify_def idle_fifo_def idle_def drop_waker_def add_mset_commute)
  have "bt_insert (entry_key 0) [7] (idle_store None) = idle_store (Some [7])"
    by (simp add: idle_store_def not_less less_imp_le)
  then have k: "step MemW ?c ?t"
    using step.put_ok [of ?c 0 "[7]" "{#}" MemW "()" "idle_shared (Some [7]) True"]
    by (simp add: commit_to_def mem_commit_def idle_sys_def idle_shared_def)
  have 5: "astep MemW ?N (idle ?c [] [0] {#Orphan (Claimed 0 [7]), ?w#}) (idle ?t [] [0] {#?w#})"
    using orphan_ends [of "idle ?c [] [0] {#Orphan (Claimed 0 [7]), ?w#}" "Claimed 0 [7]" "{#?w#}" MemW ?t ?N] k
    by (simp add: thread_def)
  have "areach MemW ?N (\<lambda>_. True) (idle ?s [] [] {#}) (idle ?t [] [0] {#?w#})"
    by (rule areach_step [OF areach_step [OF areach_step [OF areach_step [OF areach_step [OF 0 1] 2] 3] 4] 5]) simp_all
  then show ?thesis
    unfolding idle_boot
    by (intro exI [of _ "idle ?t [] [0] {#?w#}"]) (simp add: idle_items at_rest_def fifo_notify_def idle_fifo_def)
qed

end
