(* ===== verification/Progress.thy ===== *)
theory Progress imports Batching begin

text \<open>
  Well-formedness and progress of the threads. In every reachable state, over any store, the keys
  stored and sought are keys of the layout, so no lookup ever decodes a foreign key; and a thread
  that is inside an operation can always take its next step, but for a producer parked waiting
  for room and a follower of a group commit, whose leader can. There is no deadlock between the locks'
  sections, the store calls and the group commit.
\<close>

section \<open>Keys\<close>

definition seeks_ok :: "'s Sys \<Rightarrow> bool" where
  "seeks_ok s \<longleftrightarrow> (\<forall>c. RSeek c \<in># flight s \<longrightarrow> is_entry c)"

lemma seek_in_wake [simp]: "RSeek c \<in> wake ` A \<longleftrightarrow> RSeek c \<in> A"
proof -
  have "wake p = RSeek c \<longleftrightarrow> p = RSeek c" for p by (cases p) auto
  then show ?thesis by (metis (no_types, opaque_lifting) image_iff)
qed

lemma seeks_step: "step S s t \<Longrightarrow> seeks_ok s \<Longrightarrow> seeks_ok t"
  by (induction rule: step.cases) (auto simp: seeks_ok_def)

context store_contract begin

lemma reach_queue_keys:
  assumes "reach S C (boot m sh) s" and "sinv (store sh)" and "only_queue_keys (view (store sh))"
  shows "sinv (store (shared s)) \<and> only_queue_keys (view (store (shared s)))" "seeks_ok s"
proof -
  show "sinv (store (shared s)) \<and> only_queue_keys (view (store (shared s)))"
    using reach_inv [OF assms(1), where J = "\<lambda>s. sinv (store (shared s)) \<and> only_queue_keys (view (store (shared s)))"]
      assms(2,3) queue_keys_step by fastforce
  show "seeks_ok s"
    using reach_inv [OF assms(1), where J = seeks_ok] seeks_step by (fastforce simp: seeks_ok_def boot_def)
qed

end

section \<open>Steps of one thread\<close>

definition advances :: "('s, 'e) Store \<Rightarrow> 's Sys \<Rightarrow> pc \<Rightarrow> bool" where
  "advances S s p \<longleftrightarrow> (\<exists>t. step S s t \<and> count (flight t) p < count (flight s) p)"

fun waits :: "pc \<Rightarrow> bool" where
  "waits (Parked v) = True"
| "waits (GWait q v) = True"
| "waits _ = False"

lemma advancesI: "step S s t \<Longrightarrow> flight s = add_mset p F \<Longrightarrow> count (flight t) p \<le> count F p \<Longrightarrow> advances S s p"
  unfolding advances_def by (intro exI [of _ t]) simp

lemma panic_advances:
  "\<not> poisoned s \<Longrightarrow> flight s = add_mset p F \<Longrightarrow> section_panics (shared s) p \<Longrightarrow> advances S s p"
  by (rule advancesI [OF section_panic]) auto

lemma entry_seq: "is_entry k \<Longrightarrow> \<exists>q. seq_of k = Some q"
  by (auto simp: is_entry_iff)

lemma count_wake: "count (image_mset wake F) NotifyAll = count F NotifyAll"
proof -
  have "wake p = NotifyAll \<longleftrightarrow> p = NotifyAll" for p by (cases p) auto
  then show ?thesis by (induction F) auto
qed

lemma advances:
  assumes "\<not> poisoned s" and f: "flight s = add_mset p F" and "\<not> waits p"
  shows "advances S s p"
proof (cases p)
  case (Woken v)
  show ?thesis
  proof (cases "enter (shared s) (length v)")
    case Rejected
    then show ?thesis using advancesI [OF wake_closed [OF assms(1)]] f Woken by force
  next
    case NoRoom
    then show ?thesis using advancesI [OF wake_park [OF assms(1)]] f Woken by force
  next
    case (Admitted q i)
    then show ?thesis using advancesI [OF wake_claim [OF assms(1)]] f Woken by force
  next
    case Overflow
    with Woken have "section_panics (shared s) p" by simp
    with panic_advances [OF assms(1) f] show ?thesis .
  qed
next
  case (Claimed q v)
  show ?thesis
  proof (cases "group (shared s)")
    case True
    then have gr: "group (shared s)" .
    obtain b g where g: "group_take (group_enqueue (group_state (shared s)) q v) = (b, g)" by fastforce
    show ?thesis
    proof (cases "flushing (group_state (shared s))")
      case True
      with gr show ?thesis using advancesI [OF group_follow] f Claimed by force
    next
      case no_leader: False
      show ?thesis by (rule advancesI [OF group_elect [OF _ gr no_leader g]]) (use f Claimed in auto)
    qed
  next
    case False
    obtain r sh where c: "commit_to S (shared s) [Put (entry_key q) v] (durable (shared s)) = (r, sh)" by fastforce
    show ?thesis
    proof (cases r)
      case (Inl e)
      show ?thesis by (rule advancesI [OF put_err [OF _ False c [unfolded Inl]]]) (use f Claimed in auto)
    next
      case (Inr u)
      show ?thesis by (rule advancesI [OF put_ok [OF _ False c [unfolded Inr]]]) (use f Claimed in auto)
    qed
  qed
next
  case (Failed q v)
  then show ?thesis
    using advancesI [OF failed_back [OF assms(1)]] panic_advances [OF assms(1) f] f
    by (cases "give_back (inner (shared s)) (length v)") force+
next
  case NotifyOne
  show ?thesis
  proof (cases "\<exists>v. Parked v \<in># F")
    case True
    then obtain v G where "F = add_mset (Parked v) G" by (meson mset_add)
    then show ?thesis using advancesI [OF notify_one_wakes, of s v G NotifyOne F S] f NotifyOne by simp
  next
    case False
    then show ?thesis using advancesI [OF notify_one_idle, of s F NotifyOne F S] f NotifyOne by simp
  qed
next
  case NotifyAll
  then show ?thesis
    using advancesI [OF notify_all, of s F NotifyAll F S] f by (simp add: count_wake)
next
  case (GFlush q v b)
  obtain r sh where "commit_to S (shared s) (batch_ops b) True = (r, sh)" by fastforce
  then show ?thesis using advancesI [OF group_flush] f GFlush by force
next
  case (GRecord q v b ok)
  let ?g = "group_record (group_state (shared s)) b ok"
  obtain o' g where o: "group_outcome ?g q = (o', g)" by fastforce
  obtain b' g' where t: "group_take ?g = (b', g')" by fastforce
  show ?thesis
  proof (cases "pending (group_state (shared s)) = []")
    case True
    show ?thesis
    proof (cases "o' = Some True")
      case ok: True
      show ?thesis by (rule advancesI [OF group_end_ok [OF _ True o [unfolded ok]]]) (use f GRecord in auto)
    next
      case False
      show ?thesis by (rule advancesI [OF group_end_retry [OF _ True o False]]) (use f GRecord in auto)
    qed
  next
    case False
    show ?thesis by (rule advancesI [OF group_more [OF _ False t]]) (use f GRecord in auto)
  qed
next
  case (GRetry q v)
  obtain r sh where c: "commit_to S (shared s) [Put (entry_key q) v] True = (r, sh)" by fastforce
  show ?thesis
  proof (cases r)
    case (Inl e)
    show ?thesis by (rule advancesI [OF retry_err [OF _ c [unfolded Inl]]]) (use f GRetry in auto)
  next
    case (Inr u)
    show ?thesis by (rule advancesI [OF retry_ok [OF _ c [unfolded Inr]]]) (use f GRetry in auto)
  qed
next
  case (RSeek c)
  obtain r st where r: "seek S (store (shared s)) c = (r, st)" by fastforce
  show ?thesis
  proof (cases "\<exists>k v. r = Inr (Some (k, v)) \<and> is_entry k")
    case True
    then obtain k v where k: "r = Inr (Some (k, v))" "is_entry k" by blast
    then obtain q where q: "seq_of k = Some q" using entry_seq by blast
    show ?thesis by (rule advancesI [OF seek_finds [OF _ r [unfolded k(1)] k(2) q]]) (use f RSeek in auto)
  next
    case False
    show ?thesis by (rule advancesI [OF seek_ends [OF _ r]]) (use f RSeek False in auto)
  qed
next
  case (RCheck q v)
  show ?thesis
  proof (cases "reserve_check (inner (shared s)) q")
    case (Some i)
    show ?thesis by (rule advancesI [OF check_takes [OF assms(1) _ Some]]) (use f RCheck in auto)
  next
    case None
    note skip = advancesI [OF check_skips [OF assms(1) _ None]] advancesI [OF check_overflows [OF assms(1) _ None]]
    show ?thesis
      by (cases "checked_inc q") (rule skip(2) skip(1); use f RCheck in \<open>auto\<close>)+
  qed
next
  case (AckFin q v)
  show ?thesis
  proof (cases "ack_finish (inner (shared s)) q (length v)")
    case None
    with AckFin have "section_panics (shared s) p" by simp
    with panic_advances [OF assms(1) f] show ?thesis .
  next
    case (Some i)
    show ?thesis by (rule advancesI [OF ack_finishes [OF assms(1) _ Some]]) (use f AckFin in auto)
  qed
next
  case (Release q)
  then show ?thesis using advancesI [OF releases [OF assms(1)]] f by force
qed (use assms(3) in auto)

section \<open>Properties\<close>

text \<open>C20. Keys are well-formed. In every reachable state, over any store of the contract and whatever
  fails, the store holds nothing but the meta record and nine-byte entry keys; every lookup starts
  at an entry key, and what it finds is an entry whose number decodes: the panic of \<open>seq_of\<close> and the
  early end of \<open>reserve\<close> on a foreign key are never reached.\<close>

theorem keys_well_formed:
  assumes "store_contract S sinv view" and "sinv (store sh)" and "only_queue_keys (view (store sh))"
    and "reach S C (boot m sh) s"
  shows "only_queue_keys (view (store (shared s))) \<and>
    (RSeek c \<in># flight s \<longrightarrow> is_entry c \<and>
      (\<forall>k v st. seek S (store (shared s)) c = (Inr (Some (k, v)), st) \<longrightarrow>
        (\<exists>q. k = entry_key q \<and> seq_of k = Some q)))"
proof -
  note K = store_contract.reach_queue_keys [OF assms(1,4,2,3)]
  have "\<exists>q. k = entry_key q \<and> seq_of k = Some q"
    if c: "RSeek c \<in># flight s" and k: "seek S (store (shared s)) c = (Inr (Some (k, v)), st)" for k v st
  proof -
    from K c have "is_entry c" "META_KEY < c" by (auto simp: seeks_ok_def is_entry_iff)
    with store_contract.seek_reads [OF assms(1) _ k] K have l: "view (store (shared s)) k = Some v" "META_KEY < k"
      by (auto simp: least_from_def)
    with K have "is_entry k" by (auto intro: only_queue_keysD)
    then show ?thesis by (auto simp: is_entry_iff)
  qed
  with K show ?thesis by (auto simp: seeks_ok_def)
qed

theorem keys_well_formed_witness:
  "\<exists>s. RSeek (entry_key 0) \<in># flight s \<and> is_entry (entry_key 0) \<and>
    only_queue_keys (map_of (store (shared (s :: mem_store Sys))))"
proof -
  let ?S = "MemStore :: (mem_store, unit) Store"
  let ?s = "(boot Map.empty demo_group)\<lparr>flight := {#RSeek (entry_key 0)#}\<rparr>"
  have r: "reach ?S (\<lambda>_. True) (boot Map.empty demo_group) ?s"
    using reach_step [OF reach_start reserve_start [of "boot Map.empty demo_group" ?S]]
    by (simp add: demo_group_def demo_queue_def)
  have "only_queue_keys (map_of (store demo_group))" using demo_group_ok(2) by (rule wf_queueD(1))
  from keys_well_formed [OF mem.store_contract_axioms demo_group_ok(1) this r, of "entry_key 0"]
  have "RSeek (entry_key 0) \<in># flight ?s \<and> is_entry (entry_key 0) \<and> only_queue_keys (map_of (store (shared ?s)))"
    by simp
  then show ?thesis by blast
qed

text \<open>No deadlock. In every reachable state whose lock is not poisoned, a thread that is inside an
  operation and not parked waiting for room can take its next step (a failed, foreign or empty lookup,
  a failed write and an overflow included), unless it is a follower of a group commit without an
  outcome; then the one leader, which has the follower's number in its batch or finds it in the
  pending list, can take its next step.\<close>

theorem threads_progress:
  assumes "store_contract S sinv view" and "sinv (store sh)" and "wf_queue (view (store sh)) sh"
    and "reach S C (boot (items_of (view (store sh))) sh) s" and "\<not> poisoned s"
    and "p \<in># flight s" and "\<forall>v. p \<noteq> Parked v"
  shows "advances S s p \<or>
    (\<exists>q v l. p = GWait q v \<and> filter_mset leader (flight s) = {#l#} \<and>
      (q \<in> fst ` set (pending (group_state (shared s))) \<or> q \<in># held l) \<and> advances S s l)"
proof (cases "waits p")
  case False
  with advances [OF assms(5)] assms(6) show ?thesis by (metis mset_add)
next
  case True
  with assms(7) obtain q v where p: "p = GWait q v" by (cases p) auto
  obtain F where F: "flight s = add_mset p F" using assms(6) by (metis mset_add)
  show ?thesis
  proof (cases "done_map (group_state (shared s)) q")
    case None
    with group_waits [OF store_contract.reach_batch [OF assms(1,4,2,3)]] assms(6) p obtain l where
      l: "filter_mset leader (flight s) = {#l#}"
        "q \<in> fst ` set (pending (group_state (shared s))) \<or> q \<in># held l"
      by blast
    then have "l \<in># filter_mset leader (flight s)" by simp
    then have "l \<in># flight s" "leader l" by auto
    then have "\<not> waits l" by (cases l) auto
    with \<open>l \<in># flight s\<close> advances [OF assms(5)] have "advances S s l" by (metis mset_add)
    with p l show ?thesis by blast
  next
    case (Some ok)
    obtain g where o: "group_outcome (group_state (shared s)) q = (Some ok, g)"
      using Some by (simp add: group_outcome_eq)
    have "advances S s p"
    proof (cases ok)
      case True
      then have o': "group_outcome (group_state (shared s)) q = (Some True, g)" using o by simp
      show ?thesis by (rule advancesI [OF group_done_ok [OF _ o']]) (use F p in auto)
    next
      case False
      then have o': "group_outcome (group_state (shared s)) q = (Some False, g)" using o by simp
      show ?thesis by (rule advancesI [OF group_done_retry [OF _ o']]) (use F p in auto)
    qed
    then show ?thesis ..
  qed
qed

theorem threads_progress_witness:
  "\<exists>s. reach (MemStore :: (mem_store, unit) Store) (\<lambda>_. True)
     (boot (items_of (map_of (store demo_group))) demo_group) s \<and> GWait 2 [9] \<in># flight s \<and>
     (advances (MemStore :: (mem_store, unit) Store) s (GWait 2 [9]) \<or>
      (\<exists>l. leader l \<and> l \<in># flight s \<and> advances (MemStore :: (mem_store, unit) Store) s l))"
proof -
  from demo_follow obtain s where s: "reach (MemStore :: (mem_store, unit) Store) (\<lambda>_. True)
     (boot (items_of (map_of (store demo_group))) demo_group) s" "GWait 2 [9] \<in># flight s" "\<not> poisoned s"
    by blast
  from threads_progress [OF mem.store_contract_axioms demo_group_ok(1,2) s(1,3,2)]
  consider "advances (MemStore :: (mem_store, unit) Store) s (GWait 2 [9])"
    | l where "filter_mset leader (flight s) = {#l#}" "advances (MemStore :: (mem_store, unit) Store) s l"
    by blast
  then show ?thesis
  proof cases
    case 2
    then have "l \<in># filter_mset leader (flight s)" by simp
    then have "l \<in># flight s" "leader l" by auto
    with s 2 show ?thesis by blast
  qed (use s in blast)
qed

end
