(* ===== verification/Returning.thy ===== *)
theory Returning imports Progress Wakeups begin

text \<open>
  Every operation returns. A move is a step taken by a thread that is inside an operation and not
  asleep; it begins no new operation. Three measures, compared in this order, go down with every
  move: the producers that have not claimed a number yet, the work left after a claim (the batches
  still to be taken and the numbers a lookup may still visit included), and the producers that are
  awake. So moves come to an end, and they end with nobody inside an operation but producers parked
  waiting for room, unless a panic has poisoned the lock. Without a byte bound the queue is then open
  and full; with one a parked producer may fit (\<open>Wakeups\<close>).
\<close>

definition moves :: "('s, 'e) Store \<Rightarrow> 's Sys \<Rightarrow> 's Sys \<Rightarrow> bool" where
  "moves S s t \<longleftrightarrow> step S s t \<and> (\<exists>p. (\<forall>v. p \<noteq> Parked v) \<and> count (flight t) p < count (flight s) p)"

section \<open>Measures\<close>

fun unclaimed :: "pc \<Rightarrow> nat" where
  "unclaimed (Parked v) = 1"
| "unclaimed (Woken v) = 1"
| "unclaimed _ = 0"

fun awake :: "pc \<Rightarrow> nat" where
  "awake (Woken v) = 1"
| "awake _ = 0"

definition visited :: "key \<Rightarrow> nat" where
  "visited c = (case seq_of c of None \<Rightarrow> 0 | Some q \<Rightarrow> unat q)"

fun work :: "pc \<Rightarrow> nat" where
  "work (Parked v) = 0"
| "work (Woken v) = 0"
| "work (Claimed q v) = 7"
| "work (GFlush q v b) = 6"
| "work (GRecord q v b ok) = 5"
| "work (GWait q v) = 4"
| "work (GRetry q v) = 3"
| "work (Failed q v) = 2"
| "work NotifyOne = 1"
| "work NotifyAll = 1"
| "work (RSeek c) = 2 * (2 ^ 64 - visited c) + 1"
| "work (RCheck q v) = 2 * (2 ^ 64 - unat q)"
| "work (AckFin q v) = 2"
| "work (Release q) = 1"

definition tally :: "(pc \<Rightarrow> nat) \<Rightarrow> 's Sys \<Rightarrow> nat" where
  "tally f s = (\<Sum>p \<in># flight s. f p)"

definition workload :: "'s Sys \<Rightarrow> nat" where
  "workload s = tally work s + 2 * length (pending (group_state (shared s)))"

definition left_to_do :: "('s Sys \<times> 's Sys) set" where
  "left_to_do = measures [tally unclaimed, workload, tally awake]"

lemma visited_entry [simp]: "visited (entry_key q) = unat q"
  by (simp add: visited_def)

lemma u64_room [simp]: "unat (q :: u64) < 18446744073709551616"
  using unsigned_less [of q] by simp

lemma busy: "unclaimed p = 0 \<Longrightarrow> 0 < work p"
  by (cases p) auto

lemma wake_sums [simp]:
  "(\<Sum>p \<in># image_mset wake F. unclaimed p) = (\<Sum>p \<in># F. unclaimed p)"
  "(\<Sum>p \<in># image_mset wake F. work p) = (\<Sum>p \<in># F. work p)"
proof -
  have "unclaimed (wake p) = unclaimed p" "work (wake p) = work p" for p by (cases p; simp)+
  then show "(\<Sum>p \<in># image_mset wake F. unclaimed p) = (\<Sum>p \<in># F. unclaimed p)"
    "(\<Sum>p \<in># image_mset wake F. work p) = (\<Sum>p \<in># F. work p)"
    by (simp_all add: multiset.map_comp comp_def)
qed

lemmas tally_defs = moves_def left_to_do_def tally_def workload_def

lemma growing: "flight t = add_mset p (flight s) \<Longrightarrow> \<not> moves S s t"
  by (auto simp: moves_def)

context store_contract begin

lemma move_decreases:
  assumes "moves S s t" and "sinv (store (shared s))" and "seeks_ok s"
  shows "(t, s) \<in> left_to_do"
proof -
  from assms(1) have st: "step S s t" and grow: "\<nexists>p. flight t = add_mset p (flight s)"
    using growing [of t _ s S] by (blast intro: moves_def [THEN iffD1, THEN conjunct1])+
  show ?thesis
    using st
  proof cases
    case (seek_finds c F k v st q)
    obtain q0 where q0: "c = entry_key q0"
      using assms(3) seek_finds(2) by (auto simp: seeks_ok_def is_entry_iff)
    have "k = entry_key q" using seek_finds(4,5) by (simp add: is_entry_seq_of)
    moreover have "c \<le> k" using seek_reads [OF assms(2) seek_finds(3)] by (simp add: least_from_def)
    ultimately have "unat q0 \<le> unat q" by (simp add: q0 word_le_nat_alt)
    with seek_finds q0 show ?thesis by (simp add: tally_defs)
  next
    case (check_skips q v F n)
    then have "unat n = Suc (unat q)" by (auto simp: word_facts)
    with u64_room [of n] have "2 * (2 ^ 64 - unat n) + 1 < 2 * (2 ^ 64 - unat q)" by simp
    with check_skips(1,3) show ?thesis by (simp add: tally_defs del: power_numeral)
  next
    case (spurious v F)
    then show ?thesis using assms(1) by (auto simp: moves_def split: if_splits)
  next
    case (group_more q v b ok F b' g)
    then have "1 \<le> length (pending (group_state (shared s)))" by (simp add: Suc_le_eq)
    with group_more show ?thesis by (auto simp: tally_defs group_take_eq)
  next
    case (section_panic p F)
    then show ?thesis by (auto simp: tally_defs dest: busy)
  next
    case push_panic
    then show ?thesis using assms(1) by (simp add: moves_def)
  qed (use grow in
    \<open>auto simp: tally_defs group_take_eq group_enqueue_def group_outcome_eq close_def dest!: commit_to_sel(2)\<close>)
qed

lemma reach_moves:
  assumes "reach S C (boot (items_of (view (store sh))) sh) s" and "(moves S)\<^sup>*\<^sup>* s t"
  shows "reach S (\<lambda>_. True) (boot (items_of (view (store sh))) sh) t"
  using assms(2)
proof induction
  case base
  show ?case by (rule reach_any [OF assms(1)])
next
  case (step t u)
  then have "step S t u" by (simp add: moves_def)
  from reach_step [OF step.IH this] show ?case by simp
qed

lemma no_endless_moves:
  assumes "reach S C (boot (items_of (view (store sh))) sh) (f 0)" and "sinv (store sh)"
    and "only_queue_keys (view (store sh))"
  shows "\<exists>n. \<not> moves S (f n) (f (Suc n))"
proof (rule ccontr)
  assume "\<not> (\<exists>n. \<not> moves S (f n) (f (Suc n)))"
  then have m: "moves S (f n) (f (Suc n))" for n by blast
  have "(moves S)\<^sup>*\<^sup>* (f 0) (f n)" for n
    by (induction n) (auto intro: rtranclp.rtrancl_into_rtrancl m)
  from reach_queue_keys [OF reach_moves [OF assms(1) this] assms(2,3)]
  have "(f (Suc n), f n) \<in> left_to_do" for n
    by (intro move_decreases [OF m]) auto
  moreover have "wf left_to_do" by (simp add: left_to_do_def)
  ultimately show False by (auto simp: wf_iff_no_infinite_down_chain)
qed

end

text \<open>Where nothing moves, nobody is left but the parked.\<close>

lemma advances_moves: "advances S s p \<Longrightarrow> \<forall>v. p \<noteq> Parked v \<Longrightarrow> \<exists>t. moves S s t"
  by (auto simp: advances_def moves_def)

lemma still_parked:
  assumes "store_contract S sinv view" and "sinv (store sh)" and "wf_queue (view (store sh)) sh"
    and "reach S C (boot (items_of (view (store sh))) sh) s" and "\<nexists>t. moves S s t" and "\<not> poisoned s"
    and "p \<in># flight s"
  shows "\<exists>v. p = Parked v"
proof (rule ccontr)
  assume "\<nexists>v. p = Parked v"
  then have "\<forall>v. p \<noteq> Parked v" by blast
  from threads_progress [OF assms(1-4,6,7) this] consider "advances S s p"
    | l where "filter_mset leader (flight s) = {#l#}" "advances S s l" by blast
  then show False
  proof cases
    case 1
    with advances_moves assms(5) \<open>\<forall>v. p \<noteq> Parked v\<close> show False by blast
  next
    case 2
    then have "l \<in># filter_mset leader (flight s)" by simp
    then have "leader l" by simp
    then have "\<forall>v. l \<noteq> Parked v" by auto
    with advances_moves [OF 2(2)] assms(5) show False by blast
  qed
qed

lemma parked_full:
  assumes "reach S C (boot m sh) t" and "max_bytes sh = usize_max" and "\<not> poisoned t"
    and parked: "\<forall>p \<in># flight t. \<exists>v. p = Parked v" and "flight t \<noteq> {#}"
  shows "\<not> closed (inner (shared t)) \<and> capacity sh \<le> len (inner (shared t))"
proof -
  obtain v where "Parked v \<in># flight t" using parked assms(5) by (metis multiset_nonemptyE)
  moreover have "NotifyAll \<notin># flight t" using parked by blast
  moreover have "filter_mset waking (flight t) = filter_mset (\<lambda>_. False) (flight t)"
    by (rule filter_mset_cong) (use parked in auto)
  then have "wakes t = 0" by (simp add: wakes_def)
  ultimately show ?thesis using reach_wakes [OF assms(1,2)] assms(3) by (auto simp: wakes_ok_def)
qed

section \<open>Property\<close>

text \<open>C11. Every operation returns. From any reachable state, over any store of the contract and whatever
  fails, let the threads that are inside an operation run, beginning no new one: they cannot run for
  ever (not the scan of \<open>reserve\<close>, not the leader's loop, not the waking and waiting of producers), and
  when none of them can move, all that is left inside an operation are producers parked on \<open>room\<close>,
  unless an overflow has poisoned the lock. Without a byte bound those are parked on an open, full
  queue (with one, a parked producer may be one that fits: the last section of \<open>Wakeups\<close>).\<close>

theorem operations_return:
  assumes "store_contract S sinv view" and "sinv (store sh)" and "wf_queue (view (store sh)) sh"
    and "reach S C (boot (items_of (view (store sh))) sh) s"
  shows "(\<nexists>f. f 0 = s \<and> (\<forall>n. moves S (f n) (f (Suc n)))) \<and>
    (\<forall>t. (moves S)\<^sup>*\<^sup>* s t \<and> (\<nexists>u. moves S t u) \<longrightarrow> poisoned t \<or>
      (\<forall>p \<in># flight t. \<exists>v. p = Parked v) \<and>
      (max_bytes sh = usize_max \<longrightarrow> flight t \<noteq> {#} \<longrightarrow>
        \<not> closed (inner (shared t)) \<and> capacity sh \<le> len (inner (shared t))))"
proof (intro conjI allI impI)
  show "\<nexists>f. f 0 = s \<and> (\<forall>n. moves S (f n) (f (Suc n)))"
    using store_contract.no_endless_moves [OF assms(1) _ assms(2) wf_queueD(1) [OF assms(3)]] assms(4) by metis
next
  fix t
  assume t: "(moves S)\<^sup>*\<^sup>* s t \<and> (\<nexists>u. moves S t u)"
  then have "reach S (\<lambda>_. True) (boot (items_of (view (store sh))) sh) t"
    using store_contract.reach_moves [OF assms(1,4)] by blast
  note r = this
  show "poisoned t \<or> (\<forall>p \<in># flight t. \<exists>v. p = Parked v) \<and>
      (max_bytes sh = usize_max \<longrightarrow> flight t \<noteq> {#} \<longrightarrow>
        \<not> closed (inner (shared t)) \<and> capacity sh \<le> len (inner (shared t)))"
  proof (cases "poisoned t")
    case False
    with still_parked [OF assms(1-3) r] t have "\<forall>p \<in># flight t. \<exists>v. p = Parked v" by blast
    with parked_full [OF r _ False] show ?thesis by blast
  qed simp
qed

theorem operations_return_witness:
  "\<exists>s. reach (MemStore :: (mem_store, unit) Store) (\<lambda>_. True)
     (boot (items_of (map_of (store demo_group))) demo_group) s \<and> GWait 2 [9] \<in># flight s \<and>
     (\<nexists>f. f 0 = s \<and> (\<forall>n. moves (MemStore :: (mem_store, unit) Store) (f n) (f (Suc n))))"
proof -
  from demo_follow obtain s where s: "reach (MemStore :: (mem_store, unit) Store) (\<lambda>_. True)
     (boot (items_of (map_of (store demo_group))) demo_group) s" "GWait 2 [9] \<in># flight s" by blast
  from operations_return [OF mem.store_contract_axioms demo_group_ok(1,2) s(1)] s show ?thesis by blast
qed

end
