(* ===== verification/GroupReady.thy ===== *)
theory GroupReady imports Progress begin

text \<open>
  The condition variable \<open>group_ready\<close> of group commit (\<open>src/src/queue.rs\<close>, lines 99--102 and 124). In
  \<open>Machine\<close> a follower takes its outcome when there is one; here it sleeps on \<open>group_ready\<close> and has to
  be woken. A state is a state of \<open>Machine\<close> with the set of the numbers whose followers are asleep. The
  leader records a batch and calls \<open>notify_all\<close> in one critical section, which wakes them all; a
  follower looks again before it sleeps; spurious wakeups are allowed.
\<close>

definition leaves :: "'s Sys \<Rightarrow> 's Sys \<Rightarrow> pc \<Rightarrow> bool" where
  "leaves s t p \<longleftrightarrow> count (flight t) p < count (flight s) p"

definition records :: "'s Sys \<Rightarrow> 's Sys \<Rightarrow> bool" where
  "records s t \<longleftrightarrow> (\<exists>q v b ok. leaves s t (GRecord q v b ok))"

inductive gstep :: "('s, 'e) Store \<Rightarrow> 's Sys \<times> u64 set \<Rightarrow> 's Sys \<times> u64 set \<Rightarrow> bool" for S where
  leader_records: "step S s t \<Longrightarrow> records s t \<Longrightarrow> gstep S (s, W) (t, {})"
| follower_collects: "step S s t \<Longrightarrow> leaves s t (GWait q v) \<Longrightarrow> q \<notin> W \<Longrightarrow> gstep S (s, W) (t, W)"
| follower_sleeps: "GWait q v \<in># flight s \<Longrightarrow> done_map (group_state (shared s)) q = None \<Longrightarrow>
    gstep S (s, W) (s, insert q W)"
| follower_spurious: "gstep S (s, W) (s, W - {q})"
| others_step: "step S s t \<Longrightarrow> \<not> records s t \<Longrightarrow> \<forall>q v. \<not> leaves s t (GWait q v) \<Longrightarrow> gstep S (s, W) (t, W)"

inductive greach :: "('s, 'e) Store \<Rightarrow> 's Sys \<times> u64 set \<Rightarrow> 's Sys \<times> u64 set \<Rightarrow> bool" for S x where
  greach_start: "greach S x x"
| greach_step: "greach S x y \<Longrightarrow> gstep S y z \<Longrightarrow> greach S x z"

section \<open>Outcomes appear only with a notification\<close>

lemma done_step:
  assumes "step S s t" and "done_map (group_state (shared s)) q = None"
  shows "done_map (group_state (shared t)) q = None \<or> records s t \<and> (\<forall>q v. \<not> leaves s t (GWait q v))"
  using assms(1)
proof cases
  case (group_more q' v b ok F b' g)
  then have "leaves s t (GRecord q' v b ok)" by (simp add: leaves_def)
  then have "records s t" unfolding records_def by blast
  with group_more show ?thesis by (simp add: leaves_def)
next
  case (group_end_ok q' v b ok F g)
  then have "leaves s t (GRecord q' v b ok)" by (simp add: leaves_def)
  then have "records s t" unfolding records_def by blast
  with group_end_ok show ?thesis by (simp add: leaves_def)
next
  case (group_end_retry q' v b ok F o' g)
  then have "leaves s t (GRecord q' v b ok)" by (simp add: leaves_def)
  then have "records s t" unfolding records_def by blast
  with group_end_retry show ?thesis by (simp add: leaves_def)
qed (use assms(2) in \<open>auto simp: group_take_eq group_enqueue_def group_outcome_eq close_def dest!: commit_to_sel(2)\<close>)

definition sleepers_ok :: "'s Sys \<times> u64 set \<Rightarrow> bool" where
  "sleepers_ok x \<longleftrightarrow> (\<forall>q \<in> snd x. done_map (group_state (shared (fst x))) q = None)"

lemma sleepers_step: "gstep S x y \<Longrightarrow> sleepers_ok x \<Longrightarrow> sleepers_ok y"
  by (induction rule: gstep.induct) (use done_step in \<open>force simp: sleepers_ok_def\<close>)+

lemma greach_reach:
  "greach S (s0, {}) x \<Longrightarrow> reach S (\<lambda>_. True) s0 (fst x) \<and> sleepers_ok x"
proof (induction rule: greach.induct)
  case greach_start
  show ?case by (simp add: sleepers_ok_def reach_start)
next
  case (greach_step y z)
  have "step S (fst y) (fst z) \<or> fst z = fst y" using greach_step(2) by cases auto
  with greach_step sleepers_step show ?case by (metis (mono_tags, lifting) reach.reach_step)
qed

lemma reach_greach: "reach S C s0 s \<Longrightarrow> greach S (s0, {}) (s, {})"
proof (induction rule: reach.induct)
  case (reach_step s t)
  have "gstep S (s, {}) (t, {})"
  proof (cases "records s t")
    case True
    with reach_step(2) show ?thesis by (rule leader_records)
  next
    case False
    with reach_step(2) show ?thesis by (auto intro: follower_collects others_step)
  qed
  with reach_step(4) show ?case by (rule greach_step)
qed (rule greach_start)

section \<open>Property\<close>

text \<open>C5. No follower of a group commit sleeps through its outcome or is left behind. Every run with the
  condition variable is a run of \<open>Machine\<close>. In it a follower whose outcome is recorded is awake and can
  take it; any other has its number in the pending list, which the one leader takes before it stops, or
  in the batch that leader commits, and the leader can take its next step.\<close>

theorem follower_wakes:
  assumes "store_contract S sinv view" and "sinv (store sh)" and "wf_queue (view (store sh)) sh"
    and "greach S (boot (items_of (view (store sh))) sh, {}) (s, W)"
    and "GWait q v \<in># flight s" and "\<not> poisoned s"
  shows "reach S (\<lambda>_. True) (boot (items_of (view (store sh))) sh) s \<and>
    ((\<exists>t. gstep S (s, W) (t, W) \<and> leaves s t (GWait q v) \<and> q \<notin> W) \<or>
     (\<exists>l. filter_mset leader (flight s) = {#l#} \<and> advances S s l \<and>
       (q \<in> fst ` set (pending (group_state (shared s))) \<or> q \<in># held l)))"
proof -
  from greach_reach [OF assms(4)] have r: "reach S (\<lambda>_. True) (boot (items_of (view (store sh))) sh) s"
    and W: "sleepers_ok (s, W)" by simp_all
  show ?thesis
  proof (cases "done_map (group_state (shared s)) q")
    case None
    from group_waits [OF store_contract.reach_batch [OF assms(1) r assms(2,3)] assms(5)] None
    obtain l where l: "filter_mset leader (flight s) = {#l#}"
      "q \<in> fst ` set (pending (group_state (shared s))) \<or> q \<in># held l" by blast
    then have "l \<in># filter_mset leader (flight s)" by simp
    then have "l \<in># flight s" "\<not> waits l" by (auto elim: leader.elims)
    with advances [OF assms(6)] have "advances S s l" by (metis mset_add)
    with r l show ?thesis by blast
  next
    case (Some ok)
    obtain F where F: "flight s = add_mset (GWait q v) F" using assms(5) by (metis mset_add)
    obtain g where o: "group_outcome (group_state (shared s)) q = (Some ok, g)"
      using Some by (simp add: group_outcome_eq)
    have "\<exists>t. step S s t \<and> leaves s t (GWait q v)"
    proof (cases ok)
      case True
      with o group_done_ok [OF F, of g S] F show ?thesis by (force simp: leaves_def)
    next
      case False
      with o group_done_retry [OF F, of g S] F show ?thesis by (force simp: leaves_def)
    qed
    moreover have "q \<notin> W" using W Some by (auto simp: sleepers_ok_def)
    ultimately show ?thesis using r by (blast intro: follower_collects)
  qed
qed

theorem follower_wakes_witness:
  "\<exists>s. greach (MemStore :: (mem_store, unit) Store)
     (boot (items_of (map_of (store demo_group))) demo_group, {}) (s, {2}) \<and> GWait 2 [9] \<in># flight s \<and>
     (\<exists>l. l \<in># flight s \<and> leader l)"
proof -
  let ?S = "MemStore :: (mem_store, unit) Store" and ?b = "boot (items_of (map_of (store demo_group))) demo_group"
  from demo_follow obtain s where s: "reach ?S (\<lambda>_. True) ?b s" "GWait 2 [9] \<in># flight s" "\<not> poisoned s"
    "done_map (group_state (shared s)) 2 = None" by blast
  have g: "greach ?S (?b, {}) (s, {2})"
    by (rule greach_step [OF reach_greach [OF s(1)] follower_sleeps [OF s(2,4)]])
  from follower_wakes [OF mem.store_contract_axioms demo_group_ok(1,2) g s(2,3)]
  obtain l where "filter_mset leader (flight s) = {#l#}" by blast
  then have "l \<in># filter_mset leader (flight s)" by simp
  with g s(2) show ?thesis by auto
qed

end
