(* ===== verification/Order.thy ===== *)
theory Order imports Settled Traces begin

text \<open>
  In which order items are handed out when producers and the consumer run at once. A \<open>reserve\<close> hands
  out the oldest of what was stored and free when it began: every smaller number that was in the
  store then is in a live guard. What is stored only while it runs it may pass over, even when that
  item's push returned before the push of the item it hands out began.
\<close>

section \<open>A reserve in progress\<close>

fun scans :: "pc \<Rightarrow> bool" where
  "scans (RSeek c) = True"
| "scans (RCheck q v) = True"
| "scans _ = False"

text \<open>The numbers the lookup has passed.\<close>

fun passed :: "pc \<Rightarrow> u64 set" where
  "passed (RSeek c) = {q. entry_key q < c}"
| "passed (RCheck q v) = {..<q}"
| "passed _ = {}"

definition scanning :: "'s Sys \<Rightarrow> bool" where
  "scanning s \<longleftrightarrow> single_consumer s \<and> (\<exists>p \<in># flight s. scans p)"

definition scan_ok :: "('s \<Rightarrow> key \<rightharpoonup> val) \<Rightarrow> u64 set \<Rightarrow> 's Sys \<Rightarrow> bool" where
  "scan_ok view A s \<longleftrightarrow> A \<subseteq> stored view s \<and> (\<forall>p \<in># flight s. passed p \<inter> A \<subseteq> reserved (inner (shared s)))"

lemma scans_consumer: "scans p \<Longrightarrow> consumer_side p"
  by (cases p) auto

lemma passed_wake [simp]: "passed (wake p) = passed p"
  by (cases p) auto

text \<open>While a \<open>reserve\<close> runs, no other thread of the consumer does.\<close>

lemma scanning_alone:
  assumes "scanning s" and "flight s = add_mset p F" and "consumer_side p"
  shows "scans p" "\<forall>p' \<in># F. \<not> consumer_side p'"
proof -
  have none: "\<not> consumer_side p'" if "p' \<in># F" for p'
    using assms that by (auto simp: scanning_def single_consumer_def)
  then show "\<forall>p' \<in># F. \<not> consumer_side p'" ..
  from assms(1,2) obtain p' where "p' \<in># add_mset p F" "scans p'" by (auto simp: scanning_def)
  with none show "scans p" by (auto dest: scans_consumer)
qed

lemma scanning_none:
  assumes "scanning s" and "single_consumer t" and "flight t = add_mset p (flight s)"
  shows "\<not> consumer_side p"
proof
  assume "consumer_side p"
  with assms have "\<forall>p' \<in># flight s. \<not> consumer_side p'" by (auto simp: single_consumer_def)
  with assms(1) show False by (auto simp: scanning_def dest: scans_consumer)
qed

context atomic_store begin

lemma scan_stored:
  assumes "step S s t" and "sinv (store (shared s))" and "batch_ok s" and "scanning s" and "single_consumer t"
  shows "stored view s \<subseteq> stored view t"
proof -
  have "\<not> (\<exists>q v. flight t = add_mset (AckFin q v) (flight s))"
    using scanning_none [OF assms(4,5)] by force
  with stored_step [OF assms(1-3)] show ?thesis by blast
qed

lemma scan_step:
  assumes "step S s t" and "sinv (store (shared s))" and "batch_ok s" and "scanning s" and "scanning t"
    and "scan_ok view A s"
  shows "scan_ok view A t"
proof -
  have one: "single_consumer t" using assms(5) by (simp add: scanning_def)
  have A: "A \<subseteq> stored view t" using scan_stored [OF assms(1-4) one] assms(6) unfolding scan_ok_def by blast
  note alone = scanning_alone [OF assms(4)] and none = scanning_none [OF assms(4) one]
  have ok: "passed p \<inter> A \<subseteq> reserved (inner (shared s))" if "p \<in># flight s" for p
    using assms(6) that by (simp add: scan_ok_def)
  have "\<forall>p \<in># flight t. passed p \<inter> A \<subseteq> reserved (inner (shared t))"
    using assms(1)
  proof cases
    case (seek_finds c F k v st q)
    have "least_from (view (store (shared s))) c (Some (k, v))"
      using seek_reads [OF assms(2) seek_finds(3)] .
    moreover have "k = entry_key q" using seek_finds(4,5) by (simp add: is_entry_seq_of)
    ultimately have "q \<le> q'" if "q' \<in> A" "c \<le> entry_key q'" for q'
      using that assms(6) by (force simp: least_from_def scan_ok_def items_of_def dom_def)
    then have "passed (RCheck q v) \<inter> A \<subseteq> passed (RSeek c) \<inter> A" by (force simp: not_le [symmetric])
    with seek_finds ok show ?thesis by fastforce
  next
    case (check_skips q v F n)
    then have "passed (RSeek (entry_key n)) \<subseteq> insert q (passed (RCheck q v))"
      by (auto simp: word_facts)
    with check_skips ok show ?thesis by fastforce
  next
    case (ack_finishes q v F i)
    with alone [of "AckFin q v" F] show ?thesis by simp
  next
    case (releases q F)
    with alone [of "Release q" F] show ?thesis by simp
  next
    case reserve_start
    with none show ?thesis by force
  next
    case (notify_all F)
    with ok show ?thesis by auto
  qed (use ok in \<open>force simp: close_def close_inner_def dest!: commit_to_sel(1)\<close>)+
  with A show ?thesis by (simp add: scan_ok_def)
qed

lemma reach_scan:
  assumes "reach S scanning s1 s" and "reach S single_consumer (boot (items_of (view (store sh))) sh) s1"
    and "sinv (store sh)" and "wf_queue (view (store sh)) sh" and "reserved (inner sh) = {}"
    and "scanning s1" and "scan_ok view A s1"
  shows "scan_ok view A s \<and> scanning s \<and> reach S single_consumer (boot (items_of (view (store sh))) sh) s"
  using assms(1)
proof induction
  case reach_start
  from assms(2,6,7) show ?case by blast
next
  case (reach_step s t)
  then have IH: "scan_ok view A s" "scanning s" "reach S single_consumer (boot (items_of (view (store sh))) sh) s"
    by blast+
  note acct = reach_acct [OF IH(3) assms(3-5)]
  have "scan_ok view A t" by (rule scan_step [OF reach_step(2) acct(1,4) IH(2) reach_step(3) IH(1)])
  moreover have "single_consumer t" using reach_step(3) by (simp add: scanning_def)
  ultimately show ?case using reach.reach_step [OF IH(3) reach_step(2)] reach_step(3) by blast
qed

text \<open>No stored item is behind the head.\<close>

lemma past_step:
  assumes "step S s t"
  shows "past (inner (shared t)) \<subseteq> past (inner (shared s)) \<union> set_mset (across acking (flight s))"
  using assms
proof cases
  case (ack_finishes q v F i)
  with ack_finish_past(1) [OF ack_finishes(4)] show ?thesis by auto
qed (auto simp: past_def close_def close_inner_def release_inner_def dest!: commit_to_sel(1))

lemma ahead_step:
  assumes "step S s t" and "sinv (store (shared s))" and "cursors_ok s" and "pairs_ok view s" and "batch_ok s"
    and "acct_sets view s" and "past (inner (shared s)) \<inter> stored view s = {}"
  shows "past (inner (shared t)) \<inter> stored view t = {}"
proof -
  have c: "past (inner (shared s)) \<inter> dom (assigned s) \<subseteq> ack_tried s"
    using assms(3) by (simp add: cursors_ok_def Let_def)
  have a: "set_mset (across acking (flight s)) \<subseteq> ack_tried s"
  proof
    fix q assume "q \<in> set_mset (across acking (flight s))"
    then obtain p where p: "p \<in># flight s" "q \<in># acking p" by (simp only: in_across) blast
    then show "q \<in> ack_tried s" using assms(3) by (cases p) (auto simp: cursors_ok_def Let_def)
  qed
  have "stored view t \<subseteq> stored view s \<union> set_mset (fresh s)"
    using stored_step [OF assms(1,2,5)] by blast
  moreover have "set_mset (fresh s) \<inter> ack_tried s = {}" "set_mset (across acking (flight s)) \<inter> stored view s = {}"
    using assms(6) by (auto simp: acct_sets_def)
  moreover note past_step [OF assms(1)] stored_bounds(2) [OF assms(4,5,3)] c a assms(7)
  ultimately show ?thesis by blast
qed

lemma reach_ahead:
  assumes "reach S single_consumer (boot (items_of (view (store sh))) sh) s"
    and "sinv (store sh)" and "wf_queue (view (store sh)) sh" and "reserved (inner sh) = {}"
  shows "stored view s \<subseteq> {head (inner (shared s))..}"
proof -
  have "past (inner (shared s)) \<inter> stored view s = {}"
    using assms(1)
  proof induction
    case reach_start
    from boot_cursors [OF assms(3)] show ?case by (auto simp: cursors_ok_def Let_def)
  next
    case (reach_step s t)
    from ahead_step [OF reach_step(2) reach_acct(1-4,6) [OF reach_step(1) assms(2-4)] reach_step(4)]
    show ?case .
  qed
  then show ?thesis by (force simp: past_def not_less)
qed

text \<open>With one consumer in a lookup, a reserved number is in a live guard.\<close>

lemma scanning_reserved:
  assumes "reserved_ok s" and "scanning s" and "\<not> poisoned s" and "q \<in> reserved (inner (shared s))"
  shows "\<exists>v. (q, v) \<in># guards s"
proof -
  have "q \<in># owners s" using assms by (auto simp: reserved_ok_def)
  moreover have "q \<notin># across owner (flight s)"
  proof
    assume "q \<in># across owner (flight s)"
    then obtain p where p: "p \<in># flight s" "q \<in># owner p" by (simp only: in_across) blast
    then have "consumer_side p" "\<not> scans p" by (cases p; simp)+
    moreover obtain F where "flight s = add_mset p F" using p(1) by (metis mset_add)
    ultimately show False using scanning_alone(1) [OF assms(2)] by blast
  qed
  ultimately show ?thesis by (auto simp: owners_def)
qed

end

section \<open>A late write\<close>

text \<open>States of a run that pushes three equal items.\<close>

definition late_inner :: "u64 \<Rightarrow> nat \<Rightarrow> u64 set \<Rightarrow> Inner" where
  "late_inner q n R = \<lparr>tail = q, head = 0, acked_above = {}, len = n, bytes = n, reserved = R, closed = False\<rparr>"

definition late_store :: "u64 list \<Rightarrow> mem_store" where
  "late_store qs = (META_KEY, [FORMAT_VERSION]) # map (\<lambda>q. (entry_key q, [7])) qs"

definition late :: "mem_store Shared \<Rightarrow> pc multiset \<Rightarrow> (u64 \<times> val) multiset \<Rightarrow> (u64 \<rightharpoonup> val) \<Rightarrow> (u64 \<rightharpoonup> val) \<Rightarrow>
    u64 list \<Rightarrow> mem_store Sys" where
  "late sh F G m A d = \<lparr>shared = sh, flight = F, guards = G, poisoned = False, assigned = m, accepted = A,
     ack_tried = {}, delivered = d\<rparr>"

abbreviation late_sh :: "u64 list \<Rightarrow> u64 \<Rightarrow> nat \<Rightarrow> u64 set \<Rightarrow> mem_store Shared" where
  "late_sh qs q n R \<equiv> race_shared (late_store qs) (late_inner q n R)"

lemma late_sel [simp]:
  "shared (late sh F G m A d) = sh" "flight (late sh F G m A d) = F" "guards (late sh F G m A d) = G"
  "\<not> poisoned (late sh F G m A d)" "accepted (late sh F G m A d) = A" "assigned (late sh F G m A d) = m"
  "delivered (late sh F G m A d) = d"
  by (simp_all add: late_def)

lemma late_claim:
  assumes "n < 3" and "q \<noteq> - 1" and "t = q + 1" and "k = Suc n"
  shows "step MemS (late (late_sh qs q n R) F G m A d)
    (late (late_sh qs t k R) (add_mset (Claimed q [7]) F) G (m(q \<mapsto> [7])) A d)"
proof -
  let ?s = "late (late_sh qs q n R) F G m A d"
  have e: "enter (shared ?s) (length [7 :: byte]) = Admitted q (late_inner t k R)"
    using assms by (simp add: late_inner_def race_shared_def admits_def saturating_add_def)
  from push_claim [OF _ e, of MemS] show ?thesis by (simp add: late_def)
qed

lemma late_put:
  assumes "bt_insert (entry_key q) [7] (late_store qs) = late_store qs'"
  shows "step MemS (late (late_sh qs t n R) (add_mset (Claimed q [7]) F) G m A d)
    (late (late_sh qs' t n R) F G m (A(q \<mapsto> [7])) d)"
proof -
  let ?s = "late (late_sh qs t n R) (add_mset (Claimed q [7]) F) G m A d"
  have c: "commit_to MemS (shared ?s) [Put (entry_key q) [7]] (durable (shared ?s)) = (Inr (), late_sh qs' t n R)"
    by (simp add: commit_to_def mem_commit_def assms)
  from put_ok [OF _ _ c] show ?thesis by (simp add: late_def race_shared_def)
qed

lemma late_start:
  "step MemS (late (late_sh qs t n R) F G m A d) (late (late_sh qs t n R) (add_mset (RSeek (entry_key 0)) F) G m A d)"
  using reserve_start [of "late (late_sh qs t n R) F G m A d" MemS] by (simp add: late_def late_inner_def)

lemma late_seek:
  assumes "bt_next c (late_store qs) = Some (entry_key q, [7])"
  shows "step MemS (late (late_sh qs t n R) (add_mset (RSeek c) F) G m A d)
    (late (late_sh qs t n R) (add_mset (RCheck q [7]) F) G m A d)"
  using seek_finds [of "late (late_sh qs t n R) (add_mset (RSeek c) F) G m A d" c F MemS "entry_key q" "[7]" "late_store qs" q]
  by (simp add: mem_seek_def assms late_def)

lemma late_take:
  assumes "q \<notin> R" and "R' = insert q R" and "d' = d @ [q]"
  shows "step MemS (late (late_sh qs t n R) (add_mset (RCheck q [7]) F) G m A d)
    (late (late_sh qs t n R') F (add_mset (q, [7]) G) m A d')"
  using check_takes [of "late (late_sh qs t n R) (add_mset (RCheck q [7]) F) G m A d" q "[7]" F
    "late_inner t n R'" MemS] assms
  by (simp add: late_def late_inner_def)

lemma late_skip:
  assumes "q \<in> R" and "q \<noteq> - 1"
  shows "step MemS (late (late_sh qs t n R) (add_mset (RCheck q [7]) F) G m A d)
    (late (late_sh qs t n R) (add_mset (RSeek (entry_key (q + 1))) F) G m A d)"
  using check_skips [of "late (late_sh qs t n R) (add_mset (RCheck q [7]) F) G m A d" q "[7]" F "q + 1" MemS] assms
  by (simp add: late_def late_inner_def)

text \<open>Producers claim 0 and 1; 1 is written and reserved. The next \<open>reserve\<close> finds 1 again; then 0 is
  written, and its push returns.\<close>

lemma late_start_boot:
  "boot (items_of (map_of (store (late_sh [] 0 0 {})))) (late_sh [] 0 0 {}) =
    late (late_sh [] 0 0 {}) {#} {#} Map.empty Map.empty []"
  by (simp add: boot_def late_def late_store_def meta_order)

lemma late_first:
  "reach MemS single_consumer (late (late_sh [] 0 0 {}) {#} {#} Map.empty Map.empty [])
    (late (late_sh [1] 2 2 {1}) {#Claimed 0 [7]#} {#(1, [7])#} [0 \<mapsto> [7], 1 \<mapsto> [7]] [1 \<mapsto> [7]] [1])"
proof -
  let ?R = "reach MemS single_consumer (late (late_sh [] 0 0 {}) {#} {#} Map.empty Map.empty [])"
  let ?C = "Claimed 0 [7]" and ?m = "[0 \<mapsto> [7], 1 \<mapsto> [7]]"
  have r: "?R a \<Longrightarrow> step MemS a b \<Longrightarrow> single_consumer b \<Longrightarrow> ?R b" for a b
    by (rule reach_step)
  have "?R (late (late_sh [] 1 1 {}) {#?C#} {#} [0 \<mapsto> [7]] Map.empty [])"
    by (rule r [OF reach_start late_claim]) (simp_all add: single_consumer_def)
  then have "?R (late (late_sh [] 2 2 {}) {#Claimed 1 [7], ?C#} {#} ?m Map.empty [])"
    by (rule r [OF _ late_claim]) (simp_all add: single_consumer_def)
  then have "?R (late (late_sh [1] 2 2 {}) {#?C#} {#} ?m [1 \<mapsto> [7]] [])"
    by (rule r [OF _ late_put]) (simp_all add: single_consumer_def late_store_def meta_order)
  then have "?R (late (late_sh [1] 2 2 {}) {#RSeek (entry_key 0), ?C#} {#} ?m [1 \<mapsto> [7]] [])"
    by (rule r [OF _ late_start]) (simp add: single_consumer_def)
  then have "?R (late (late_sh [1] 2 2 {}) {#RCheck 1 [7], ?C#} {#} ?m [1 \<mapsto> [7]] [])"
    by (rule r [OF _ late_seek]) (simp_all add: single_consumer_def late_store_def not_le meta_order)
  then show ?thesis
    by (rule r [OF _ late_take]) (simp_all add: single_consumer_def)
qed

lemma late_second:
  "reach MemS scanning
    (late (late_sh [1] 2 2 {1}) {#RSeek (entry_key 0), Claimed 0 [7]#} {#(1, [7])#} [0 \<mapsto> [7], 1 \<mapsto> [7]] [1 \<mapsto> [7]] [1])
    (late (late_sh [0, 1] 2 2 {1}) {#RCheck 1 [7]#} {#(1, [7])#} [0 \<mapsto> [7], 1 \<mapsto> [7]] [1 \<mapsto> [7], 0 \<mapsto> [7]] [1])"
  (is "reach _ _ ?a _")
proof -
  let ?m = "[0 \<mapsto> [7], 1 \<mapsto> [7]]" and ?G = "{#(1, [7])#}"
  have r: "reach MemS scanning ?a x \<Longrightarrow> step MemS x y \<Longrightarrow> scanning y \<Longrightarrow> reach MemS scanning ?a y" for x y
    by (rule reach_step)
  have "reach MemS scanning ?a (late (late_sh [1] 2 2 {1}) {#RCheck 1 [7], Claimed 0 [7]#} ?G ?m [1 \<mapsto> [7]] [1])"
    by (rule r [OF reach_start late_seek]) (simp_all add: scanning_def single_consumer_def late_store_def not_le meta_order)
  then have "reach MemS scanning ?a (late (late_sh [1] 2 2 {1}) {#Claimed 0 [7], RCheck 1 [7]#} ?G ?m [1 \<mapsto> [7]] [1])"
    by (simp only: add_mset_commute)
  then show ?thesis
    by (rule r [OF _ late_put]) (simp_all add: scanning_def single_consumer_def late_store_def meta_order)
qed

text \<open>Then 2 is claimed and written, and the \<open>reserve\<close> goes on above 1.\<close>

lemma late_third:
  "reach MemS scanning
    (late (late_sh [0, 1] 2 2 {1}) {#RCheck 1 [7]#} {#(1, [7])#} [0 \<mapsto> [7], 1 \<mapsto> [7]] A [1])
    (late (late_sh [0, 1, 2] 3 3 {1}) {#RCheck 2 [7]#} {#(1, [7])#} [0 \<mapsto> [7], 1 \<mapsto> [7], 2 \<mapsto> [7]] (A(2 \<mapsto> [7])) [1])"
  (is "reach _ _ ?a _")
proof -
  let ?m = "[0 \<mapsto> [7], 1 \<mapsto> [7], 2 \<mapsto> [7]]" and ?G = "{#(1, [7])#}"
  have r: "reach MemS scanning ?a x \<Longrightarrow> step MemS x y \<Longrightarrow> scanning y \<Longrightarrow> reach MemS scanning ?a y" for x y
    by (rule reach_step)
  have "reach MemS scanning ?a (late (late_sh [0, 1] 3 3 {1}) {#Claimed 2 [7], RCheck 1 [7]#} ?G ?m A [1])"
    by (rule r [OF reach_start late_claim]) (simp_all add: scanning_def single_consumer_def)
  then have "reach MemS scanning ?a (late (late_sh [0, 1, 2] 3 3 {1}) {#RCheck 1 [7]#} ?G ?m (A(2 \<mapsto> [7])) [1])"
    by (rule r [OF _ late_put]) (simp_all add: scanning_def single_consumer_def late_store_def meta_order)
  then have "reach MemS scanning ?a (late (late_sh [0, 1, 2] 3 3 {1}) {#RSeek (entry_key 2)#} ?G ?m (A(2 \<mapsto> [7])) [1])"
    by (rule r) (use late_skip [of 1 "{1}" "[0, 1, 2]" 3 3 "{#}"] in \<open>simp_all add: scanning_def single_consumer_def\<close>)
  then show ?thesis
    by (rule r [OF _ late_seek]) (simp_all add: scanning_def single_consumer_def late_store_def not_le meta_order)
qed

lemma late_wf:
  "bt_ordered (store (late_sh [] 0 0 {}))" "wf_queue (map_of (store (late_sh [] 0 0 {}))) (late_sh [] 0 0 {})"
  "reserved (inner (late_sh [] 0 0 {})) = {}"
  by (simp_all add: late_store_def race_shared_def late_inner_def wf_queue_def Let_def weight_def)

section \<open>Properties\<close>

text \<open>C19. Oldest first. Over a store whose failed commits change nothing, with one consumer thread and
  any number of producers: when a \<open>reserve\<close> that began in state \<open>s0\<close> hands out number \<open>q\<close>, the item is
  in the store, and every smaller number that was in the store when the \<open>reserve\<close> began is in a live
  guard. So nothing older was passed over, but for what was stored meanwhile.\<close>

theorem reserve_takes_oldest:
  assumes "atomic_store S sinv view" and "sinv (store sh)" and "wf_queue (view (store sh)) sh"
    and "reserved (inner sh) = {}"
    and "reach S single_consumer (boot (items_of (view (store sh))) sh) s0" and "\<not> poisoned s0"
    and "s1 = s0\<lparr>flight := add_mset (RSeek (entry_key (head (inner (shared s0))))) (flight s0)\<rparr>"
    and "scanning s1" and "reach S scanning s1 s" and "step S s t" and "delivered t = delivered s @ [q]"
  shows "items_of (view (store (shared s))) q \<noteq> None \<and>
    (\<forall>q' \<in> dom (items_of (view (store (shared s0)))). q' < q \<longrightarrow> (\<exists>v. (q', v) \<in># guards s))"
proof -
  note S = atomic_store.reach_scan [OF assms(1)] and J = atomic_store.reach_acct [OF assms(1)]
  let ?A = "dom (items_of (view (store (shared s0))))"
  have "single_consumer s1" using assms(8) by (simp add: scanning_def)
  then have r1: "reach S single_consumer (boot (items_of (view (store sh))) sh) s1"
    using reach_step [OF assms(5) reserve_start [OF assms(6)]] by (simp add: assms(7))
  have "scan_ok view ?A s1"
  proof -
    have alone: "\<not> scans p" if "p \<in># flight s0" for p
      using scanning_alone(2) [OF assms(8), of "RSeek (entry_key (head (inner (shared s0))))" "flight s0"] that
      by (auto simp: assms(7) dest: scans_consumer)
    have "passed p = {}" if "p \<in># flight s0" for p using alone [OF that] by (cases p) auto
    moreover have "?A \<subseteq> {head (inner (shared s0))..}"
      by (rule atomic_store.reach_ahead [OF assms(1,5,2,3,4)])
    ultimately show ?thesis by (force simp: scan_ok_def assms(7))
  qed
  from S [OF assms(9) r1 assms(2-4,8) this]
  have s: "scan_ok view ?A s" "scanning s" "reach S single_consumer (boot (items_of (view (store sh))) sh) s"
    by blast+
  have take: "\<exists>v. RCheck q v \<in># flight s" "\<not> poisoned s" using assms(10,11) by (cases; auto)+
  have "reserved_ok (boot (items_of (view (store sh))) sh)" using assms(4) by (simp add: reserved_ok_def)
  with s(3) have "reserved_ok s" by (rule reach_inv) (rule reserved_step)
  note guard = atomic_store.scanning_reserved [OF assms(1) this s(2) take(2)]
  from take(1) obtain v where v: "RCheck q v \<in># flight s" by blast
  then have "q \<in># across looking (flight s)" unfolding in_across by force
  moreover have "set_mset (across looking (flight s)) \<subseteq> stored view s"
    using J(6) [OF s(3) assms(2-4)] by (simp add: acct_sets_def)
  ultimately have "q \<in> stored view s" by blast
  moreover have "q' \<in> reserved (inner (shared s))" if "q' \<in> ?A" "q' < q" for q'
    using s(1) v that by (force simp: scan_ok_def)
  ultimately show ?thesis using guard by blast
qed

theorem reserve_takes_oldest_witness:
  "\<exists>s. RCheck 2 [7] \<in># flight s \<and> items_of (map_of (store (shared s))) 2 \<noteq> None \<and> (\<exists>v. (1, v) \<in># guards (s :: mem_store Sys))"
proof -
  let ?s = "late (late_sh [0, 1, 2] 3 3 {1}) {#RCheck 2 [7]#} {#(1, [7])#} [0 \<mapsto> [7], 1 \<mapsto> [7], 2 \<mapsto> [7]]
    [1 \<mapsto> [7], 0 \<mapsto> [7], 2 \<mapsto> [7]] [1]"
  note run = reserve_takes_oldest [OF mem.atomic_store_axioms late_wf late_first [folded late_start_boot] _ _ _
      reach_trans [OF late_third late_second] late_take [of 2 "{1}" "{2, 1}" "[1, 2]" "[1]"], of 2]
  have "items_of (map_of (store (shared ?s))) 2 \<noteq> None \<and> (\<exists>v. (1, v) \<in># guards ?s)"
    using run by (simp add: late_def scanning_def single_consumer_def late_inner_def late_store_def)
  then show ?thesis by (intro exI [of _ ?s]) simp
qed

text \<open>C22. The limit of the order. Over the in-memory store, with one consumer thread: item 0 was stored
  and its push had returned \<open>Ok\<close> before item 2 was claimed (\<open>s1\<close>), both are free, and yet the \<open>reserve\<close>
  that was under way hands out item 2 and leaves item 0 for later: its lookup had already passed 0,
  which was claimed before 1 but written after it.\<close>

theorem late_write_overtaken:
  "\<exists>s1 s2. reach MemS single_consumer (boot (items_of (map_of (store (late_sh [] 0 0 {})))) (late_sh [] 0 0 {})) s1 \<and>
    accepted s1 0 = Some [7] \<and> assigned s1 2 = None \<and> reach MemS single_consumer s1 s2 \<and>
    delivered s2 = [1, 2] \<and> items_of (map_of (store (shared s2))) 0 = Some [7] \<and> 0 \<notin> reserved (inner (shared s2))"
proof -
  let ?b = "boot (items_of (map_of (store (late_sh [] 0 0 {})))) (late_sh [] 0 0 {})"
  let ?s1 = "late (late_sh [0, 1] 2 2 {1}) {#RCheck 1 [7]#} {#(1, [7])#} [0 \<mapsto> [7], 1 \<mapsto> [7]] [1 \<mapsto> [7], 0 \<mapsto> [7]] [1]"
  let ?s2 = "late (late_sh [0, 1, 2] 3 3 {2, 1}) {#} {#(2, [7]), (1, [7])#} [0 \<mapsto> [7], 1 \<mapsto> [7], 2 \<mapsto> [7]]
    [1 \<mapsto> [7], 0 \<mapsto> [7], 2 \<mapsto> [7]] [1, 2]"
  have one: "scanning s \<Longrightarrow> single_consumer s" for s :: "mem_store Sys" by (simp add: scanning_def)
  have "reach MemS single_consumer ?b (late (late_sh [1] 2 2 {1}) {#RSeek (entry_key 0), Claimed 0 [7]#} {#(1, [7])#}
      [0 \<mapsto> [7], 1 \<mapsto> [7]] [1 \<mapsto> [7]] [1])"
    by (rule reach_step [OF late_first [folded late_start_boot] late_start]) (simp add: single_consumer_def)
  from reach_trans [OF reach_less [OF late_second one] this] have "reach MemS single_consumer ?b ?s1" .
  moreover have "reach MemS single_consumer ?s1 ?s2"
    by (rule reach_step [OF reach_less [OF late_third one] late_take]) (simp_all add: single_consumer_def)
  ultimately show ?thesis
    by (intro exI [of _ ?s1] exI [of _ ?s2] conjI) (simp_all add: late_store_def late_inner_def)
qed

end
