(* ===== verification/UnitTests.thy ===== *)
theory UnitTests imports Reopen "HOL-Library.Monad_Syntax" begin

text \<open>
  The unit tests of \<open>src/src/queue.rs\<close> and \<open>src/src/error.rs\<close> and the backends' common test \<open>contract\<close> of
  \<open>src/src/store.rs\<close>, as executable definitions over the model. A test is a value of \<open>unit option\<close>:
  \<open>None\<close> is a failed assertion or an \<open>unwrap\<close> of an error, and also a call that would wait. The
  unit tests are evaluated; \<open>contract\<close> is passed by every backend that keeps the
  \<open>store_contract\<close> and reports no error, not only by the in-memory one.
\<close>

section \<open>Assertions\<close>

definition bs :: "string \<Rightarrow> val" where
  "bs s = map of_char s"

definition assert_that :: "bool \<Rightarrow> unit option" where
  "assert_that p = (if p then Some () else None)"

definition unwrap :: "(('e, 'a) outcome \<times> 's) option \<Rightarrow> ('a \<times> 's) option" where
  "unwrap r = (case r of Some (Ok a, s) \<Rightarrow> Some (a, s) | _ \<Rightarrow> None)"

definition unwrap_some :: "(('e, 'a option) outcome \<times> 's) option \<Rightarrow> ('a \<times> 's) option" where
  "unwrap_some r = (case r of Some (Ok (Some a), s) \<Rightarrow> Some (a, s) | _ \<Rightarrow> None)"

definition unwrap_none :: "(('e, 'a option) outcome \<times> 's) option \<Rightarrow> 's option" where
  "unwrap_none r = (case r of Some (Ok None, s) \<Rightarrow> Some s | _ \<Rightarrow> None)"

definition fails_with :: "'e \<Rightarrow> (('e, 'a) outcome \<times> 's) option \<Rightarrow> 's option" where
  "fails_with e r = (case r of Some (Err e', s) \<Rightarrow> (if e' = e then Some s else None) | _ \<Rightarrow> None)"

text \<open>A store operation reports an error or a value.\<close>

definition returned :: "('e + 'a) \<times> 's \<Rightarrow> ('a \<times> 's) option" where
  "returned r = (case r of (Inr a, s) \<Rightarrow> Some (a, s) | (Inl _, _) \<Rightarrow> None)"

abbreviation MemU :: "(mem_store, unit) Store" where
  "MemU \<equiv> MemStore"

definition committed :: "('s, 'e) Store \<Rightarrow> Op list \<Rightarrow> 's \<Rightarrow> 's option" where
  "committed S ops st = map_option snd (returned (commit S st ops False))"

text \<open>\<open>open\<close>, the guard's \<open>ack\<close> and the two pushes, each followed by \<open>unwrap\<close>.\<close>

definition opened :: "('s, 'e) Store \<Rightarrow> 's Builder \<Rightarrow> 's Shared option" where
  "opened S x = map_option fst (unwrap (open_queue S x))"

definition acked :: "('s, 'e) Store \<Rightarrow> Reserved \<Rightarrow> 's Shared \<Rightarrow> 's Shared option" where
  "acked S r q = map_option snd (unwrap (Some (ack S q r)))"

definition pushed :: "('s, 'e) Store \<Rightarrow> val \<Rightarrow> 's Shared \<Rightarrow> 's Shared option" where
  "pushed S v q = map_option snd (unwrap (push S q v))"

definition try_pushed :: "('s, 'e) Store \<Rightarrow> val \<Rightarrow> 's Shared \<Rightarrow> 's Shared option" where
  "try_pushed S v q = map_option snd (unwrap (try_push S q v))"

fun each :: "('a \<Rightarrow> 's \<Rightarrow> 's option) \<Rightarrow> 'a list \<Rightarrow> 's \<Rightarrow> 's option" where
  "each f [] s = Some s"
| "each f (x # xs) s = f x s \<bind> each f xs"

section \<open>The tests of the keys\<close>

definition key_roundtrip :: "unit option" where
  "key_roundtrip = each (\<lambda>seq _. assert_that (is_entry (entry_key seq) \<and> seq_of (entry_key seq) = Some seq))
     [0, 1, 255, 256, 4294967295, - 1] ()"

definition keys_sort_by_seq_after_meta :: "unit option" where
  "keys_sort_by_seq_after_meta = assert_that (META_KEY < ENTRY_LOW \<and> ENTRY_LOW < entry_key 0 \<and>
     entry_key 1 < entry_key 2 \<and> entry_key 255 < entry_key 256 \<and> entry_key (- 1) \<le> ENTRY_HIGH)"

partial_function (option) collect_from :: "mem_store \<Rightarrow> key \<Rightarrow> u64 list \<Rightarrow> u64 list option" where
  "collect_from m cursor seqs =
     (case returned (seek MemU m cursor) of
        None \<Rightarrow> None
      | Some (None, m) \<Rightarrow> Some seqs
      | Some (Some (key, _), m) \<Rightarrow>
          if \<not> is_entry key then Some seqs
          else (case seq_of key of
                  None \<Rightarrow> None
                | Some seq \<Rightarrow>
                    (case checked_inc seq of
                       None \<Rightarrow> None
                     | Some next \<Rightarrow> collect_from m (entry_key next) (seqs @ [seq]))))"

definition collect_seqs :: "mem_store \<Rightarrow> u64 list option" where
  "collect_seqs m = collect_from m ENTRY_LOW []"

definition store_orders_keys_by_numeric_seq :: "unit option" where
  "store_orders_keys_by_numeric_seq = do {
     m \<leftarrow> each (\<lambda>seq. committed MemU [Put (entry_key seq) (bs ''x'')]) [300, 1, 256, 255, 2, 65536, 65535] mem_new;
     seqs \<leftarrow> collect_seqs m;
     assert_that (seqs = [1, 2, 255, 256, 300, 65535, 65536])}"

section \<open>The tests of recovery\<close>

definition open_recovers_tail_len_and_skips_gaps :: "unit option" where
  "open_recovers_tail_len_and_skips_gaps = do {
     m \<leftarrow> committed MemU [Put (entry_key 5) (bs ''five''), Put (entry_key 7) (bs ''seven'')] mem_new;
     c \<leftarrow> builder_capacity 8 (builder_new m);
     q \<leftarrow> opened MemU c;
     assert_that (queue_len q = 2);
     q \<leftarrow> pushed MemU (bs ''eight'') q;
     (r, q) \<leftarrow> unwrap_some (reserve MemU q);
     assert_that (reserved_seq r = 5 \<and> reserved_deref r = bs ''five'');
     q \<leftarrow> acked MemU r q;
     (r, q) \<leftarrow> unwrap_some (reserve MemU q);
     assert_that (reserved_seq r = 7);
     q \<leftarrow> acked MemU r q;
     (r, q) \<leftarrow> unwrap_some (reserve MemU q);
     assert_that (reserved_seq r = 8)}"

definition unsupported_version_is_rejected :: "unit option" where
  "unsupported_version_is_rejected = do {
     m \<leftarrow> committed MemU [Put META_KEY [2]] mem_new;
     _ \<leftarrow> fails_with (UnsupportedVersion 2) (open_queue MemU (builder_new m));
     Some ()}"

definition open_recovers_byte_accounting :: "unit option" where
  "open_recovers_byte_accounting = do {
     m \<leftarrow> committed MemU [Put (entry_key 0) (bs ''hello''), Put (entry_key 1) (bs ''world!!'')] mem_new;
     c \<leftarrow> builder_capacity 100 (builder_new m);
     c \<leftarrow> builder_max_bytes 12 c;
     q \<leftarrow> opened MemU c;
     assert_that (queue_len q = 2);
     q \<leftarrow> fails_with Try_Full (try_push MemU q (bs ''x''));
     (r, q) \<leftarrow> unwrap_some (reserve MemU q);
     assert_that (reserved_seq r = 0);
     q \<leftarrow> acked MemU r q;
     q \<leftarrow> try_pushed MemU (bs ''x'') q;
     Some ()}"

section \<open>The tests of the handles\<close>

definition mem :: "usize \<Rightarrow> mem_store Shared option" where
  "mem c = builder_capacity c (builder_new mem_new) \<bind> opened MemU"

definition try_push_is_full_at_capacity :: "unit option" where
  "try_push_is_full_at_capacity = do {
     q \<leftarrow> mem 1;
     q \<leftarrow> pushed MemU (bs ''a'') q;
     q \<leftarrow> fails_with Try_Full (try_push MemU q (bs ''b''));
     (r, q) \<leftarrow> unwrap_some (reserve MemU q);
     q \<leftarrow> acked MemU r q;
     q \<leftarrow> try_pushed MemU (bs ''b'') q;
     Some ()}"

definition close_rejects_further_push :: "unit option" where
  "close_rejects_further_push = do {
     q \<leftarrow> mem 4;
     q \<leftarrow> fails_with Push_Closed (push MemU (close q) (bs ''a''));
     q \<leftarrow> fails_with Try_Closed (try_push MemU q (bs ''a''));
     Some ()}"

definition nack_returns_item_for_redelivery :: "unit option" where
  "nack_returns_item_for_redelivery = do {
     q \<leftarrow> mem 4;
     q \<leftarrow> pushed MemU (bs ''a'') q;
     (r, q) \<leftarrow> unwrap_some (reserve MemU q);
     (r, q) \<leftarrow> unwrap_some (reserve MemU (nack q r));
     assert_that (reserved_seq r = 0)}"

definition drop_returns_item_for_redelivery :: "unit option" where
  "drop_returns_item_for_redelivery = do {
     q \<leftarrow> mem 4;
     q \<leftarrow> pushed MemU (bs ''a'') q;
     (r, q) \<leftarrow> unwrap_some (reserve MemU q);
     (r, q) \<leftarrow> unwrap_some (reserve MemU (drop_reserved q r));
     assert_that (reserved_seq r = 0)}"

definition reserve_is_none_when_empty_or_all_reserved :: "unit option" where
  "reserve_is_none_when_empty_or_all_reserved = do {
     q \<leftarrow> mem 4;
     q \<leftarrow> unwrap_none (reserve MemU q);
     q \<leftarrow> pushed MemU (bs ''a'') q;
     (held, q) \<leftarrow> unwrap_some (reserve MemU q);
     q \<leftarrow> unwrap_none (reserve MemU q);
     Some ()}"

definition group_durability_delivers_in_order :: "unit option" where
  "group_durability_delivers_in_order = do {
     c \<leftarrow> builder_capacity 8 (builder_new mem_new);
     q \<leftarrow> opened MemU (builder_durability Group c);
     q \<leftarrow> each (\<lambda>i. pushed MemU [i]) [0, 1, 2, 3] q;
     q \<leftarrow> each (\<lambda>i q. do {
         (item, q) \<leftarrow> unwrap_some (reserve MemU q);
         assert_that (reserved_deref item = [i]);
         acked MemU item q}) [0, 1, 2, 3] q;
     q \<leftarrow> unwrap_none (reserve MemU q);
     Some ()}"

definition max_bytes_bounds_by_total_size :: "unit option" where
  "max_bytes_bounds_by_total_size = do {
     c \<leftarrow> builder_capacity 100 (builder_new mem_new);
     c \<leftarrow> builder_max_bytes 10 c;
     q \<leftarrow> opened MemU c;
     q \<leftarrow> pushed MemU (bs ''aaaaa'') q;
     q \<leftarrow> pushed MemU (bs ''bbbbb'') q;
     q \<leftarrow> fails_with Try_Full (try_push MemU q (bs ''c''));
     (r, q) \<leftarrow> unwrap_some (reserve MemU q);
     q \<leftarrow> acked MemU r q;
     q \<leftarrow> try_pushed MemU (bs ''c'') q;
     Some ()}"

definition oversized_item_is_admitted_into_an_empty_queue :: "unit option" where
  "oversized_item_is_admitted_into_an_empty_queue = do {
     c \<leftarrow> builder_capacity 100 (builder_new mem_new);
     c \<leftarrow> builder_max_bytes 4 c;
     q \<leftarrow> opened MemU c;
     q \<leftarrow> pushed MemU (bs ''way bigger than four'') q;
     q \<leftarrow> fails_with Try_Full (try_push MemU q (bs ''x''));
     (r, q) \<leftarrow> unwrap_some (reserve MemU q);
     q \<leftarrow> acked MemU r q;
     q \<leftarrow> try_pushed MemU (bs ''x'') q;
     Some ()}"

section \<open>The tests of the errors\<close>

text \<open>\<open>io::Error::other("boom")\<close> prints its message.\<close>

definition store_err :: string where
  "store_err = ''boom''"

fun contains :: "string \<Rightarrow> string \<Rightarrow> bool" where
  "contains [] part \<longleftrightarrow> part = []"
| "contains (c # cs) part \<longleftrightarrow> take (length part) (c # cs) = part \<or> contains cs part"

definition open_error_display_and_source :: "unit option" where
  "open_error_display_and_source = do {
     assert_that (contains (open_error_display id (Open_Store store_err)) ''store error'');
     let bad = (UnsupportedVersion 9 :: string OpenError);
     assert_that (contains (open_error_display id bad) ''version: 9'');
     assert_that (open_error_source (Open_Store store_err) \<noteq> None);
     assert_that (open_error_source bad = None)}"

definition push_error_display_and_source :: "unit option" where
  "push_error_display_and_source = do {
     assert_that (contains (push_error_display id Push_Closed) ''closed'');
     assert_that (contains (push_error_display id (Push_Store store_err)) ''store error'');
     assert_that (push_error_source (Push_Store store_err) \<noteq> None);
     assert_that (push_error_source (Push_Closed :: string PushError) = None)}"

definition try_push_error_display_and_source :: "unit option" where
  "try_push_error_display_and_source = do {
     assert_that (contains (try_push_error_display id Try_Full) ''full'');
     assert_that (contains (try_push_error_display id Try_Closed) ''closed'');
     assert_that (contains (try_push_error_display id (Try_Store store_err)) ''store error'');
     assert_that (try_push_error_source (Try_Store store_err) \<noteq> None);
     assert_that (try_push_error_source (Try_Full :: string TryPushError) = None)}"

section \<open>Evaluation\<close>

declare meta_order [simp]

text \<open>A test is evaluated from the front: what follows a call waits for its value.\<close>

lemma bind_front: "m = m' \<Longrightarrow> m \<bind> f = m' \<bind> (f :: 'a \<Rightarrow> 'b option)"
  by simp

lemma upto_one: "(x :: u64) \<le> 1 \<longleftrightarrow> x = 0 \<or> x = 1"
proof -
  have "unat x \<le> 1 \<longleftrightarrow> unat x = 0 \<or> unat x = 1" by linarith
  then show ?thesis by (simp add: word_le_nat_alt word_unat_eq_iff)
qed

lemmas assertions = bs_def assert_that_def unwrap_def unwrap_some_def unwrap_none_def fails_with_def returned_def
  committed_def opened_def acked_def pushed_def try_pushed_def mem_def

lemmas open_run = open_queue_def check_meta_def find_tail_def recover_scan.simps new_shared_def
  builder_capacity_def builder_max_bytes_def builder_durability_def builder_new_def mem_new_def
  group_default_def FORMAT_VERSION_def

lemmas push_run = push_def try_push_def enter_def admits_def claim_def write_entry_def commit_to_def group_commit_def
  group_lead.simps group_take_def group_enqueue_def batch_ops_def group_record_def group_outcome_def

lemmas take_run = reserve_def reserve_loop.simps reserve_check_def ack_def ack_finish_def jump.simps drop_reserved_def
  release_def release_inner_def nack_def

lemmas test_run = assertions open_run push_run take_run mem_defs checked_inc_def checked_add_def checked_sub_def
  saturating_add_def Let_def queue_len_def close_def close_inner_def upto_one

lemma key_tests: "key_roundtrip = Some ()" "keys_sort_by_seq_after_meta = Some ()"
  by (simp_all add: key_roundtrip_def keys_sort_by_seq_after_meta_def assert_that_def)

lemma order_test: "store_orders_keys_by_numeric_seq = Some ()"
  by (simp add: store_orders_keys_by_numeric_seq_def collect_seqs_def collect_from.simps test_run cong: bind_front)

lemma recovery_tests:
  "open_recovers_tail_len_and_skips_gaps = Some ()"
  "unsupported_version_is_rejected = Some ()"
  "open_recovers_byte_accounting = Some ()"
  by (simp_all add: open_recovers_tail_len_and_skips_gaps_def
      unsupported_version_is_rejected_def
      open_recovers_byte_accounting_def test_run cong: bind_front)

lemma handle_tests:
  "try_push_is_full_at_capacity = Some ()"
  "close_rejects_further_push = Some ()"
  "nack_returns_item_for_redelivery = Some ()"
  "drop_returns_item_for_redelivery = Some ()"
  "reserve_is_none_when_empty_or_all_reserved = Some ()"
  by (simp_all add: try_push_is_full_at_capacity_def
      close_rejects_further_push_def
      nack_returns_item_for_redelivery_def
      drop_returns_item_for_redelivery_def
      reserve_is_none_when_empty_or_all_reserved_def test_run cong: bind_front)

lemma bound_tests:
  "max_bytes_bounds_by_total_size = Some ()" "oversized_item_is_admitted_into_an_empty_queue = Some ()"
  by (simp_all add: max_bytes_bounds_by_total_size_def oversized_item_is_admitted_into_an_empty_queue_def test_run cong: bind_front)

lemma group_test: "group_durability_delivers_in_order = Some ()"
  by (simp add: group_durability_delivers_in_order_def test_run cong: bind_front)

lemma error_tests:
  "open_error_display_and_source = Some ()" "push_error_display_and_source = Some ()"
  "try_push_error_display_and_source = Some ()"
  by (simp_all add: open_error_display_and_source_def push_error_display_and_source_def
      try_push_error_display_and_source_def store_err_def assert_that_def decimal.simps Let_def char_of_def bit_0 cong: bind_front)

section \<open>The backends' test\<close>

definition contract :: "('s, 'e) Store \<Rightarrow> 's \<Rightarrow> unit option" where
  "contract S st = do {
     (g, st) \<leftarrow> returned (get S st (bs ''missing''));
     assert_that (g = None);
     (kv, st) \<leftarrow> returned (seek S st (bs ''a''));
     assert_that (kv = None);
     (_, st) \<leftarrow> returned (commit S st
       [Put (bs ''b'') (bs ''2''), Put (bs ''a'') (bs ''1''), Put (bs ''c'') (bs ''3'')] True);
     (g, st) \<leftarrow> returned (get S st (bs ''a''));
     assert_that (g = Some (bs ''1''));
     (g, st) \<leftarrow> returned (get S st (bs ''z''));
     assert_that (g = None);
     (kv, st) \<leftarrow> returned (seek S st (bs ''a''));
     assert_that (kv = Some (bs ''a'', bs ''1''));
     (kv, st) \<leftarrow> returned (seek S st (bs ''aa''));
     assert_that (map_option fst kv = Some (bs ''b''));
     (kv, st) \<leftarrow> returned (seek_back S st (bs ''bz''));
     assert_that (map_option fst kv = Some (bs ''b''));
     (kv, st) \<leftarrow> returned (seek_back S st [0xff]);
     assert_that (map_option fst kv = Some (bs ''c''));
     (_, st) \<leftarrow> returned (commit S st [Delete (bs ''b'')] True);
     (g, st) \<leftarrow> returned (get S st (bs ''b''));
     assert_that (g = None);
     (kv, st) \<leftarrow> returned (seek S st (bs ''b''));
     assert_that (map_option fst kv = Some (bs ''c''))}"

text \<open>The nearest key is determined by the contents.\<close>

lemma least_from_unique:
  assumes "least_from m k r" and "least_from m k r'"
  shows "r = r'"
proof (cases r)
  case None
  with assms show ?thesis by (force simp: least_from_def not_le [symmetric] split: option.splits)
next
  case (Some p)
  then obtain a v where r: "r = Some (a, v)" by (cases p) simp
  with assms obtain a' v' where r': "r' = Some (a', v')"
    by (cases r') (force simp: least_from_def not_le [symmetric])+
  from assms have "a = a'"
    unfolding r r' least_from_def by (simp add: dom_def) (metis order_antisym)
  with assms show ?thesis by (simp add: r r' least_from_def)
qed

lemma greatest_upto_unique:
  assumes "greatest_upto m k r" and "greatest_upto m k r'"
  shows "r = r'"
proof (cases r)
  case None
  with assms show ?thesis by (force simp: greatest_upto_def not_le [symmetric] split: option.splits)
next
  case (Some p)
  then obtain a v where r: "r = Some (a, v)" by (cases p) simp
  with assms obtain a' v' where r': "r' = Some (a', v')"
    by (cases r') (force simp: greatest_upto_def not_le [symmetric])+
  from assms have "a = a'"
    unfolding r r' greatest_upto_def by (simp add: dom_def) (metis order_antisym)
  with assms show ?thesis by (simp add: r r' greatest_upto_def)
qed

lemma no_store_error:
  "store_errors S = {} \<Longrightarrow> get S st k \<noteq> (Inl e, st')" "store_errors S = {} \<Longrightarrow> seek S st k \<noteq> (Inl e, st')"
  "store_errors S = {} \<Longrightarrow> seek_back S st k \<noteq> (Inl e, st')" "store_errors S = {} \<Longrightarrow> commit S st ops d \<noteq> (Inl e, st')"
  unfolding store_errors_def by (metis (mono_tags, lifting) empty_iff fst_conv mem_Collect_eq)+

text \<open>One call of the test, followed by its assertion and the rest.\<close>

context store_contract begin

lemma got:
  assumes "store_errors S = {}" and "sinv st" and "view st = m" and "P (m k)"
    and "\<And>st'. sinv st' \<Longrightarrow> view st' = m \<Longrightarrow> f st' = Some ()"
  shows "returned (get S st k) \<bind> (\<lambda>(g, st). assert_that (P g) \<bind> (\<lambda>_. f st)) = Some ()"
proof -
  obtain g st' where g: "get S st k = (g, st')" by fastforce
  with assms(1) obtain r where r: "g = Inr r" by (cases g) (auto simp: no_store_error)
  from get_keeps [OF assms(2) g] get_reads [OF assms(2) g [unfolded r]] g r assms(3-5)
  show ?thesis by (simp add: returned_def assert_that_def)
qed

lemma sought:
  assumes "store_errors S = {}" and "sinv st" and "view st = m" and "least_from m k kv" and "P kv"
    and "\<And>st'. sinv st' \<Longrightarrow> view st' = m \<Longrightarrow> f st' = Some ()"
  shows "returned (seek S st k) \<bind> (\<lambda>(g, st). assert_that (P g) \<bind> (\<lambda>_. f st)) = Some ()"
proof -
  obtain g st' where g: "seek S st k = (g, st')" by fastforce
  with assms(1) obtain r where r: "g = Inr r" by (cases g) (auto simp: no_store_error)
  from seek_keeps [OF assms(2) g] least_from_unique [OF seek_reads [OF assms(2) g [unfolded r]]] g r assms(3-6)
  show ?thesis by (simp add: returned_def assert_that_def)
qed

lemma sought_back:
  assumes "store_errors S = {}" and "sinv st" and "view st = m" and "greatest_upto m k kv" and "P kv"
    and "\<And>st'. sinv st' \<Longrightarrow> view st' = m \<Longrightarrow> f st' = Some ()"
  shows "returned (seek_back S st k) \<bind> (\<lambda>(g, st). assert_that (P g) \<bind> (\<lambda>_. f st)) = Some ()"
proof -
  obtain g st' where g: "seek_back S st k = (g, st')" by fastforce
  with assms(1) obtain r where r: "g = Inr r" by (cases g) (auto simp: no_store_error)
  from seek_back_keeps [OF assms(2) g] greatest_upto_unique [OF seek_back_reads [OF assms(2) g [unfolded r]]] g r assms(3-6)
  show ?thesis by (simp add: returned_def assert_that_def)
qed

lemma wrote:
  assumes "store_errors S = {}" and "sinv st" and "view st = m" and "apply_ops m ops = m'"
    and "\<And>st'. sinv st' \<Longrightarrow> view st' = m' \<Longrightarrow> f st' = Some ()"
  shows "returned (commit S st ops d) \<bind> (\<lambda>(_, st). f st) = Some ()"
proof -
  obtain g st' where g: "commit S st ops d = (g, st')" by fastforce
  with assms(1) have r: "g = Inr ()" by (cases g) (auto simp: no_store_error)
  from commit_keeps [OF assms(2) g] commit_ok [OF assms(2) g [unfolded r]] g r assms(3-5)
  show ?thesis by (simp add: returned_def)
qed

lemma contract_passes:
  assumes e: "store_errors S = {}" and "sinv st" and "view st = Map.empty"
  shows "contract S st = Some ()"
proof -
  let ?m = "[bs ''a'' \<mapsto> bs ''1'', bs ''b'' \<mapsto> bs ''2'', bs ''c'' \<mapsto> bs ''3'']"
  let ?n = "[bs ''a'' \<mapsto> bs ''1'', bs ''c'' \<mapsto> bs ''3'']"
  have d: "distinct [bs ''a'', bs ''b'', bs ''c'', bs ''z'']" by (simp add: bs_def)
  have a: "apply_ops Map.empty [Put (bs ''b'') (bs ''2''), Put (bs ''a'') (bs ''1''), Put (bs ''c'') (bs ''3'')] = ?m"
    "apply_ops ?m [Delete (bs ''b'')] = ?n"
    using d by auto
  have l: "least_from Map.empty (bs ''a'') None" "least_from ?m (bs ''a'') (Some (bs ''a'', bs ''1''))"
    "least_from ?m (bs ''aa'') (Some (bs ''b'', bs ''2''))" "least_from ?n (bs ''b'') (Some (bs ''c'', bs ''3''))"
    by (simp_all add: least_from_def bs_def)
  have g: "greatest_upto ?m (bs ''bz'') (Some (bs ''b'', bs ''2''))" "greatest_upto ?m [0xff] (Some (bs ''c'', bs ''3''))"
    by (simp_all add: greatest_upto_def bs_def)
  have v: "?m (bs ''a'') = Some (bs ''1'')" "?m (bs ''z'') = None" "?n (bs ''b'') = None"
    by (simp_all add: bs_def)
  have last: "(do { (kv, st) \<leftarrow> returned (seek S st (bs ''b''));
      assert_that (map_option fst kv = Some (bs ''c''))}) = Some ()" if "sinv st" "view st = ?n" for st
    using sought [OF e that l(4), where P = "\<lambda>kv. map_option fst kv = Some (bs ''c'')" and f = "\<lambda>_. Some ()"]
    by (simp add: Option.bind_assoc) 
  show ?thesis
    unfolding contract_def
    by (rule got [OF e assms(2,3)], simp, rule sought [OF e _ _ l(1)], assumption+, simp,
      rule wrote [OF e _ _ a(1)], assumption+, rule got [OF e], assumption+, rule v(1), rule got [OF e], assumption+,
      rule v(2), rule sought [OF e _ _ l(2)], assumption+, simp, rule sought [OF e _ _ l(3)], assumption+, simp,
      rule sought_back [OF e _ _ g(1)], assumption+, simp, rule sought_back [OF e _ _ g(2)], assumption+, simp,
      rule wrote [OF e _ _ a(2)], assumption+, rule got [OF e], assumption+, rule v(3), rule last)
qed

end

end
