(* ===== verification/Twins.thy ===== *)
theory Twins imports UnitTests FaultStore begin

text \<open>
  Running the queue (\<open>src/src/queue.rs\<close>) over two stores side by side, which carries a test that is
  evaluated over \<open>MemStore\<close> to the durable backends (\<open>IntegrationTests\<close>). Two stores are in step when related states answer every call alike and stay
  related; then so do the queues over them, call by call, waiting and not returning included. Two
  stores of the contract that report no error are in step wherever they hold the same contents, so
  what is shown of one backend by running it holds of all.
\<close>

section \<open>Queues that differ only in the store\<close>

definition alike :: "('s \<Rightarrow> 't \<Rightarrow> bool) \<Rightarrow> 's Shared \<Rightarrow> 't Shared \<Rightarrow> bool" where
  "alike R q p \<longleftrightarrow> R (store q) (store p) \<and> capacity q = capacity p \<and> max_bytes q = max_bytes p \<and>
     durable q = durable p \<and> ack_durable q = ack_durable p \<and> group q = group p \<and> inner q = inner p \<and>
     group_state q = group_state p"

definition alike_builder :: "('s \<Rightarrow> 't \<Rightarrow> bool) \<Rightarrow> 's Builder \<Rightarrow> 't Builder \<Rightarrow> bool" where
  "alike_builder R b c \<longleftrightarrow> R (b_store b) (b_store c) \<and> b_capacity b = b_capacity c \<and>
     b_max_bytes b = b_max_bytes c \<and> b_durability b = b_durability c \<and> b_durable_acks b = b_durable_acks c"

abbreviation runs_alike :: "('s \<Rightarrow> 't \<Rightarrow> bool) \<Rightarrow> ('r \<times> 's) option \<Rightarrow> ('r \<times> 't) option \<Rightarrow> bool" where
  "runs_alike L \<equiv> rel_option (rel_prod (=) L)"

lemma alikeD:
  assumes "alike R q p"
  shows "R (store q) (store p)" "capacity q = capacity p" "max_bytes q = max_bytes p" "durable q = durable p"
    "ack_durable q = ack_durable p" "group q = group p" "inner q = inner p" "group_state q = group_state p"
  using assms by (simp_all add: alike_def)

lemma alike_update [intro]:
  "R st ts \<Longrightarrow> alike R q p \<Longrightarrow> alike R (q\<lparr>store := st\<rparr>) (p\<lparr>store := ts\<rparr>)"
  "alike R q p \<Longrightarrow> alike R (q\<lparr>inner := i\<rparr>) (p\<lparr>inner := i\<rparr>)"
  "alike R q p \<Longrightarrow> alike R (q\<lparr>group_state := g\<rparr>) (p\<lparr>group_state := g\<rparr>)"
  by (simp_all add: alike_def)

lemma alike_enter: "alike R q p \<Longrightarrow> enter q n = enter p n"
  by (simp add: alike_def enter_def admits_def)

lemma alike_drop [intro]:
  "alike R q p \<Longrightarrow> alike R (release q r) (release p r)"
  "alike R q p \<Longrightarrow> alike R (drop_reserved q r) (drop_reserved p r)"
  "alike R q p \<Longrightarrow> alike R (nack q r) (nack p r)"
  "alike R q p \<Longrightarrow> alike R (close q) (close p)"
  by (simp_all add: alike_def release_def drop_reserved_def nack_def close_def)

text \<open>Two runs agree if each that ends is matched by the other.\<close>

lemma both_ways:
  assumes "\<And>r y. a = Some (r, y) \<Longrightarrow> \<exists>z. b = Some (r, z) \<and> L y z"
    and "\<And>r z. b = Some (r, z) \<Longrightarrow> \<exists>y. a = Some (r, y) \<and> L y z"
  shows "runs_alike L a b"
  using assms by (cases a; cases b) force+

lemma flip_step: "rel_prod (=) L a b \<Longrightarrow> rel_prod (=) (\<lambda>y x. L x y) b a"
  by (cases a; cases b) simp

lemma flip_alike: "alike (\<lambda>y x. R x y) p q = alike R q p"
  by (auto simp: alike_def)

lemma nearest:
  obtains e where "(r :: 'e + KeyValue option) = Inl e" | "r = Inr None" | k v where "r = Inr (Some (k, v))"
  by (metis sum.exhaust option.exhaust surj_pair)

section \<open>Stores in step\<close>

locale in_step =
  fixes S :: "('s, 'e) Store" and T :: "('t, 'e) Store" and R :: "'s \<Rightarrow> 't \<Rightarrow> bool"
  assumes get_step: "R st ts \<Longrightarrow> rel_prod (=) R (get S st k) (get T ts k)"
    and seek_step: "R st ts \<Longrightarrow> rel_prod (=) R (seek S st k) (seek T ts k)"
    and seek_back_step: "R st ts \<Longrightarrow> rel_prod (=) R (seek_back S st k) (seek_back T ts k)"
    and commit_step: "R st ts \<Longrightarrow> rel_prod (=) R (commit S st ops d) (commit T ts ops d)"
begin

lemma turned: "in_step T S (\<lambda>ts st. R st ts)"
  by unfold_locales (auto intro: flip_step get_step seek_step seek_back_step commit_step)

lemma commit_to_step:
  assumes "alike R q p"
  shows "rel_prod (=) (alike R) (commit_to S q ops d) (commit_to T p ops d)"
  using commit_step [OF alikeD(1) [OF assms], of ops d] assms
  by (auto simp: commit_to_def rel_prod_conv split: prod.splits)

lemma group_lead_step:
  assumes "group_lead S' q = Some y" and "S' = S" and "alike R q p"
  shows "\<exists>z. group_lead T p = Some z \<and> alike R y z"
  using assms
proof (induction S' q y arbitrary: p rule: group_lead.raw_induct [rotated 1, consumes 1])
  case (1 lead S' q y)
    let ?q = "q\<lparr>group_state := (group_state q)\<lparr>pending := []\<rparr>\<rparr>"
  let ?p = "p\<lparr>group_state := (group_state p)\<lparr>pending := []\<rparr>\<rparr>"
  have g: "group_state q = group_state p" and b: "alike R ?q ?p" using 1(4) by (simp_all add: alike_def)
  obtain r q1 where c: "commit_to S ?q (batch_ops (pending (group_state q))) True = (r, q1)" by fastforce
  with commit_to_step [OF b, of "batch_ops (pending (group_state q))" True] obtain p1 where
    d: "commit_to T ?p (batch_ops (pending (group_state p))) True = (r, p1)" "alike R q1 p1"
    unfolding g by (auto simp: rel_prod_conv split: prod.splits)
  note c' = c [unfolded g]
  show ?case
    using 1(2) c' d g 1(1) [OF _ refl] alikeD(8) [OF d(2)] alike_update(3) [OF d(2)] alike_update(3) [OF 1(4)]
    unfolding 1(3) group_lead.simps [of T p] by (auto simp: group_take_def Let_def split: if_splits)
qed

lemma reserve_loop_step:
  assumes "reserve_loop S' q c = Some y" and "S' = S" and "alike R q p"
  shows "\<exists>z. reserve_loop T p c = Some z \<and> rel_prod (=) (alike R) y z"
  using assms
proof (induction S' q c y arbitrary: p rule: reserve_loop.raw_induct [rotated 1, consumes 1])
  case (1 loop S' q c y)
  obtain r st where r: "seek S (store q) c = (r, st)" by fastforce
  with seek_step [OF alikeD(1) [OF 1(4)], of c] obtain ts where
    t: "seek T (store p) c = (r, ts)" "R st ts" by (auto simp: rel_prod_conv split: prod.splits)
  have a: "alike R (q\<lparr>store := st\<rparr>) (p\<lparr>store := ts\<rparr>)" using t(2) 1(4) by (rule alike_update(1))
  have b: "alike R (q\<lparr>store := st, inner := i\<rparr>) (p\<lparr>store := ts, inner := i\<rparr>)" for i
    using alike_update(2) [OF a] by simp
  have again: "\<exists>z. reserve_loop T (p\<lparr>store := ts\<rparr>) k = Some z \<and> rel_prod (=) (alike R) y z"
    if "loop S (q\<lparr>store := st\<rparr>) k = Some y" for k by (rule 1(1) [OF that refl a])
  show ?case
    using 1(2) r t(1) a b alikeD(7) [OF 1(4)]
    unfolding 1(3) reserve_loop.simps [of T p]
    by (auto split: sum.splits option.splits if_splits simp del: split_paired_Ex dest!: again)
qed

lemma recover_scan_step:
  assumes "recover_scan S' st c x = Some y" and "S' = S" and "R st ts"
  shows "\<exists>z. recover_scan T ts c x = Some z \<and> rel_prod (=) R y z"
  using assms
proof (induction S' st c x y arbitrary: ts rule: recover_scan.raw_induct [rotated 1, consumes 1])
  case (1 scan S' st c x y)
  obtain r st1 where r: "seek S st c = (r, st1)" by fastforce
  with seek_step [OF 1(4), of c] obtain ts1 where
    t: "seek T ts c = (r, ts1)" "R st1 ts1" by (auto simp: rel_prod_conv split: prod.splits)
  have again: "\<exists>z. recover_scan T ts1 k x' = Some z \<and> rel_prod (=) R y z"
    if "scan S st1 k x' = Some y" for k x' by (rule 1(1) [OF that refl t(2)])
  show ?case
  proof (cases r rule: nearest)
    case (3 k v)
    show ?thesis
    proof (cases "\<exists>q l b n. is_entry k \<and> seq_of k = Some q \<and> checked_add (rec_len x) 1 = Some l \<and>
        checked_add (rec_bytes x) (length v) = Some b \<and> checked_inc q = Some n")
      case True
      then obtain q l b n where o: "is_entry k" "seq_of k = Some q" "checked_add (rec_len x) 1 = Some l"
        "checked_add (rec_bytes x) (length v) = Some b" "checked_inc q = Some n" by blast
      let ?x = "\<lparr>rec_head = (if rec_len x = 0 then q else rec_head x), rec_len = l, rec_bytes = b\<rparr>"
      from 1(2) have "scan S st1 (entry_key n) ?x = Some y" 
        by (simp only: 1(3) r 3 prod.case sum.case option.case o simp_thms if_False)
      moreover have "recover_scan T ts c x = recover_scan T ts1 (entry_key n) ?x"
        by (simp only: recover_scan.simps [of T ts] t(1) 3 prod.case sum.case option.case o simp_thms if_False)
      ultimately show ?thesis using again by simp
    next
      case False
      with 1(2) t(2) show ?thesis
        unfolding 1(3) recover_scan.simps [of T ts] r t(1) 3
        by (cases "is_entry k"; cases "seq_of k"; cases "checked_add (rec_len x) 1";
            cases "checked_add (rec_bytes x) (length v)"; cases "checked_inc (the (seq_of k))")
          (auto simp del: checked_add_eq_Some checked_inc_eq_Some checked_inc_eq_None One_nat_def)
    qed
  qed (use 1(2) t(2) in \<open>auto simp: 1(3) recover_scan.simps [of T ts] r t(1)\<close>)
qed

end

text \<open>The loops end together.\<close>

context in_step begin

lemma group_lead_alike:
  assumes "alike R q p"
  shows "rel_option (alike R) (group_lead S q) (group_lead T p)"
proof (cases "group_lead S q")
  case None
  have "group_lead T p = None"
  proof (rule ccontr)
    assume "group_lead T p \<noteq> None"
    then obtain z where "group_lead T p = Some z" by blast
    from in_step.group_lead_step [OF turned this refl, of q] None assms show False by (simp add: flip_alike [of R])
  qed
  with None show ?thesis by simp
next
  case (Some y)
  from group_lead_step [OF this refl assms] Some show ?thesis by auto
qed

lemma reserve_loop_alike:
  assumes "alike R q p"
  shows "runs_alike (alike R) (reserve_loop S q c) (reserve_loop T p c)"
proof (rule both_ways)
  fix r y
  assume "reserve_loop S q c = Some (r, y)"
  from reserve_loop_step [OF this refl assms]
  show "\<exists>z. reserve_loop T p c = Some (r, z) \<and> alike R y z" by auto
next
  fix r z
  assume "reserve_loop T p c = Some (r, z)"
  from in_step.reserve_loop_step [OF turned this refl, of q] assms
  show "\<exists>y. reserve_loop S q c = Some (r, y) \<and> alike R y z" by (auto simp: flip_alike [of R])
qed

lemma recover_scan_alike:
  assumes "R st ts"
  shows "runs_alike R (recover_scan S st c x) (recover_scan T ts c x)"
proof (rule both_ways)
  fix r y
  assume "recover_scan S st c x = Some (r, y)"
  from recover_scan_step [OF this refl assms]
  show "\<exists>z. recover_scan T ts c x = Some (r, z) \<and> R y z" by auto
next
  fix r z
  assume "recover_scan T ts c x = Some (r, z)"
  from in_step.recover_scan_step [OF turned this refl, of st] assms
  show "\<exists>y. recover_scan S st c x = Some (r, y) \<and> R y z" by auto
qed

section \<open>Operations in step\<close>

lemma group_commit_alike:
  assumes "alike R q p"
  shows "runs_alike (alike R) (group_commit S q s v) (group_commit T p s v)"
proof -
  define g where "g = group_enqueue (group_state p) s v"
  have g: "group_enqueue (group_state q) s v = g" using assms by (simp add: g_def alike_def)
  let ?q = "q\<lparr>group_state := g\<lparr>flushing := True\<rparr>\<rparr>" and ?p = "p\<lparr>group_state := g\<lparr>flushing := True\<rparr>\<rparr>"
  have ends: "rel_option (alike R) (group_lead S ?q) (group_lead T ?p)"
    by (rule group_lead_alike [OF alike_update(3) [OF assms]])
  show ?thesis
  proof (cases "group_lead S ?q")
    case None
    with ends have "group_lead T ?p = None" by simp
    with None show ?thesis unfolding group_commit_def g g_def [symmetric] by (simp add: Let_def)
  next
    case (Some q1)
    with ends obtain p1 where p1: "group_lead T ?p = Some p1" and a: "alike R q1 p1"
      by (cases "group_lead T ?p") auto
    let ?h = "(group_state p1)\<lparr>done_map := (done_map (group_state p1))(s := None)\<rparr>"
    have "rel_prod (=) (alike R) (commit_to S (q1\<lparr>group_state := ?h\<rparr>) [Put (entry_key s) v] True)
        (commit_to T (p1\<lparr>group_state := ?h\<rparr>) [Put (entry_key s) v] True)"
      by (rule commit_to_step [OF alike_update(3) [OF a]])
    then show ?thesis
      unfolding group_commit_def g g_def [symmetric] using Some p1 alikeD(8) [OF a] alike_update(3) [OF a]
      by (simp add: Let_def group_outcome_def)
  qed
qed

lemma write_entry_alike:
  assumes "alike R q p"
  shows "runs_alike (alike R) (write_entry S q s v) (write_entry T p s v)"
proof -
  have "runs_alike (alike R)
      (if group q then group_commit S q s v else Some (commit_to S q [Put (entry_key s) v] (durable q)))
      (if group p then group_commit T p s v else Some (commit_to T p [Put (entry_key s) v] (durable p)))"
    using group_commit_alike [OF assms] commit_to_step [OF assms] alikeD(4,6) [OF assms] by simp
  moreover have settled: "rel_prod (=) (alike R)
      (case r of Inr _ \<Rightarrow> (Ok (), q1) | Inl e \<Rightarrow> (case give_back (inner q1) (length v) of
          None \<Rightarrow> (Panic, q1) | Some i \<Rightarrow> (Err e, q1\<lparr>inner := i\<rparr>)))
      (case r of Inr _ \<Rightarrow> (Ok (), p1) | Inl e \<Rightarrow> (case give_back (inner p1) (length v) of
          None \<Rightarrow> (Panic, p1) | Some i \<Rightarrow> (Err e, p1\<lparr>inner := i\<rparr>)))" if "alike R q1 p1" for r :: "'e + unit" and q1 p1
    
    using alikeD(7) [OF that] that alike_update(2) [OF that]
    by (cases r; cases "give_back (inner p1) (length v)") (simp_all del: give_back_eq_Some)
  ultimately show ?thesis
    unfolding write_entry_def option.rel_map
  proof (elim option.rel_mono_strong)
    fix x :: "('e + unit) \<times> 's Shared" and y
    assume "rel_prod (=) (alike R) x y"
    then obtain r :: "'e + unit" and q1 p1 where "x = (r, q1)" "y = (r, p1)" "alike R q1 p1" by (cases x; cases y) auto
    with settled [of q1 p1 r] show "rel_prod (=) (alike R)
        (case x of (r, q1) \<Rightarrow> case r of Inr _ \<Rightarrow> (Ok (), q1) | Inl e \<Rightarrow>
          (case give_back (inner q1) (length v) of None \<Rightarrow> (Panic, q1) | Some i \<Rightarrow> (Err e, q1\<lparr>inner := i\<rparr>)))
        (case y of (r, p1) \<Rightarrow> case r of Inr _ \<Rightarrow> (Ok (), p1) | Inl e \<Rightarrow>
          (case give_back (inner p1) (length v) of None \<Rightarrow> (Panic, p1) | Some i \<Rightarrow> (Err e, p1\<lparr>inner := i\<rparr>)))"
      by simp
  qed
qed

lemma push_alike:
  assumes "alike R q p"
  shows "runs_alike (alike R) (push S q v) (push T p v)"
proof (cases "enter p (length v)")
  case (Admitted seq i)
  have "runs_alike (alike R) (write_entry S (q\<lparr>inner := i\<rparr>) seq v) (write_entry T (p\<lparr>inner := i\<rparr>) seq v)"
    by (rule write_entry_alike [OF alike_update(2) [OF assms]])
  then show ?thesis
    unfolding push_def alike_enter [OF assms] Admitted
    by (simp add: option.rel_map) (elim option.rel_mono_strong, auto)
qed (use assms in \<open>simp_all add: push_def alike_enter [OF assms] del: enter_eq_Rejected enter_eq_NoRoom enter_eq_Admitted\<close>)

lemma try_push_alike:
  assumes "alike R q p"
  shows "runs_alike (alike R) (try_push S q v) (try_push T p v)"
proof (cases "enter p (length v)")
  case (Admitted seq i)
  have "runs_alike (alike R) (write_entry S (q\<lparr>inner := i\<rparr>) seq v) (write_entry T (p\<lparr>inner := i\<rparr>) seq v)"
    by (rule write_entry_alike [OF alike_update(2) [OF assms]])
  then show ?thesis
    unfolding try_push_def alike_enter [OF assms] Admitted
    by (simp add: option.rel_map) (elim option.rel_mono_strong, auto)
qed (use assms in \<open>simp_all add: try_push_def alike_enter [OF assms] del: enter_eq_Rejected enter_eq_NoRoom enter_eq_Admitted\<close>)

lemma reserve_alike: "alike R q p \<Longrightarrow> runs_alike (alike R) (reserve S q) (reserve T p)"
  unfolding reserve_def using reserve_loop_alike alikeD(7) by metis

lemma ack_alike:
  assumes "alike R q p"
  shows "rel_prod (=) (alike R) (ack S q r) (ack T p r)"
proof -
  let ?ops = "[Delete (entry_key (res_seq r))]"
  obtain c q1 where c: "commit_to S q ?ops (ack_durable q) = (c, q1)" by fastforce
  with commit_to_step [OF assms, of ?ops "ack_durable q"] obtain p1 where
    d: "commit_to T p ?ops (ack_durable p) = (c, p1)" "alike R q1 p1"
    using alikeD(5) [OF assms] by (auto simp: rel_prod_conv split: prod.splits)
  show ?thesis
    unfolding ack_def c d(1) using d(2) alikeD(7) [OF d(2)] by (auto split: sum.split option.split)
qed

lemma check_meta_alike: "R st ts \<Longrightarrow> rel_prod (=) R (check_meta S st d) (check_meta T ts d)"
  using get_step [of st ts META_KEY] commit_step [of _ _ "[Put META_KEY [FORMAT_VERSION]]" d]
  unfolding check_meta_def Let_def
  by (fastforce simp: rel_prod_conv split: prod.splits sum.splits option.splits)

lemma find_tail_alike: "R st ts \<Longrightarrow> rel_prod (=) R (find_tail S st) (find_tail T ts)"
  using seek_back_step [of st ts ENTRY_HIGH] unfolding find_tail_def
  by (auto simp: rel_prod_conv split: prod.splits sum.splits option.splits)

lemma open_queue_alike:
  assumes "alike_builder R b c"
  shows "rel_option (rel_prod (rel_outcome (=) (alike R)) R) (open_queue S b) (open_queue T c)"
proof -
  have b: "R (b_store b) (b_store c)" "b_durability b = b_durability c" using assms by (simp_all add: alike_builder_def)
  have new: "alike R (new_shared b st t x) (new_shared c ts t x)" if "R st ts" for st ts t x
    using assms that by (simp add: alike_builder_def alike_def new_shared_def Let_def)
  obtain m st where m: "check_meta S (b_store b) (durability_durable (b_durability b)) = (m, st)" by fastforce
  with check_meta_alike [OF b(1), of "durability_durable (b_durability b)"] obtain ts where
    m': "check_meta T (b_store c) (durability_durable (b_durability c)) = (m, ts)" "R st ts"
    unfolding b(2) by (auto simp: rel_prod_conv split: prod.splits)
  obtain t st1 where t: "find_tail S st = (t, st1)" by fastforce
  with find_tail_alike [OF m'(2)] obtain ts1 where t': "find_tail T ts = (t, ts1)" "R st1 ts1"
    by (auto simp: rel_prod_conv split: prod.splits)
  have "rel_option (rel_prod (rel_outcome (=) (alike R)) R)
      (map_option (\<lambda>(r, st). (case r of Err e \<Rightarrow> (Err e, st) | Panic \<Rightarrow> (Panic, st)
         | Ok r \<Rightarrow> (Ok (new_shared b st n r), st))) (recover_scan S st1 ENTRY_LOW x))
      (map_option (\<lambda>(r, st). (case r of Err e \<Rightarrow> (Err e, st) | Panic \<Rightarrow> (Panic, st)
         | Ok r \<Rightarrow> (Ok (new_shared c st n r), st))) (recover_scan T ts1 ENTRY_LOW x))" for n x
    using recover_scan_alike [OF t'(2), of ENTRY_LOW x] unfolding option.rel_map
    by (elim option.rel_mono_strong) (auto simp: new split: outcome.split)
  then show ?thesis
    unfolding open_queue_def m m'(1) using m'(2) t'(2) t t'(1) by (auto split: outcome.split)
qed

end

section \<open>The same contents\<close>

definition never_fails :: "('s, 'e) Store \<Rightarrow> ('s \<Rightarrow> bool) \<Rightarrow> bool" where
  "never_fails S sinv \<longleftrightarrow> (\<forall>st k ops d e. sinv st \<longrightarrow> fst (get S st k) \<noteq> Inl e \<and> fst (seek S st k) \<noteq> Inl e \<and>
     fst (seek_back S st k) \<noteq> Inl e \<and> fst (commit S st ops d) \<noteq> Inl e)"

definition same_contents ::
  "('s \<Rightarrow> bool) \<Rightarrow> ('s \<Rightarrow> key \<rightharpoonup> val) \<Rightarrow> ('t \<Rightarrow> bool) \<Rightarrow> ('t \<Rightarrow> key \<rightharpoonup> val) \<Rightarrow> 's \<Rightarrow> 't \<Rightarrow> bool" where
  "same_contents i v j w st ts \<longleftrightarrow> i st \<and> j ts \<and> v st = w ts"

text \<open>An answer of one store, given by its contents.\<close>

context store_contract begin

lemma answers:
  assumes "never_fails S sinv" and "sinv st"
  obtains g s b c where "get S st k = (Inr (view st k), g)" "sinv g" "view g = view st"
    "seek S st k = (Inr (fst s), snd s)" "sinv (snd s)" "view (snd s) = view st" "least_from (view st) k (fst s)"
    "seek_back S st k = (Inr (fst b), snd b)" "sinv (snd b)" "view (snd b) = view st"
    "greatest_upto (view st) k (fst b)"
    "commit S st ops d = (Inr (), c)" "sinv c" "view c = apply_ops (view st) ops"
proof -
  note ok = assms(1) [unfolded never_fails_def, rule_format, OF assms(2)]
  obtain r g where g: "get S st k = (r, g)" by fastforce
  obtain x s where s: "seek S st k = (x, s)" by fastforce
  obtain y b where b: "seek_back S st k = (y, b)" by fastforce
  obtain z c where c: "commit S st ops d = (z, c)" by fastforce
  obtain r' x' y' where i: "r = Inr r'" "x = Inr x'" "y = Inr y'" "z = Inr ()"
    using ok [of k _ ops d] g s b c by (cases r; cases x; cases y; cases z) auto
  show thesis
    using that [of g "(x', s)" "(y', b)" c] i g s b c
      get_keeps [OF assms(2) g] seek_keeps [OF assms(2) s] seek_back_keeps [OF assms(2) b] commit_keeps [OF assms(2) c]
      get_reads [OF assms(2) g [unfolded i]] seek_reads [OF assms(2) s [unfolded i]]
      seek_back_reads [OF assms(2) b [unfolded i]] commit_ok [OF assms(2) c [unfolded i]] by simp
qed

end

lemma contents_in_step:
  assumes "store_contract S i v" and "never_fails S i" and "store_contract T j w" and "never_fails T j"
  shows "in_step S T (same_contents i v j w)"
proof
  fix st ts k ops d
  assume "same_contents i v j w st ts"
  then have c: "i st" "j ts" "w ts = v st" by (simp_all add: same_contents_def)
  obtain g s b e where x: "get S st k = (Inr (v st k), g)" "i g" "v g = v st"
    "seek S st k = (Inr (fst s), snd s)" "i (snd s)" "v (snd s) = v st" "least_from (v st) k (fst s)"
    "seek_back S st k = (Inr (fst b), snd b)" "i (snd b)" "v (snd b) = v st" "greatest_upto (v st) k (fst b)"
    "commit S st ops d = (Inr (), e)" "i e" "v e = apply_ops (v st) ops"
    using store_contract.answers [OF assms(1,2) c(1)] by metis
  obtain g' s' b' e' where y: "get T ts k = (Inr (v st k), g')" "j g'" "w g' = v st"
    "seek T ts k = (Inr (fst s'), snd s')" "j (snd s')" "w (snd s') = v st" "least_from (v st) k (fst s')"
    "seek_back T ts k = (Inr (fst b'), snd b')" "j (snd b')" "w (snd b') = v st" "greatest_upto (v st) k (fst b')"
    "commit T ts ops d = (Inr (), e')" "j e'" "w e' = apply_ops (v st) ops"
    using store_contract.answers [OF assms(3,4) c(2)] unfolding c(3) by metis
  note near = least_from_unique [OF x(7) y(7)] greatest_upto_unique [OF x(11) y(11)]
  show "rel_prod (=) (same_contents i v j w) (get S st k) (get T ts k)"
    "rel_prod (=) (same_contents i v j w) (seek S st k) (seek T ts k)"
    "rel_prod (=) (same_contents i v j w) (seek_back S st k) (seek_back T ts k)"
    "rel_prod (=) (same_contents i v j w) (commit S st ops d) (commit T ts ops d)"
    using x y near by (simp_all add: same_contents_def)
qed

text \<open>\<open>MemStore\<close> never fails, nor does the disk of \<open>tests/fault.rs\<close> while it is told not to; they are in step.\<close>

abbreviation sm_calm :: "shared_mem \<Rightarrow> bool" where
  "sm_calm s \<equiv> sm_inv s \<and> fail_at s = None"

lemma mem_never_fails: "never_fails MemStore i"
  by (simp add: never_fails_def mem_defs)

lemma sm_never_fails: "never_fails SharedMem sm_calm"
  by (simp add: never_fails_def sm_defs Let_def)

lemma sm_calm_contract: "store_contract SharedMem sm_calm sm_view"
proof
  fix st ops d c st'
  assume a: "sm_calm st" and c: "commit SharedMem st ops d = (c, st')"
  have "fail_at st' = fail_at st" using c by (auto simp: sm_commit_def Let_def split: if_splits)
  with sm.commit_keeps [OF _ c] a show "sm_calm st'" by simp
next
  fix st ops d st'
  assume "sm_calm st" and "commit SharedMem st ops d = (Inr (), st')"
  then show "sm_view st' = apply_ops (sm_view st) ops" using sm.commit_ok by blast
next
  fix st ops d e st' k
  assume "sm_calm st" and "commit SharedMem st ops d = (Inl e, st')"
  then show "\<exists>n. sm_view st' k = apply_ops (sm_view st) (take n ops) k" using sm.commit_err by blast
qed (auto simp: sm_get_def sm_seek_def sm_seek_back_def bt_next_least bt_next_back_greatest sm_inv_ordered)

interpretation mem_sm: in_step MemStore SharedMem "same_contents bt_ordered map_of sm_calm sm_view"
  by (rule contents_in_step [OF mem.store_contract_axioms mem_never_fails sm_calm_contract sm_never_fails])

end
