(* ===== verification/AsyncTests.thy ===== *)
theory AsyncTests imports UnitTests Async begin

text \<open>
  Tests of the async facade (\<open>src/tests/async_facade.rs\<close>) as executable definitions over \<open>Async\<close>.
  Where a test blocks one task until another acts, the other task runs while the first one waits:
  it is the test's \<open>await\<close>. \<open>nobody\<close> is the \<open>await\<close> of a test with one task, in which a call that has to wait never
  returns, so that the test fails.
\<close>

definition nobody :: "nat \<Rightarrow> 's AsyncQueue \<Rightarrow> 's AsyncQueue option" where
  "nobody n a = None"

definition async_opened :: "mem_store Builder \<Rightarrow> mem_store AsyncQueue option" where
  "async_opened b = map_option fst (unwrap (open_async MemU b))"

text \<open>A task that pushes and one that reserves and acks, each awaiting with \<open>await\<close>.\<close>

definition async_pushed ::
  "(nat \<Rightarrow> mem_store AsyncQueue \<Rightarrow> mem_store AsyncQueue option) \<Rightarrow> val \<Rightarrow> mem_store AsyncQueue \<Rightarrow>
    mem_store AsyncQueue option" where
  "async_pushed await v a = map_option snd (unwrap (async_push MemU await 0 a v))"

definition async_acked :: "AsyncReserved \<Rightarrow> mem_store AsyncQueue \<Rightarrow> mem_store AsyncQueue option" where
  "async_acked g a = map_option snd (unwrap (Some (async_ack MemU a g)))"

definition async_push_reserve_ack_roundtrip :: "unit option" where
  "async_push_reserve_ack_roundtrip = do {
     a \<leftarrow> async_opened (builder_new mem_new);
     a \<leftarrow> async_pushed nobody (bs ''job'') a;
     (item, a) \<leftarrow> unwrap_some (async_reserve MemU nobody 0 a);
     assert_that (async_deref item = Some (bs ''job''));
     assert_that (async_seq item = Some 0);
     a \<leftarrow> async_acked item a;
     Some ()}"

definition async_nack_redelivers :: "unit option" where
  "async_nack_redelivers = do {
     a \<leftarrow> async_opened (builder_new mem_new);
     a \<leftarrow> async_pushed nobody (bs ''x'') a;
     (item, a) \<leftarrow> unwrap_some (async_reserve MemU nobody 0 a);
     (again, a) \<leftarrow> unwrap_some (async_reserve MemU nobody 0 (async_nack a item));
     assert_that (async_deref again = Some (bs ''x''));
     a \<leftarrow> async_acked again a;
     Some ()}"

text \<open>The second push waits; the main task frees a slot.\<close>

definition async_push_blocks_until_capacity_frees :: "unit option" where
  "async_push_blocks_until_capacity_frees = do {
     c \<leftarrow> builder_capacity 1 (builder_new mem_new);
     a \<leftarrow> async_opened c;
     a \<leftarrow> async_pushed nobody (bs ''a'') a;
     a \<leftarrow> async_pushed (\<lambda>n a. do {
         (item, a) \<leftarrow> unwrap_some (async_reserve MemU nobody 0 a);
         assert_that (async_deref item = Some (bs ''a''));
         async_acked item a}) (bs ''b'') a;
     (item, a) \<leftarrow> unwrap_some (async_reserve MemU nobody 0 a);
     assert_that (async_deref item = Some (bs ''b''));
     a \<leftarrow> async_acked item a;
     Some ()}"

text \<open>The consumer waits on an empty queue; the main task pushes, or closes.\<close>

definition async_reserve_waits_for_an_item :: "unit option" where
  "async_reserve_waits_for_an_item = do {
     a \<leftarrow> async_opened (builder_new mem_new);
     (item, a) \<leftarrow> unwrap_some (async_reserve MemU (\<lambda>n. async_pushed nobody (bs ''late'')) 0 a);
     assert_that (async_seq item = Some 0);
     a \<leftarrow> async_acked item a;
     Some ()}"

definition async_reserve_unblocks_on_close :: "unit option" where
  "async_reserve_unblocks_on_close = do {
     a \<leftarrow> async_opened (builder_new mem_new);
     a \<leftarrow> unwrap_none (async_reserve MemU (\<lambda>n a. Some (async_close a)) 0 a);
     Some ()}"

definition async_reserve_returns_none_after_close_and_drain :: "unit option" where
  "async_reserve_returns_none_after_close_and_drain = do {
     a \<leftarrow> async_opened (builder_new mem_new);
     a \<leftarrow> async_pushed nobody (bs ''x'') a;
     (item, a) \<leftarrow> unwrap_some (async_reserve MemU nobody 0 (async_close a));
     a \<leftarrow> async_acked item a;
     a \<leftarrow> unwrap_none (async_reserve MemU nobody 0 a);
     Some ()}"

lemmas async_run = nobody_def async_opened_def async_pushed_def async_acked_def open_async_def async_push.simps
  async_reserve.simps async_ack_def async_nack_def async_close_def async_deref_def async_seq_def notify_def
  is_drained_def test_run

lemma async_tests:
  "async_push_reserve_ack_roundtrip = Some ()" "async_nack_redelivers = Some ()"
  "async_reserve_returns_none_after_close_and_drain = Some ()"
  by (simp_all add: async_push_reserve_ack_roundtrip_def async_nack_redelivers_def
      async_reserve_returns_none_after_close_and_drain_def async_run cong: bind_front)

lemma async_waiting_tests:
  "async_push_blocks_until_capacity_frees = Some ()" "async_reserve_waits_for_an_item = Some ()"
  "async_reserve_unblocks_on_close = Some ()"
  by (simp_all add: async_push_blocks_until_capacity_frees_def async_reserve_waits_for_an_item_def
      async_reserve_unblocks_on_close_def async_run cong: bind_front)

end
