(* ===== verification/Redb.thy ===== *)
theory Redb imports Backends begin

text \<open>
  \<open>RedbStore\<close> (\<open>src/src/store.rs\<close>, lines 177--274) over a redb database. Reads open a read
  transaction, whose table is a snapshot; a commit fills a write transaction operation by operation
  and then commits it, and an early return drops the transaction, which aborts it. A commit that
  need not be durable sets \<open>Durability::None\<close>. \<open>redb_lawful\<close> and \<open>redb_survives\<close> are what redb
  documents of these calls. The library's error types convert to one, \<open>'e\<close>.
\<close>

section \<open>The backend\<close>

record ('d, 'r, 't, 'w, 'e) redb =
  rd_create :: "string \<Rightarrow> 'e + 'd"
  rd_begin_read :: "'d \<Rightarrow> ('e + 'r) \<times> 'd"
  rd_read_table :: "'r \<Rightarrow> string \<Rightarrow> 'e + 't"
  rd_get :: "'t \<Rightarrow> key \<Rightarrow> 'e + val option"
  rd_range_next :: "'t \<Rightarrow> key \<Rightarrow> 'e + ('e + KeyValue) option"
  rd_range_next_back :: "'t \<Rightarrow> key \<Rightarrow> 'e + ('e + KeyValue) option"
  rd_begin_write :: "'d \<Rightarrow> ('e + 'w) \<times> 'd"
  rd_set_durability_none :: "'w \<Rightarrow> ('e + unit) \<times> 'w"
  rd_open_table :: "'w \<Rightarrow> string \<Rightarrow> ('e + unit) \<times> 'w"
  rd_insert :: "'w \<Rightarrow> string \<Rightarrow> key \<Rightarrow> val \<Rightarrow> ('e + unit) \<times> 'w"
  rd_remove :: "'w \<Rightarrow> string \<Rightarrow> key \<Rightarrow> ('e + unit) \<times> 'w"
  rd_commit :: "'d \<Rightarrow> 'w \<Rightarrow> ('e + unit) \<times> 'd"
  rd_abort :: "'d \<Rightarrow> 'w \<Rightarrow> 'd"

definition REDB_TABLE :: string where
  "REDB_TABLE = ''entries''"

text \<open>\<open>let x = m?; f(x)\<close>\<close>

fun and_then :: "('e + 'a) \<times> 's \<Rightarrow> ('a \<Rightarrow> 's \<Rightarrow> ('e + 'b) \<times> 's) \<Rightarrow> ('e + 'b) \<times> 's" where
  "and_then (Inl e, s) f = (Inl e, s)"
| "and_then (Inr a, s) f = f a s"

text \<open>\<open>RedbStore::from_db\<close>: the store is its database.\<close>

definition redb_from_db :: "'d \<Rightarrow> 'd" where
  "redb_from_db db = db"

text \<open>The creating transaction of \<open>open\<close> leaves the table behind, so a later read finds it.\<close>

definition redb_open :: "('d, 'r, 't, 'w, 'e) redb \<Rightarrow> string \<Rightarrow> 'e + 'd" where
  "redb_open L path =
     (case rd_create L path of
        Inl e \<Rightarrow> Inl e
      | Inr db \<Rightarrow>
          (case rd_begin_write L db of
             (Inl e, db) \<Rightarrow> Inl e
           | (Inr wtx, db) \<Rightarrow>
               (case rd_open_table L wtx REDB_TABLE of
                  (Inl e, wtx) \<Rightarrow> Inl e
                | (Inr _, wtx) \<Rightarrow>
                    (case rd_commit L db wtx of
                       (Inl e, db) \<Rightarrow> Inl e
                     | (Inr _, db) \<Rightarrow> Inr db))))"

definition redb_read ::
  "('d, 'r, 't, 'w, 'e) redb \<Rightarrow> 'd \<Rightarrow> ('t \<Rightarrow> 'e + 'a) \<Rightarrow> ('e + 'a) \<times> 'd" where
  "redb_read L db use =
     and_then (rd_begin_read L db) (\<lambda>rtx db.
       (case rd_read_table L rtx REDB_TABLE of Inl e \<Rightarrow> Inl e | Inr table \<Rightarrow> use table, db))"

definition redb_get :: "('d, 'r, 't, 'w, 'e) redb \<Rightarrow> 'd \<Rightarrow> key \<Rightarrow> ('e + val option) \<times> 'd" where
  "redb_get L db k = redb_read L db (\<lambda>table. rd_get L table k)"

definition redb_seek :: "('d, 'r, 't, 'w, 'e) redb \<Rightarrow> 'd \<Rightarrow> key \<Rightarrow> ('e + KeyValue option) \<times> 'd" where
  "redb_seek L db from =
     redb_read L db (\<lambda>table. case rd_range_next L table from of Inl e \<Rightarrow> Inl e | Inr r \<Rightarrow> transpose_next r)"

definition redb_seek_back :: "('d, 'r, 't, 'w, 'e) redb \<Rightarrow> 'd \<Rightarrow> key \<Rightarrow> ('e + KeyValue option) \<times> 'd" where
  "redb_seek_back L db limit =
     redb_read L db (\<lambda>table. case rd_range_next_back L table limit of Inl e \<Rightarrow> Inl e | Inr r \<Rightarrow> transpose_next r)"

fun redb_add :: "('d, 'r, 't, 'w, 'e) redb \<Rightarrow> 'w \<Rightarrow> Op \<Rightarrow> ('e + unit) \<times> 'w" where
  "redb_add L wtx (Put k v) = rd_insert L wtx REDB_TABLE k v"
| "redb_add L wtx (Delete k) = rd_remove L wtx REDB_TABLE k"

fun redb_apply :: "('d, 'r, 't, 'w, 'e) redb \<Rightarrow> 'w \<Rightarrow> Op list \<Rightarrow> ('e + unit) \<times> 'w" where
  "redb_apply L wtx [] = (Inr (), wtx)"
| "redb_apply L wtx (x # ops) = and_then (redb_add L wtx x) (\<lambda>_ wtx. redb_apply L wtx ops)"

definition redb_fill :: "('d, 'r, 't, 'w, 'e) redb \<Rightarrow> 'w \<Rightarrow> Op list \<Rightarrow> bool \<Rightarrow> ('e + unit) \<times> 'w" where
  "redb_fill L wtx ops durable =
     and_then (if durable then (Inr (), wtx) else rd_set_durability_none L wtx) (\<lambda>_ wtx.
       and_then (rd_open_table L wtx REDB_TABLE) (\<lambda>_ wtx. redb_apply L wtx ops))"

definition redb_commit :: "('d, 'r, 't, 'w, 'e) redb \<Rightarrow> 'd \<Rightarrow> Op list \<Rightarrow> bool \<Rightarrow> ('e + unit) \<times> 'd" where
  "redb_commit L db ops durable =
     and_then (rd_begin_write L db) (\<lambda>wtx db.
       case redb_fill L wtx ops durable of
         (Inl e, wtx) \<Rightarrow> (Inl e, rd_abort L db wtx)
       | (Inr _, wtx) \<Rightarrow> rd_commit L db wtx)"

definition RedbStore :: "('d, 'r, 't, 'w, 'e) redb \<Rightarrow> ('d, 'e) Store" where
  "RedbStore L = \<lparr>get = redb_get L, seek = redb_seek L, seek_back = redb_seek_back L, commit = redb_commit L\<rparr>"

section \<open>What redb documents\<close>

text \<open>A read transaction is a snapshot (\<open>rview\<close>), and so is its table (\<open>tview\<close>).\<close>

definition redb_reads :: "('d, 'r, 't, 'w, 'e) redb \<Rightarrow> ('d \<Rightarrow> bool) \<Rightarrow> ('d \<Rightarrow> key \<rightharpoonup> val) \<Rightarrow>
    ('r \<Rightarrow> key \<rightharpoonup> val) \<Rightarrow> ('t \<Rightarrow> key \<rightharpoonup> val) \<Rightarrow> bool" where
  "redb_reads L dinv view rview tview \<longleftrightarrow>
     (\<forall>d r d'. dinv d \<longrightarrow> rd_begin_read L d = (r, d') \<longrightarrow> dinv d' \<and> view d' = view d \<and>
        (\<forall>x. r = Inr x \<longrightarrow> rview x = view d)) \<and>
     (\<forall>x t. rd_read_table L x REDB_TABLE = Inr t \<longrightarrow> tview t = rview x) \<and>
     (\<forall>t k v. rd_get L t k = Inr v \<longrightarrow> v = tview t k) \<and>
     (\<forall>t k r kv. rd_range_next L t k = Inr r \<longrightarrow> transpose_next r = Inr kv \<longrightarrow> least_from (tview t) k kv) \<and>
     (\<forall>t k r kv. rd_range_next_back L t k = Inr r \<longrightarrow> transpose_next r = Inr kv \<longrightarrow>
        greatest_upto (tview t) k kv)"

text \<open>A write transaction starts from the contents and stages its changes (\<open>staged\<close>); \<open>immediate\<close>
  is its durability, which only \<open>set_durability\<close> changes.\<close>

definition stages :: "('w \<Rightarrow> key \<rightharpoonup> val) \<Rightarrow> ('w \<Rightarrow> bool) \<Rightarrow> ('w \<Rightarrow> ('e + unit) \<times> 'w) \<Rightarrow>
    ((key \<rightharpoonup> val) \<Rightarrow> key \<rightharpoonup> val) \<Rightarrow> bool" where
  "stages staged immediate f change \<longleftrightarrow>
     (\<forall>w r w'. f w = (r, w') \<longrightarrow> immediate w' = immediate w \<and> (r = Inr () \<longrightarrow> staged w' = change (staged w)))"

definition redb_writes :: "('d, 'r, 't, 'w, 'e) redb \<Rightarrow> ('d \<Rightarrow> bool) \<Rightarrow> ('d \<Rightarrow> key \<rightharpoonup> val) \<Rightarrow>
    ('w \<Rightarrow> key \<rightharpoonup> val) \<Rightarrow> ('w \<Rightarrow> bool) \<Rightarrow> bool" where
  "redb_writes L dinv view staged immediate \<longleftrightarrow>
     (\<forall>d r d'. dinv d \<longrightarrow> rd_begin_write L d = (r, d') \<longrightarrow> dinv d' \<and> view d' = view d \<and>
        (\<forall>w. r = Inr w \<longrightarrow> staged w = view d \<and> immediate w)) \<and>
     (\<forall>w w'. rd_set_durability_none L w = (Inr (), w') \<longrightarrow> staged w' = staged w) \<and>
     stages staged immediate (\<lambda>w. rd_open_table L w REDB_TABLE) (\<lambda>m. m) \<and>
     (\<forall>k v. stages staged immediate (\<lambda>w. rd_insert L w REDB_TABLE k v) (\<lambda>m. m(k \<mapsto> v))) \<and>
     (\<forall>k. stages staged immediate (\<lambda>w. rd_remove L w REDB_TABLE k) (\<lambda>m. m(k := None))) \<and>
     write_lawful dinv view (\<lambda>w m. staged w) (rd_commit L) \<and>
     (\<forall>w. silent dinv view (\<lambda>d. ((), rd_abort L d w)))"

definition redb_lawful :: "('d, 'r, 't, 'w, 'e) redb \<Rightarrow> ('d \<Rightarrow> bool) \<Rightarrow> ('d \<Rightarrow> key \<rightharpoonup> val) \<Rightarrow>
    ('r \<Rightarrow> key \<rightharpoonup> val) \<Rightarrow> ('t \<Rightarrow> key \<rightharpoonup> val) \<Rightarrow> ('w \<Rightarrow> key \<rightharpoonup> val) \<Rightarrow> ('w \<Rightarrow> bool) \<Rightarrow> bool" where
  "redb_lawful L dinv view rview tview staged immediate \<longleftrightarrow>
     redb_reads L dinv view rview tview \<and> redb_writes L dinv view staged immediate"

text \<open>Committing an immediate transaction persists it and every earlier one.\<close>

definition redb_survives :: "('d, 'r, 't, 'w, 'e) redb \<Rightarrow> ('d \<Rightarrow> bool) \<Rightarrow> ('d \<Rightarrow> key \<rightharpoonup> val) \<Rightarrow>
    ('w \<Rightarrow> bool) \<Rightarrow> ('d \<Rightarrow> key \<rightharpoonup> val) \<Rightarrow> ('d \<Rightarrow> 'd) \<Rightarrow> bool" where
  "redb_survives L dinv view immediate disk restart \<longleftrightarrow>
     drains dinv view disk (rd_begin_read L) \<and>
     drains dinv view disk (rd_begin_write L) \<and>
     (\<forall>w. drains dinv view disk (\<lambda>d. rd_commit L d w)) \<and>
     (\<forall>w. drains dinv view disk (\<lambda>d. ((), rd_abort L d w))) \<and>
     (\<forall>d w d'. dinv d \<longrightarrow> immediate w \<longrightarrow> rd_commit L d w = (Inr (), d') \<longrightarrow> disk d' = view d') \<and>
     (\<forall>d. dinv d \<longrightarrow> dinv (restart d) \<and> view (restart d) = disk d)"

section \<open>The contracts\<close>

lemma RedbStore_sel [simp]:
  "get (RedbStore L) = redb_get L" "seek (RedbStore L) = redb_seek L"
  "seek_back (RedbStore L) = redb_seek_back L" "commit (RedbStore L) = redb_commit L"
  by (simp_all add: RedbStore_def)

lemma redb_readsD:
  assumes "redb_reads L dinv view rview tview"
  shows "dinv d \<Longrightarrow> rd_begin_read L d = (r, d') \<Longrightarrow>
      dinv d' \<and> view d' = view d \<and> (\<forall>x. r = Inr x \<longrightarrow> rview x = view d)"
    "rd_read_table L x REDB_TABLE = Inr t \<Longrightarrow> tview t = rview x"
    "rd_get L t k = Inr v \<Longrightarrow> v = tview t k"
    "rd_range_next L t k = Inr q \<Longrightarrow> transpose_next q = Inr kv \<Longrightarrow> least_from (tview t) k kv"
    "rd_range_next_back L t k = Inr q \<Longrightarrow> transpose_next q = Inr kv \<Longrightarrow> greatest_upto (tview t) k kv"
  using assms unfolding redb_reads_def by blast+

lemma redb_read_sound:
  assumes "redb_reads L dinv view rview tview" and "dinv d" and "redb_read L d use = (r, d')"
  shows "dinv d' \<and> view d' = view d" "r = Inr a \<Longrightarrow> \<exists>t. tview t = view d \<and> use t = Inr a"
proof -
  note reads = redb_readsD [OF assms(1)]
  obtain x d1 where x: "rd_begin_read L d = (x, d1)" by fastforce
  note b = reads(1) [OF assms(2) x]
  have "d' = d1" using assms(3) x by (cases x) (auto simp: redb_read_def)
  with b show "dinv d' \<and> view d' = view d" by blast
  show "\<exists>t. tview t = view d \<and> use t = Inr a" if "r = Inr a"
    using assms(3) x b reads(2) that by (cases x) (fastforce simp: redb_read_def split: sum.splits)+
qed

lemma redb_writesD:
  assumes "redb_writes L dinv view staged immediate"
  shows "dinv d \<Longrightarrow> rd_begin_write L d = (r, d') \<Longrightarrow>
      dinv d' \<and> view d' = view d \<and> (\<forall>w. r = Inr w \<longrightarrow> staged w = view d \<and> immediate w)"
    "rd_set_durability_none L w = (Inr (), w') \<Longrightarrow> staged w' = staged w"
    "stages staged immediate (\<lambda>w. rd_open_table L w REDB_TABLE) (\<lambda>m. m)"
    "stages staged immediate (\<lambda>w. rd_insert L w REDB_TABLE k v) (\<lambda>m. m(k \<mapsto> v))"
    "stages staged immediate (\<lambda>w. rd_remove L w REDB_TABLE k) (\<lambda>m. m(k := None))"
    "write_lawful dinv view (\<lambda>w m. staged w) (rd_commit L)"
    "silent dinv view (\<lambda>d. ((), rd_abort L d x))"
  using assms unfolding redb_writes_def by blast+

lemma stagesD:
  "stages staged immediate f change \<Longrightarrow> f w = (r, w') \<Longrightarrow> immediate w' = immediate w \<and> (r = Inr () \<longrightarrow> staged w' = change (staged w))"
  unfolding stages_def by blast

lemma redb_apply_staged:
  assumes "redb_writes L dinv view staged immediate" and "redb_apply L w ops = (r, w')"
  shows "immediate w' = immediate w \<and> (r = Inr () \<longrightarrow> staged w' = apply_ops (staged w) ops)"
  using assms(2)
proof (induction ops arbitrary: w)
  case (Cons x ops)
  obtain q w1 where q: "redb_add L w x = (q, w1)" by fastforce
  have s: "immediate w1 = immediate w \<and> (q = Inr () \<longrightarrow> staged w1 = apply_op (staged w) x)"
    using q stagesD [OF redb_writesD(4) [OF assms(1)], of w] stagesD [OF redb_writesD(5) [OF assms(1)], of w]
    by (cases x) fastforce+
  show ?case using Cons.prems Cons.IH [of w1] s q by (cases q) auto
qed simp

lemma redb_fill_staged:
  assumes "redb_writes L dinv view staged immediate" and "redb_fill L w ops e = (Inr (), w')"
  shows "staged w' = apply_ops (staged w) ops" "e \<Longrightarrow> immediate w' = immediate w"
proof -
  note writes = redb_writesD [OF assms(1)]
  obtain q w1 where q: "(if e then (Inr (), w) else rd_set_durability_none L w) = (q, w1)" by fastforce
  obtain p w2 where p: "rd_open_table L w1 REDB_TABLE = (p, w2)" by fastforce
  have "q = Inr () \<and> p = Inr () \<and> redb_apply L w2 ops = (Inr (), w')"
    using assms(2) q p by (cases q; cases p) (auto simp: redb_fill_def)
  moreover from this have "staged w1 = staged w" "e \<Longrightarrow> w1 = w"
    using q writes(2) by (auto split: if_splits)
  moreover have "immediate w2 = immediate w1 \<and> (p = Inr () \<longrightarrow> staged w2 = staged w1)"
    using stagesD [OF writes(3) p] .
  ultimately show "staged w' = apply_ops (staged w) ops" "e \<Longrightarrow> immediate w' = immediate w"
    using redb_apply_staged [OF assms(1), of w2 ops "Inr ()" w'] by auto
qed

lemma redb_commit_effect:
  assumes "redb_writes L dinv view staged immediate" and "dinv d" and "redb_commit L d ops e = (r, d')"
  shows "dinv d' \<and> (view d' = view d \<or> view d' = apply_ops (view d) ops) \<and>
      (r = Inr () \<longrightarrow> view d' = apply_ops (view d) ops)"
proof -
  note writes = redb_writesD [OF assms(1)]
  obtain q d1 where q: "rd_begin_write L d = (q, d1)" by fastforce
  note b = writes(1) [OF assms(2) q]
  show ?thesis
  proof (cases q)
    case (Inl x)
    with assms(3) q b show ?thesis by (auto simp: redb_commit_def)
  next
    case (Inr w)
    obtain p w' where p: "redb_fill L w ops e = (p, w')" by fastforce
    show ?thesis
    proof (cases p)
      case (Inl x)
      with assms(3) q p Inr have "d' = rd_abort L d1 w'" "r = Inl x" by (auto simp: redb_commit_def)
      with silentD [OF writes(7) [of w'], of d1 "()" d'] b show ?thesis by auto
    next
      case r: (Inr u)
      with assms(3) q p Inr have c: "rd_commit L d1 w' = (r, d')" by (auto simp: redb_commit_def)
      have "staged w' = apply_ops (view d) ops"
        using redb_fill_staged(1) [OF assms(1)] p r b Inr by auto
      with write_lawfulD [OF writes(6) _ c] b show ?thesis by auto
    qed
  qed
qed

lemma redb_store_contract:
  assumes "redb_lawful L dinv view rview tview staged immediate"
  shows "store_contract (RedbStore L) dinv view"
proof (rule backend_contract)
  have reads: "redb_reads L dinv view rview tview" and writes: "redb_writes L dinv view staged immediate"
    using assms by (simp_all add: redb_lawful_def)
  note sound = redb_read_sound [OF reads] and ok = redb_readsD [OF reads]
  show "get_lawful dinv view (get (RedbStore L))"
    unfolding get_lawful_def RedbStore_sel redb_get_def using sound ok(3) by metis
  show "dinv d' \<and> view d' = view d \<and> (\<forall>kv. r = Inr kv \<longrightarrow> least_from (view d) k kv)"
    if d: "dinv d" "seek (RedbStore L) d k = (r, d')" for d k r d'
    using sound [OF d(1), of _ r d'] ok(4) [of _ k] d(2)
    by (fastforce simp: redb_seek_def split: sum.splits)
  show "dinv d' \<and> view d' = view d \<and> (\<forall>kv. r = Inr kv \<longrightarrow> greatest_upto (view d) k kv)"
    if d: "dinv d" "seek_back (RedbStore L) d k = (r, d')" for d k r d'
    using sound [OF d(1), of _ r d'] ok(5) [of _ k] d(2)
    by (fastforce simp: redb_seek_back_def split: sum.splits)
  show "dinv d' \<and> (view d' = view d \<or> view d' = apply_ops (view d) ops) \<and>
      (r = Inr () \<longrightarrow> view d' = apply_ops (view d) ops)"
    if "dinv d" "commit (RedbStore L) d ops e = (r, d')" for d ops e r d'
    using redb_commit_effect [OF writes that(1)] that(2) by simp
qed

lemma redb_read_drains:
  "drains dinv view disk (rd_begin_read L) \<Longrightarrow> drains dinv view disk (\<lambda>d. redb_read L d use)"
  unfolding drains_def redb_read_def by (fastforce split: prod.splits sum.splits elim: and_then.elims)

lemma redb_commit_drains:
  assumes "redb_writes L dinv view staged immediate" and "redb_survives L dinv view immediate disk restart"
  shows "drains dinv view disk (\<lambda>d. redb_commit L d ops e)"
    and "dinv d \<Longrightarrow> redb_commit L d ops True = (Inr (), d') \<Longrightarrow> disk d' = view d'"
proof -
  note writes = redb_writesD [OF assms(1)] and live = assms(2) [unfolded redb_survives_def]
  show "drains dinv view disk (\<lambda>d. redb_commit L d ops e)"
    unfolding drains_def
  proof (intro allI impI)
    fix d r d' j assume d: "dinv d" and c: "redb_commit L d ops e = (r, d')"
    obtain q d1 where q: "rd_begin_write L d = (q, d1)" by fastforce
    note b = writes(1) [OF d q]
    have d1: "disk d1 j = disk d j \<or> disk d1 j = view d j \<or> disk d1 j = view d1 j"
      using live d q by (auto dest: drainsD)
    have next_step: "disk d' j = disk d1 j \<or> disk d' j = view d1 j \<or> disk d' j = view d' j"
    proof (cases "d' = d1")
      case False
      with c q obtain w where "d' = rd_abort L d1 w \<or> rd_commit L d1 w = (r, d')"
        by (cases q) (auto simp: redb_commit_def split: prod.splits sum.splits)
      moreover have "drains dinv view disk (\<lambda>d. rd_commit L d w)"
        "drains dinv view disk (\<lambda>d. ((), rd_abort L d w))" using live by blast+
      ultimately show ?thesis using b by (elim disjE) (auto dest!: drainsD [where j = j and d' = d'])
    qed simp
    with d1 b show "disk d' j = disk d j \<or> disk d' j = view d j \<or> disk d' j = view d' j" by auto
  qed
  show "disk d' = view d'" if d: "dinv d" and c: "redb_commit L d ops True = (Inr (), d')"
  proof -
    obtain q d1 where q: "rd_begin_write L d = (q, d1)" by fastforce
    with c obtain w where w: "q = Inr w" by (cases q) (auto simp: redb_commit_def)
    obtain p w' where p: "redb_fill L w ops True = (p, w')" by fastforce
    with c q w have "p = Inr ()" and t: "rd_commit L d1 w' = (Inr (), d')"
      by (auto simp: redb_commit_def split: sum.splits)
    with redb_fill_staged(2) [OF assms(1)] p writes(1) [OF d q] w have "dinv d1" "immediate w'" by auto
    with live t show ?thesis by blast
  qed
qed

text \<open>C25. Over a redb database that behaves as documented, the \<open>RedbStore\<close> backend keeps the whole
  contract of a durable \<open>Store\<close>; an operation that fails inside the transaction changes nothing.\<close>

theorem redb_durable_store:
  assumes "redb_lawful L dinv view rview tview staged immediate"
    and "redb_survives L dinv view immediate disk restart"
  shows "durable_store (RedbStore L) dinv view disk restart"
proof (rule backend_durable)
  have writes: "redb_writes L dinv view staged immediate"
    using assms(1) by (simp add: redb_lawful_def)
  note live = assms(2) [unfolded redb_survives_def]
  show "store_contract (RedbStore L) dinv view" by (rule redb_store_contract [OF assms(1)])
  show "drains dinv view disk (\<lambda>d. get (RedbStore L) d k)"
    "drains dinv view disk (\<lambda>d. seek (RedbStore L) d k)"
    "drains dinv view disk (\<lambda>d. seek_back (RedbStore L) d k)" for k
    using live by (simp_all add: redb_get_def redb_seek_def redb_seek_back_def redb_read_drains)
  show "drains dinv view disk (\<lambda>d. commit (RedbStore L) d ops e)" for ops e
    using redb_commit_drains(1) [OF writes assms(2)] by simp
  show "disk d' = view d'" if "dinv d" "commit (RedbStore L) d ops True = (Inr (), d')" for d ops d'
    using redb_commit_drains(2) [OF writes assms(2)] that by simp
  show "dinv (restart d) \<and> view (restart d) = disk d" if "dinv d" for d
    using live that by blast
qed

section \<open>A library that keeps the laws\<close>

text \<open>A write transaction is the map it started from, the operations so far and its durability. A
  table that is not in order cannot arise, and is answered with an error.\<close>

type_synonym sm_txn = "mem_store \<times> Op list \<times> bool"

fun sm_txn_add :: "sm_txn \<Rightarrow> Op \<Rightarrow> sm_txn" where
  "sm_txn_add (m, ops, now) x = (m, ops @ [x], now)"

fun sm_txn_lazy :: "sm_txn \<Rightarrow> sm_txn" where
  "sm_txn_lazy (m, ops, now) = (m, ops, False)"

fun sm_txn_commit :: "shared_mem \<Rightarrow> sm_txn \<Rightarrow> (fault_error + unit) \<times> shared_mem" where
  "sm_txn_commit d (m, ops, now) =
     (if bt_ordered m then
        (Inr (), d\<lparr>live := foldl mem_apply m ops,
                   synced := if now then foldl mem_apply m ops else synced d\<rparr>)
      else (Inl FaultError, d))"

fun sm_txn_staged :: "sm_txn \<Rightarrow> key \<rightharpoonup> val" where
  "sm_txn_staged (m, ops, now) = apply_ops (map_of m) ops"

fun sm_txn_now :: "sm_txn \<Rightarrow> bool" where
  "sm_txn_now (m, ops, now) = now"

definition sm_redb :: "(shared_mem, mem_store, mem_store, sm_txn, fault_error) redb" where
  "sm_redb = \<lparr>rd_create = \<lambda>path. Inr sm_new,
     rd_begin_read = \<lambda>d. (Inr (live d), d), rd_read_table = \<lambda>r name. Inr r,
     rd_get = \<lambda>t k. Inr (map_of t k),
     rd_range_next = \<lambda>t k. if bt_ordered t then Inr (map_option Inr (bt_next k t)) else Inl FaultError,
     rd_range_next_back =
       \<lambda>t k. if bt_ordered t then Inr (map_option Inr (bt_next_back k t)) else Inl FaultError,
     rd_begin_write = \<lambda>d. (Inr (live d, [], True), d),
     rd_set_durability_none = \<lambda>w. (Inr (), sm_txn_lazy w),
     rd_open_table = \<lambda>w name. (Inr (), w),
     rd_insert = \<lambda>w name k v. (Inr (), sm_txn_add w (Put k v)),
     rd_remove = \<lambda>w name k. (Inr (), sm_txn_add w (Delete k)),
     rd_commit = sm_txn_commit, rd_abort = \<lambda>d w. d\<rparr>"

lemma sm_txn_add_sel [simp]:
  "sm_txn_staged (sm_txn_add w x) = apply_op (sm_txn_staged w) x" "sm_txn_now (sm_txn_add w x) = sm_txn_now w"
  "sm_txn_staged (sm_txn_lazy w) = sm_txn_staged w"
  by (cases w; simp)+

lemma sm_txn_commit_effect:
  assumes "sm_inv d" and "sm_txn_commit d w = (r, d')"
  shows "sm_inv d'" "sm_view d' = sm_txn_staged w \<or> sm_view d' = sm_view d \<and> r \<noteq> Inr ()"
    "sm_stable d' = sm_stable d \<or> sm_stable d' = sm_view d'"
    "sm_txn_now w \<Longrightarrow> r = Inr () \<Longrightarrow> sm_stable d' = sm_view d'"
  using assms by (cases w; auto simp: sm_inv_def mem_apply_all split: if_splits)+

lemma sm_redb_lawful:
  "redb_lawful sm_redb sm_inv sm_view map_of map_of sm_txn_staged sm_txn_now"
proof -
  have "redb_reads sm_redb sm_inv sm_view map_of map_of"
    by (auto simp: redb_reads_def sm_redb_def bt_next_least bt_next_back_greatest split: if_splits)
  moreover have "write_lawful sm_inv sm_view (\<lambda>w m. sm_txn_staged w) sm_txn_commit"
    unfolding write_lawful_def using sm_txn_commit_effect(1,2) by blast
  then have "redb_writes sm_redb sm_inv sm_view sm_txn_staged sm_txn_now"
    by (simp add: redb_writes_def sm_redb_def stages_def silent_def)
  ultimately show ?thesis by (simp add: redb_lawful_def)
qed

lemma sm_redb_survives: "redb_survives sm_redb sm_inv sm_view sm_txn_now sm_stable sm_crash"
proof -
  have "drains sm_inv sm_view sm_stable (\<lambda>d. sm_txn_commit d w)" for w
    unfolding drains_def using sm_txn_commit_effect(3) by metis
  with sm_txn_commit_effect(4) show ?thesis
    by (fastforce simp: redb_survives_def sm_redb_def sm_restart drains_def [of sm_inv sm_view sm_stable "\<lambda>d. (r d, d)" for r]
        drains_def [of sm_inv sm_view sm_stable "\<lambda>d. ((), d)"])
qed

theorem redb_durable_store_witness:
  "durable_store (RedbStore sm_redb) sm_inv sm_view sm_stable sm_crash \<and>
   fst (commit (RedbStore sm_redb) sm_new [Put [1] [7]] True) = Inr ()"
proof
  show "durable_store (RedbStore sm_redb) sm_inv sm_view sm_stable sm_crash"
    by (rule redb_durable_store [OF sm_redb_lawful sm_redb_survives])
  show "fst (commit (RedbStore sm_redb) sm_new [Put [1] [7]] True) = Inr ()"
    by (simp add: redb_commit_def redb_fill_def sm_redb_def sm_new_def)
qed

end
