(* ===== verification/Rocks.thy ===== *)
theory Rocks imports Backends begin

text \<open>
  \<open>RocksStore\<close> (\<open>src/src/store.rs\<close>, lines 284--354) over a RocksDB database. A seek is the first
  step of an iterator in the wanted direction; a commit is one \<open>write_opt\<close> of a write batch,
  whose \<open>sync\<close> flag is the durable one. \<open>rocks_lawful\<close> and \<open>rocks_survives\<close> are what RocksDB
  documents of these calls.
\<close>

section \<open>The backend\<close>

datatype Direction = Forward | Reverse

record ('d, 'b, 'e) rocks =
  rk_open :: "string \<Rightarrow> 'e + 'd"
  rk_get :: "'d \<Rightarrow> key \<Rightarrow> ('e + val option) \<times> 'd"
  rk_iterator_next :: "'d \<Rightarrow> Direction \<Rightarrow> key \<Rightarrow> ('e + KeyValue) option \<times> 'd"
  rk_batch :: 'b
  rk_put :: "'b \<Rightarrow> key \<Rightarrow> val \<Rightarrow> 'b"
  rk_delete :: "'b \<Rightarrow> key \<Rightarrow> 'b"
  rk_write_opt :: "'d \<Rightarrow> bool \<Rightarrow> 'b \<Rightarrow> ('e + unit) \<times> 'd"

text \<open>\<open>RocksStore::from_db\<close> and \<open>RocksStore::open\<close>\<close>

definition rocks_from_db :: "'d \<Rightarrow> 'd" where
  "rocks_from_db db = db"

definition rocks_open :: "('d, 'b, 'e) rocks \<Rightarrow> string \<Rightarrow> 'e + 'd" where
  "rocks_open L path = (case rk_open L path of Inl e \<Rightarrow> Inl e | Inr db \<Rightarrow> Inr db)"

definition rocks_seek :: "('d, 'b, 'e) rocks \<Rightarrow> 'd \<Rightarrow> key \<Rightarrow> ('e + KeyValue option) \<times> 'd" where
  "rocks_seek L db from =
     (case rk_iterator_next L db Forward from of
        (Some (Inr (k, v)), db) \<Rightarrow> (Inr (Some (k, v)), db)
      | (Some (Inl e), db) \<Rightarrow> (Inl e, db)
      | (None, db) \<Rightarrow> (Inr None, db))"

definition rocks_seek_back :: "('d, 'b, 'e) rocks \<Rightarrow> 'd \<Rightarrow> key \<Rightarrow> ('e + KeyValue option) \<times> 'd" where
  "rocks_seek_back L db limit =
     (case rk_iterator_next L db Reverse limit of
        (Some (Inr (k, v)), db) \<Rightarrow> (Inr (Some (k, v)), db)
      | (Some (Inl e), db) \<Rightarrow> (Inl e, db)
      | (None, db) \<Rightarrow> (Inr None, db))"

fun rocks_add :: "('d, 'b, 'e) rocks \<Rightarrow> 'b \<Rightarrow> Op \<Rightarrow> 'b" where
  "rocks_add L batch (Put k v) = rk_put L batch k v"
| "rocks_add L batch (Delete k) = rk_delete L batch k"

definition rocks_commit :: "('d, 'b, 'e) rocks \<Rightarrow> 'd \<Rightarrow> Op list \<Rightarrow> bool \<Rightarrow> ('e + unit) \<times> 'd" where
  "rocks_commit L db ops durable = rk_write_opt L db durable (foldl (rocks_add L) (rk_batch L) ops)"

definition RocksStore :: "('d, 'b, 'e) rocks \<Rightarrow> ('d, 'e) Store" where
  "RocksStore L = \<lparr>get = rk_get L, seek = rocks_seek L, seek_back = rocks_seek_back L, commit = rocks_commit L\<rparr>"

section \<open>What RocksDB documents\<close>

definition rocks_lawful :: "('d, 'b, 'e) rocks \<Rightarrow> ('d \<Rightarrow> bool) \<Rightarrow> ('d \<Rightarrow> key \<rightharpoonup> val) \<Rightarrow>
    ('b \<Rightarrow> (key \<rightharpoonup> val) \<Rightarrow> key \<rightharpoonup> val) \<Rightarrow> bool" where
  "rocks_lawful L dinv view upd \<longleftrightarrow>
     get_lawful dinv view (rk_get L) \<and>
     next_lawful dinv view least_from (\<lambda>d. rk_iterator_next L d Forward) \<and>
     next_lawful dinv view greatest_upto (\<lambda>d. rk_iterator_next L d Reverse) \<and>
     batch_lawful (rk_batch L) (rk_put L) (rk_delete L) upd \<and>
     (\<forall>sync. write_lawful dinv view upd (\<lambda>d. rk_write_opt L d sync))"

text \<open>A synchronous write syncs the write-ahead log, and with it every earlier write.\<close>

definition rocks_survives :: "('d, 'b, 'e) rocks \<Rightarrow> ('d \<Rightarrow> bool) \<Rightarrow> ('d \<Rightarrow> key \<rightharpoonup> val) \<Rightarrow>
    ('d \<Rightarrow> key \<rightharpoonup> val) \<Rightarrow> ('d \<Rightarrow> 'd) \<Rightarrow> bool" where
  "rocks_survives L dinv view disk restart \<longleftrightarrow>
     (\<forall>k. drains dinv view disk (\<lambda>d. rk_get L d k)) \<and>
     (\<forall>dir k. drains dinv view disk (\<lambda>d. rk_iterator_next L d dir k)) \<and>
     (\<forall>sync b. drains dinv view disk (\<lambda>d. rk_write_opt L d sync b)) \<and>
     (\<forall>d b d'. dinv d \<longrightarrow> rk_write_opt L d True b = (Inr (), d') \<longrightarrow> disk d' = view d') \<and>
     (\<forall>d. dinv d \<longrightarrow> dinv (restart d) \<and> view (restart d) = disk d)"

section \<open>The contracts\<close>

lemma RocksStore_sel [simp]:
  "get (RocksStore L) = rk_get L" "seek (RocksStore L) = rocks_seek L"
  "seek_back (RocksStore L) = rocks_seek_back L" "commit (RocksStore L) = rocks_commit L"
  by (simp_all add: RocksStore_def)

lemma rocks_seek_transpose:
  "rocks_seek L d k = (case rk_iterator_next L d Forward k of (r, d') \<Rightarrow> (transpose_next r, d'))"
  "rocks_seek_back L d k = (case rk_iterator_next L d Reverse k of (r, d') \<Rightarrow> (transpose_next r, d'))"
  by (auto simp: rocks_seek_def rocks_seek_back_def split: prod.split option.split sum.split)

lemma rocks_lawfulD:
  assumes "rocks_lawful L dinv view upd"
  shows "get_lawful dinv view (rk_get L)"
    "next_lawful dinv view least_from (\<lambda>d. rk_iterator_next L d Forward)"
    "next_lawful dinv view greatest_upto (\<lambda>d. rk_iterator_next L d Reverse)"
    "batch_lawful (rk_batch L) (rk_put L) (rk_delete L) upd"
    "write_lawful dinv view upd (\<lambda>d. rk_write_opt L d sync)"
  using assms unfolding rocks_lawful_def by blast+

lemma rocks_store_contract:
  assumes "rocks_lawful L dinv view upd"
  shows "store_contract (RocksStore L) dinv view"
proof (rule backend_contract)
  note laws = rocks_lawfulD [OF assms]
  show "get_lawful dinv view (get (RocksStore L))" using laws(1) by simp
  show "dinv d' \<and> view d' = view d \<and> (\<forall>kv. r = Inr kv \<longrightarrow> least_from (view d) k kv)"
    if "dinv d" "seek (RocksStore L) d k = (r, d')" for d k r d'
    using that next_lawfulD [OF laws(2), of d k] by (auto simp: rocks_seek_transpose split: prod.splits)
  show "dinv d' \<and> view d' = view d \<and> (\<forall>kv. r = Inr kv \<longrightarrow> greatest_upto (view d) k kv)"
    if "dinv d" "seek_back (RocksStore L) d k = (r, d')" for d k r d'
    using that next_lawfulD [OF laws(3), of d k] by (auto simp: rocks_seek_transpose split: prod.splits)
  fix d ops e r d' assume d: "dinv d" "commit (RocksStore L) d ops e = (r, d')"
  have "upd (foldl (rocks_add L) (rk_batch L) ops) (view d) = apply_ops (view d) ops"
    by (rule batch_updates [OF laws(4)]) simp_all
  with write_lawfulD [OF laws(5) d(1)] d(2)
  show "dinv d' \<and> (view d' = view d \<or> view d' = apply_ops (view d) ops) \<and>
      (r = Inr () \<longrightarrow> view d' = apply_ops (view d) ops)" by (fastforce simp: rocks_commit_def)
qed

text \<open>C27. Over a RocksDB database that behaves as documented, the \<open>RocksStore\<close> backend keeps the
  whole contract of a durable \<open>Store\<close>.\<close>

theorem rocks_durable_store:
  assumes "rocks_lawful L dinv view upd" and "rocks_survives L dinv view disk restart"
  shows "durable_store (RocksStore L) dinv view disk restart"
proof (rule backend_durable)
  show "store_contract (RocksStore L) dinv view" by (rule rocks_store_contract [OF assms(1)])
  note live = assms(2) [unfolded rocks_survives_def]
  show "drains dinv view disk (\<lambda>d. get (RocksStore L) d k)" for k using live by simp
  show "drains dinv view disk (\<lambda>d. seek (RocksStore L) d k)"
    "drains dinv view disk (\<lambda>d. seek_back (RocksStore L) d k)" for k
    using live by (auto simp: drains_def rocks_seek_transpose split: prod.splits)
  show "drains dinv view disk (\<lambda>d. commit (RocksStore L) d ops e)" for ops e
    using live by (simp add: rocks_commit_def)
  show "disk d' = view d'" if "dinv d" "commit (RocksStore L) d ops True = (Inr (), d')" for d ops d'
    using live that by (simp add: rocks_commit_def)
  show "dinv (restart d) \<and> view (restart d) = disk d" if "dinv d" for d
    using live that by blast
qed

section \<open>A library that keeps the laws\<close>

definition sm_rocks :: "(shared_mem, Op list, fault_error) rocks" where
  "sm_rocks = \<lparr>rk_open = \<lambda>path. Inr sm_new, rk_get = sm_get,
     rk_iterator_next = \<lambda>d dir. sm_next (case dir of Forward \<Rightarrow> sm_seek | Reverse \<Rightarrow> sm_seek_back) d,
     rk_batch = [], rk_put = \<lambda>b k v. b @ [Put k v], rk_delete = \<lambda>b k. b @ [Delete k],
     rk_write_opt = \<lambda>d sync b. sm_commit d b sync\<rparr>"

lemma sm_rocks_lawful: "rocks_lawful sm_rocks sm_inv sm_view sm_updates"
  by (simp add: rocks_lawful_def sm_rocks_def sm_get_lawful sm_next_lawful sm_batch_lawful sm_write_lawful)

lemma sm_rocks_survives: "rocks_survives sm_rocks sm_inv sm_view sm_stable sm_crash"
  using sm_commit_effect(4)
  by (fastforce simp: rocks_survives_def sm_rocks_def sm_drains sm_restart split: Direction.split)

theorem rocks_durable_store_witness:
  "durable_store (RocksStore sm_rocks) sm_inv sm_view sm_stable sm_crash \<and>
   fst (commit (RocksStore sm_rocks) sm_new [Put [1] [7]] True) = Inr ()"
proof
  show "durable_store (RocksStore sm_rocks) sm_inv sm_view sm_stable sm_crash"
    by (rule rocks_durable_store [OF sm_rocks_lawful sm_rocks_survives])
  show "fst (commit (RocksStore sm_rocks) sm_new [Put [1] [7]] True) = Inr ()"
    by (simp add: rocks_commit_def sm_rocks_def sm_commit_def sm_new_def)
qed

end
