(* ===== verification/IntegrationTests.thy ===== *)
theory IntegrationTests imports Twins Typed AsyncTests Sled Redb Rocks begin

text \<open>
  Integration tests of the crate (\<open>src/tests/fault.rs\<close>, \<open>src/tests/queue.rs\<close>, \<open>src/tests/typed.rs\<close>), those
  that run on one thread, as executable definitions in the style of \<open>UnitTests\<close>. The tests over
  \<open>MemStore\<close> and over the disk \<open>SharedMem\<close> are evaluated. The tests of the durable backends
  (\<open>contract\<close> of \<open>src/store.rs\<close>, and reopening the database in \<open>tests/queue.rs\<close>) take the backend
  as an argument; they are evaluated on \<open>MemStore\<close> and carried over by \<open>Twins\<close>.
\<close>

abbreviation SM :: "(shared_mem, fault_error) Store" where
  "SM \<equiv> SharedMem"

text \<open>\<open>while let Some(item) = rx.reserve().unwrap() { ... }\<close>, over local variables and the queue.\<close>

partial_function (option) while_reserved ::
  "('s, 'e) Store \<Rightarrow> (Reserved \<Rightarrow> 'a \<Rightarrow> 's Shared \<Rightarrow> ('a \<times> 's Shared) option) \<Rightarrow> 'a \<Rightarrow> 's Shared \<Rightarrow>
    ('a \<times> 's Shared) option" where
  "while_reserved S body x q =
     (case reserve S q of
        Some (Ok None, q) \<Rightarrow> Some (x, q)
      | Some (Ok (Some item), q) \<Rightarrow>
          (case body item x q of None \<Rightarrow> None | Some (x, q) \<Rightarrow> while_reserved S body x q)
      | _ \<Rightarrow> None)"

text \<open>The two loop bodies: collect the number and ack; ack the even numbers and hold the odd ones.\<close>

definition collect ::
  "('s, 'e) Store \<Rightarrow> Reserved \<Rightarrow> u64 list \<Rightarrow> 's Shared \<Rightarrow> (u64 list \<times> 's Shared) option" where
  "collect S item seqs q = map_option (Pair (seqs @ [reserved_seq item])) (acked S item q)"

definition hold_odd ::
  "('s, 'e) Store \<Rightarrow> Reserved \<Rightarrow> Reserved list \<Rightarrow> 's Shared \<Rightarrow> (Reserved list \<times> 's Shared) option" where
  "hold_odd S item held q =
     (if reserved_seq item mod 2 = 0 then map_option (Pair held) (acked S item q) else Some (held @ [item], q))"

section \<open>The tests of tests/fault.rs\<close>

text \<open>Dropping the handles and the guards leaves the store.\<close>

definition item :: "nat \<Rightarrow> val" where
  "item i = bs (''item-'' @ decimal i)"

definition crash_and_reopen_loses_no_item :: "unit option" where
  "crash_and_reopen_loses_no_item = do {
     c \<leftarrow> builder_capacity 64 (builder_new sm_new);
     q \<leftarrow> opened SM c;
     q \<leftarrow> each (\<lambda>i. pushed SM (item i)) [0..<20] q;
     (held, q) \<leftarrow> while_reserved SM (hold_odd SM) [] q;
     q \<leftarrow> each (\<lambda>item q. Some (drop_reserved q item)) held q;
     c \<leftarrow> builder_capacity 64 (builder_new (store q));
     q \<leftarrow> opened SM c;
     (recovered, q) \<leftarrow> while_reserved SM (collect SM) [] q;
     assert_that (sort recovered = filter (\<lambda>s. s mod 2 = 1) (map of_nat [0..<20]))}"

definition commit_failure_is_reported_and_state_stays_consistent :: "unit option" where
  "commit_failure_is_reported_and_state_stays_consistent = do {
     c \<leftarrow> builder_capacity 8 (builder_new sm_new);
     q \<leftarrow> opened SM c;
     q \<leftarrow> pushed SM (bs ''a'') q;
     let q = q\<lparr>store := sm_fail_commit_number (store q) (commits (store q))\<rparr>;
     q \<leftarrow> fails_with (Push_Store FaultError) (push SM q (bs ''b''));
     assert_that (queue_len q = 1);
     let q = q\<lparr>store := sm_stop_failing (store q)\<rparr>;
     q \<leftarrow> pushed SM (bs ''c'') q;
     assert_that (queue_len q = 2);
     (first, q) \<leftarrow> unwrap_some (reserve SM q);
     assert_that (reserved_deref first = bs ''a'');
     q \<leftarrow> acked SM first q;
     (second, q) \<leftarrow> unwrap_some (reserve SM q);
     assert_that (reserved_deref second = bs ''c'');
     q \<leftarrow> acked SM second q;
     q \<leftarrow> unwrap_none (reserve SM q);
     Some ()}"

definition non_durable_acks_redeliver_after_a_crash :: "unit option" where
  "non_durable_acks_redeliver_after_a_crash = do {
     c \<leftarrow> builder_capacity 8 (builder_new sm_new);
     q \<leftarrow> opened SM (builder_durable_acks False (builder_durability Sync c));
     q \<leftarrow> pushed SM (bs ''a'') q;
     q \<leftarrow> pushed SM (bs ''b'') q;
     (r, q) \<leftarrow> unwrap_some (reserve SM q);
     q \<leftarrow> acked SM r q;
     (r, q) \<leftarrow> unwrap_some (reserve SM q);
     q \<leftarrow> acked SM r q;
     q \<leftarrow> unwrap_none (reserve SM q);
     c \<leftarrow> builder_capacity 8 (builder_new (sm_crash (store q)));
     q \<leftarrow> opened SM c;
     (seqs, q) \<leftarrow> while_reserved SM (collect SM) [] q;
     assert_that (sort seqs = [0, 1])}"

definition durable_acks_survive_a_crash :: "unit option" where
  "durable_acks_survive_a_crash = do {
     c \<leftarrow> builder_capacity 8 (builder_new sm_new);
     q \<leftarrow> opened SM (builder_durability Sync c);
     q \<leftarrow> pushed SM (bs ''a'') q;
     (r, q) \<leftarrow> unwrap_some (reserve SM q);
     q \<leftarrow> acked SM r q;
     c \<leftarrow> builder_capacity 8 (builder_new (sm_crash (store q)));
     q \<leftarrow> opened SM c;
     q \<leftarrow> unwrap_none (reserve SM q);
     Some ()}"

lemmas fault_run = collect_def hold_odd_def while_reserved.simps test_run give_back_def sm_defs sm_new_def sm_fail_commit_number_def sm_stop_failing_def builder_durable_acks_def

lemma fault_tests:
  "commit_failure_is_reported_and_state_stays_consistent = Some ()"
  "durable_acks_survive_a_crash = Some ()"
  by (simp_all add: commit_failure_is_reported_and_state_stays_consistent_def durable_acks_survive_a_crash_def
      fault_run cong: bind_front)

lemma redelivery_test: "non_durable_acks_redeliver_after_a_crash = Some ()"
  by (simp add: non_durable_acks_redeliver_after_a_crash_def fault_run cong: bind_front)

lemma twenty: "[0..<20] = [0, 1, 2, 3, 4, 5, 6, 7, 8, 9, 10, 11, 12, 13, 14, 15, 16, 17, 18, 19]"
  by (simp add: upt_rec)

lemma odds: "sort ([1, 3, 5, 7, 9, 11, 13, 15, 17, 19] :: u64 list) = [1, 3, 5, 7, 9, 11, 13, 15, 17, 19]"
  by (rule sorted_sort_id) simp

lemma length_item: "i < 10 \<Longrightarrow> length (item i) = 6" "10 \<le> i \<Longrightarrow> i < 100 \<Longrightarrow> length (item i) = 7"
  by (simp_all add: item_def bs_def decimal.simps)

lemma crash_test: "crash_and_reopen_loses_no_item = Some ()"
  by (simp add: crash_and_reopen_loses_no_item_def length_item twenty odds fault_run
      del: sort_key_simps cong: bind_front)

section \<open>The tests of tests/queue.rs and tests/typed.rs\<close>

definition push_reserve_ack_roundtrip :: "unit option" where
  "push_reserve_ack_roundtrip = do {
     q \<leftarrow> UnitTests.mem 8;
     q \<leftarrow> pushed MemU (bs ''a'') q;
     q \<leftarrow> pushed MemU (bs ''b'') q;
     assert_that (queue_len q = 2);
     (a, q) \<leftarrow> unwrap_some (reserve MemU q);
     assert_that (reserved_deref a = bs ''a'');
     q \<leftarrow> acked MemU a q;
     assert_that (queue_len q = 1);
     (b, q) \<leftarrow> unwrap_some (reserve MemU q);
     assert_that (reserved_deref b = bs ''b'');
     q \<leftarrow> acked MemU b q;
     q \<leftarrow> unwrap_none (reserve MemU q);
     assert_that (is_empty q)}"

definition Identity :: "byte list Codec" where
  "Identity = \<lparr>encode = (\<lambda>value. Inr value), decode = (\<lambda>bytes. Inr bytes)\<rparr>"

definition FailDecode :: "byte Codec" where
  "FailDecode = \<lparr>encode = (\<lambda>value. Inr [value]), decode = (\<lambda>bytes. Inl (codec_error_new id ''always fails''))\<rparr>"

definition custom_codec_roundtrips :: "unit option" where
  "custom_codec_roundtrips = do {
     ((q, txc, rxc), _) \<leftarrow> unwrap (open_typed MemU (builder_new mem_new) Identity);
     (_, q) \<leftarrow> unwrap (typed_push MemU txc q (bs ''hello''));
     (item, q) \<leftarrow> unwrap_some (typed_reserve MemU rxc q);
     assert_that (typed_deref item = bs ''hello'');
     (_, q) \<leftarrow> unwrap (Some (typed_ack MemU q item));
     q \<leftarrow> unwrap_none (typed_reserve MemU rxc q);
     Some ()}"

definition reserve_surfaces_decode_errors :: "unit option" where
  "reserve_surfaces_decode_errors = do {
     ((q, txc, rxc), _) \<leftarrow> unwrap (open_typed MemU (builder_new mem_new) FailDecode);
     (_, q) \<leftarrow> unwrap (typed_push MemU txc q 1);
     (case typed_reserve MemU rxc q of
        Some (Err (Reserve_Decode _), _) \<Rightarrow> Some ()
      | _ \<Rightarrow> None)}"

lemmas typed_run = open_typed_def typed_push_def typed_reserve_def typed_ack_def typed_deref_def Identity_def FailDecode_def

lemma queue_tests:
  "push_reserve_ack_roundtrip = Some ()" "custom_codec_roundtrips = Some ()" "reserve_surfaces_decode_errors = Some ()"
  by (simp_all add: push_reserve_ack_roundtrip_def custom_codec_roundtrips_def reserve_surfaces_decode_errors_def
      is_empty_def typed_run test_run cong: bind_front)

section \<open>The tests of the durable backends\<close>

text \<open>\<open>reopen\<close> is what dropping the handles and opening the same path again does to the database.\<close>

definition reopen_redelivers_unacked :: "('s, 'e) Store \<Rightarrow> ('s \<Rightarrow> 's) \<Rightarrow> 's \<Rightarrow> unit option" where
  "reopen_redelivers_unacked S reopen st = do {
     c \<leftarrow> builder_capacity 8 (builder_new st);
     q \<leftarrow> opened S c;
     q \<leftarrow> pushed S (bs ''a'') q;
     q \<leftarrow> pushed S (bs ''b'') q;
     c \<leftarrow> builder_capacity 8 (builder_new (reopen (store q)));
     q \<leftarrow> opened S c;
     (a, q) \<leftarrow> unwrap_some (reserve S q);
     assert_that (reserved_deref a = bs ''a'');
     q \<leftarrow> acked S a q;
     c \<leftarrow> builder_capacity 8 (builder_new (reopen (store q)));
     q \<leftarrow> opened S c;
     (b, q) \<leftarrow> unwrap_some (reserve S q);
     assert_that (reserved_deref b = bs ''b'');
     q \<leftarrow> acked S b q;
     q \<leftarrow> unwrap_none (reserve S q);
     Some ()}"

lemma mem_reopens: "reopen_redelivers_unacked MemStore id mem_new = Some ()"
  by (simp add: reopen_redelivers_unacked_def test_run cong: bind_front)

text \<open>The calls of the tests keep two stores in step.\<close>

lemma bind_alike:
  "rel_option A a b \<Longrightarrow> (\<And>x y. A x y \<Longrightarrow> rel_option B (f x) (g y)) \<Longrightarrow> rel_option B (a \<bind> f) (b \<bind> g)"
  by (cases a; cases b) auto

lemma took_alike:
  "runs_alike L a b \<Longrightarrow> (\<And>r q p. L q p \<Longrightarrow> rel_option B (f r q) (g r p)) \<Longrightarrow>
     rel_option B (a \<bind> (\<lambda>(r, q). f r q)) (b \<bind> (\<lambda>(r, p). g r p))"
  by (cases a; cases b) auto

lemma returned_alike: "rel_prod (=) R a b \<Longrightarrow> runs_alike R (returned a) (returned b)"
  by (cases a; cases b) (auto simp: returned_def split: sum.split)

lemma assert_alike:
  "p = p' \<Longrightarrow> rel_option B x y \<Longrightarrow> rel_option B (assert_that p \<bind> (\<lambda>_. x)) (assert_that p' \<bind> (\<lambda>_. y))"
  by (simp add: assert_that_def)

context in_step begin

lemma builder_alike:
  "R st ts \<Longrightarrow> rel_option (alike_builder R) (builder_capacity n (builder_new st)) (builder_capacity n (builder_new ts))"
  by (simp add: builder_capacity_def builder_new_def alike_builder_def)

lemma opened_alike:
  assumes "alike_builder R b c"
  shows "rel_option (alike R) (opened S b) (opened T c)"
  using open_queue_alike [OF assms] by (auto simp: opened_def unwrap_def elim!: option.rel_cases split: outcome.split)

lemma pushed_alike: "alike R q p \<Longrightarrow> rel_option (alike R) (pushed S v q) (pushed T v p)"
  using push_alike [of q p v] by (auto simp: pushed_def unwrap_def elim!: option.rel_cases split: outcome.split)

lemma acked_alike: "alike R q p \<Longrightarrow> rel_option (alike R) (acked S r q) (acked T r p)"
  using ack_alike [of q p r] by (auto simp: acked_def unwrap_def rel_prod_conv split: outcome.split prod.splits)

lemma taken_alike: "alike R q p \<Longrightarrow> runs_alike (alike R) (unwrap_some (reserve S q)) (unwrap_some (reserve T p))"
  using reserve_alike [of q p]
  by (auto simp: unwrap_some_def elim!: option.rel_cases split: outcome.split option.split)

lemma none_alike: "alike R q p \<Longrightarrow> rel_option (alike R) (unwrap_none (reserve S q)) (unwrap_none (reserve T p))"
  using reserve_alike [of q p]
  by (auto simp: unwrap_none_def elim!: option.rel_cases split: outcome.split option.split)

lemmas calls_alike = bind_alike [OF opened_alike] bind_alike [OF pushed_alike] bind_alike [OF acked_alike]
  took_alike [OF taken_alike] bind_alike [OF none_alike] assert_alike

lemma reopens_alike:
  assumes "\<And>st ts. R st ts \<Longrightarrow> R (f st) (g ts)" and "R st ts"
  shows "rel_option (=) (reopen_redelivers_unacked S f st) (reopen_redelivers_unacked T g ts)"
  unfolding reopen_redelivers_unacked_def
  by (rule bind_alike [OF builder_alike [OF assms(2)]])
    (rule calls_alike refl | assumption | (rule bind_alike [OF builder_alike], rule assms(1), erule alikeD(1)) | simp)+

lemmas store_calls_alike = took_alike [OF returned_alike [OF get_step]] took_alike [OF returned_alike [OF seek_step]]
  took_alike [OF returned_alike [OF seek_back_step]] took_alike [OF returned_alike [OF commit_step]] assert_alike

lemma contract_alike: "R st ts \<Longrightarrow> rel_option (=) (contract S st) (contract T ts)"
  unfolding contract_def by (rule store_calls_alike refl | assumption | simp add: assert_that_def)+

end

text \<open>Each backend, opened on a path.\<close>

definition on_path :: "'e + 'd \<Rightarrow> ('d \<Rightarrow> unit option) \<Rightarrow> unit option" where
  "on_path d test = (case d of Inl _ \<Rightarrow> None | Inr d \<Rightarrow> test d)"

definition test_mem_store_contract :: "unit option" where
  "test_mem_store_contract = contract MemU mem_new"

definition test_sled_store_contract :: "('d, 'b, 'e) sled \<Rightarrow> string \<Rightarrow> unit option" where
  "test_sled_store_contract L path = on_path (sled_store_open L path) (contract (SledStore L))"

definition test_redb_store_contract :: "('d, 'r, 't, 'w, 'e) redb \<Rightarrow> string \<Rightarrow> unit option" where
  "test_redb_store_contract L path = on_path (redb_open L path) (contract (RedbStore L))"

definition test_rocksdb_store_contract :: "('d, 'b, 'e) rocks \<Rightarrow> string \<Rightarrow> unit option" where
  "test_rocksdb_store_contract L path = on_path (rocks_open L path) (contract (RocksStore L))"

definition sled_reopen_redelivers_unacked :: "('d, 'b, 'e) sled \<Rightarrow> ('d \<Rightarrow> 'd) \<Rightarrow> string \<Rightarrow> unit option" where
  "sled_reopen_redelivers_unacked L reopen path =
     on_path (sled_store_open L path) (reopen_redelivers_unacked (SledStore L) reopen)"

definition redb_reopen_redelivers_unacked :: "('d, 'r, 't, 'w, 'e) redb \<Rightarrow> ('d \<Rightarrow> 'd) \<Rightarrow> string \<Rightarrow> unit option" where
  "redb_reopen_redelivers_unacked L reopen path =
     on_path (redb_open L path) (reopen_redelivers_unacked (RedbStore L) reopen)"

definition rocksdb_reopen_redelivers_unacked :: "('d, 'b, 'e) rocks \<Rightarrow> ('d \<Rightarrow> 'd) \<Rightarrow> string \<Rightarrow> unit option" where
  "rocksdb_reopen_redelivers_unacked L reopen path =
     on_path (rocks_open L path) (reopen_redelivers_unacked (RocksStore L) reopen)"

lemma same_tests:
  fixes S :: "('s, 'e) Store"
  assumes "store_contract S sinv view" and "never_fails S sinv" and "sinv st" and "view st = Map.empty"
    and "\<And>d. sinv d \<Longrightarrow> sinv (reopen d) \<and> view (reopen d) = view d"
  shows "contract S st = Some () \<and> reopen_redelivers_unacked S reopen st = Some ()"
proof -
  let ?M = "MemStore :: (mem_store, 'e) Store" and ?R = "same_contents sinv view bt_ordered map_of"
  have s: "in_step S ?M ?R"
    by (rule contents_in_step [OF assms(1,2) mem.store_contract_axioms mem_never_fails])
  have R: "?R st mem_new" using assms(3,4) by (simp add: same_contents_def mem_new_def)
  have "contract ?M mem_new = Some ()"
    by (rule mem.contract_passes) (simp_all add: store_errors_def mem_defs mem_new_def)
  moreover have "reopen_redelivers_unacked ?M id mem_new = Some ()" by (rule mem_reopens)
  moreover have "rel_option (=) (reopen_redelivers_unacked S reopen st) (reopen_redelivers_unacked ?M id mem_new)"
    by (rule in_step.reopens_alike [OF s _ R]) (simp add: same_contents_def assms(5))
  ultimately show ?thesis
    using in_step.contract_alike [OF s R] by (simp add: option.rel_eq)
qed

lemma sled_tests:
  assumes "sled_lawful L dinv view upd" and "never_fails (SledStore L) dinv"
    and "sled_store_open L path = Inr d" and "dinv d" and "view d = Map.empty"
    and "\<And>d. dinv d \<Longrightarrow> dinv (reopen d) \<and> view (reopen d) = view d"
  shows "test_sled_store_contract L path = Some ()" "sled_reopen_redelivers_unacked L reopen path = Some ()"
  using same_tests [OF sled_store_contract [OF assms(1)] assms(2,4,5), of reopen] assms(3,6)
  by (simp_all add: test_sled_store_contract_def sled_reopen_redelivers_unacked_def on_path_def)

lemma redb_tests:
  assumes "redb_lawful L dinv view rview tview staged immediate" and "never_fails (RedbStore L) dinv"
    and "redb_open L path = Inr d" and "dinv d" and "view d = Map.empty"
    and "\<And>d. dinv d \<Longrightarrow> dinv (reopen d) \<and> view (reopen d) = view d"
  shows "test_redb_store_contract L path = Some ()" "redb_reopen_redelivers_unacked L reopen path = Some ()"
  using same_tests [OF redb_store_contract [OF assms(1)] assms(2,4,5), of reopen] assms(3,6)
  by (simp_all add: test_redb_store_contract_def redb_reopen_redelivers_unacked_def on_path_def)

lemma rocks_tests:
  assumes "rocks_lawful L dinv view upd" and "never_fails (RocksStore L) dinv"
    and "rocks_open L path = Inr d" and "dinv d" and "view d = Map.empty"
    and "\<And>d. dinv d \<Longrightarrow> dinv (reopen d) \<and> view (reopen d) = view d"
  shows "test_rocksdb_store_contract L path = Some ()" "rocksdb_reopen_redelivers_unacked L reopen path = Some ()"
  using same_tests [OF rocks_store_contract [OF assms(1)] assms(2,4,5), of reopen] assms(3,6)
  by (simp_all add: test_rocksdb_store_contract_def rocksdb_reopen_redelivers_unacked_def on_path_def)

end
